theory Spec2Isabelle
  imports Main "HOL-Library.Word"
begin

unbundle bit_operations_syntax

section \<open>The persistent-memory block driver (drivers/block/pmbd.c)\<close>

text \<open>
  A shallow embedding of the two subsystems of the driver that the specification is
  about: the emulation engine (access time and batched bandwidth) and the protected
  write path (the DRAM staging buffer in front of the PM region, its allocator and
  its flush engine, the buffered and unbuffered copy routines, the write barrier and
  the request dispatcher).

  Conventions. A C function that can call \<open>panic\<close> returns \<open>error + 'a\<close>.
  The cycle counter read by \<open>TIMESTAMP\<close> and the processor frequency
  \<open>cpu_khz\<close> are inputs of the functions that read them. Spin locks are not
  state of the sequential model; the text says which lock a function holds.
\<close>

subsection \<open>Emulation engine: data\<close>

type_synonym u64 = "64 word"
type_synonym u32 = "32 word"

text \<open>The kernel's \<open>READ\<close> (0) and \<open>WRITE\<close> (1), the index of the per-direction arrays.\<close>

datatype rw = READ | WRITE

datatype error =
    PanicTimestampInPast      \<comment> \<open>\<open>pmbd_emul_transfer_time\<close>: timestamp in the past found\<close>
  | PanicNotBuffered          \<comment> \<open>\<open>_pmbd_buffer_flush_range\<close>: block of the run is not buffered\<close>
  | PanicCleanInDirtyRange    \<comment> \<open>\<open>pmbd_buffer_flush\<close>: found clean block in the range of dirty blocks\<close>
  | PanicVerifyFailed         \<comment> \<open>\<open>pmbd_verify_wr_pages\<close>: writing into PM failed\<close>
  | PanicNtStoreSmall         \<comment> \<open>\<open>nts_memcpy\<close>: fewer than 64 bytes\<close>
  | PanicNtStoreSize          \<comment> \<open>\<open>nts_memcpy_64bytes_v2\<close>: size smaller than 64, or no multiple of 64\<close>
  | PanicNtStoreNotAligned    \<comment> \<open>\<open>nts_memcpy_64bytes_v2\<close>: not aligned\<close>
  | PanicNtLoadSmall          \<comment> \<open>\<open>ntl_memcpy\<close>: fewer than 64 bytes\<close>
  | PanicNtLoadSize           \<comment> \<open>\<open>ntl_memcpy_64bytes\<close>: size smaller than 64, or no multiple of 64\<close>
  | PanicNtLoadNotAligned     \<comment> \<open>\<open>ntl_memcpy_64bytes\<close>: not aligned\<close>

text \<open>
  The fields of \<open>PMBD_DEVICE_T\<close> that the emulation engine reads and writes.
  The three \<open>batch_*\<close> arrays have one cell per direction.
\<close>

record pmbd_emul =
  simmode :: u32
  rdlat :: u64
  wrlat :: u64
  rdbw :: u64
  wrbw :: u64
  batch_start_cycle :: "rw \<Rightarrow> u64"
  batch_end_cycle :: "rw \<Rightarrow> u64"
  batch_sectors :: "rw \<Rightarrow> u64"

text \<open>
  What \<open>pmbd_slowdown\<close> does with a delay: nothing, a busy wait on the cycle counter
  (\<open>sync_slowdown\<close>), or \<open>msleep\<close> for the milliseconds and a busy wait for
  the rest (\<open>async_slowdown\<close>).
\<close>

datatype delay = NoDelay | SyncDelay u64 | AsyncDelay u64 u64

text \<open>The calls \<open>emul_end\<close> makes, in order, each with the delay it applied.\<close>

datatype emul_event = TransferTime delay | AccessTime delay

subsection \<open>Emulation engine: constants and arithmetic\<close>

definition PMBD_BATCH_MAX_SECTORS :: u64 where
  "PMBD_BATCH_MAX_SECTORS = 4096"

definition PMBD_BATCH_MIN_SECTORS :: u64 where
  "PMBD_BATCH_MIN_SECTORS = 256"

definition PMBD_BATCH_MAX_INTERVAL :: u64 where
  "PMBD_BATCH_MAX_INTERVAL = 1000000"

definition PMBD_BATCH_MAX_DURATION :: u64 where
  "PMBD_BATCH_MAX_DURATION = 10000000"

definition MAX_SYNC_SLOWDOWN :: u64 where
  "MAX_SYNC_SLOWDOWN = 10000000"

text \<open>
  \<open>DIV64_ROUND\<close>: the two quotients and the remainder are \<open>uint32_t\<close> locals, so
  each is truncated to 32 bits, and their sum is a 32-bit addition.
\<close>

definition DIV64_ROUND :: "u64 \<Rightarrow> u64 \<Rightarrow> u64" where
  "DIV64_ROUND dividend divisor =
     (if divisor > 0 then
        (let quot1 = (ucast (dividend div divisor) :: u32);
             md = (ucast (dividend mod divisor) :: u32);
             mult = md * 2;
             quot2 = (ucast ((ucast mult :: u64) div divisor) :: u32)
         in ucast (quot1 + quot2))
      else 0)"

text \<open>
  \<open>_cycle_to_ns\<close>, with \<open>cpu_khz\<close> (what \<open>get_cpu_freq\<close> returns) as the first
  argument. The product wraps at 64 bits. \<open>cpu_khz\<close> is not zero on a running
  machine; the C division would trap there.
\<close>

definition cycle_to_ns :: "u32 \<Rightarrow> u64 \<Rightarrow> u64" where
  "cycle_to_ns khz cycle = cycle * 1000000 div ucast khz"

definition cal_trans_time :: "u32 \<Rightarrow> rw \<Rightarrow> pmbd_emul \<Rightarrow> u64" where
  "cal_trans_time num_sectors r e =
     (let bw = (if r = READ then rdbw e else wrbw e) in
      if bw \<noteq> 0 then
        (let tmp = (ucast num_sectors :: u64) * 512;
             tt = drop_bit 20 (1000000000 :: u64)
         in DIV64_ROUND (tmp * tt) bw)
      else 0)"

definition cal_access_time :: "u32 \<Rightarrow> rw \<Rightarrow> pmbd_emul \<Rightarrow> u64" where
  "cal_access_time num_sectors r e = (if r = READ then rdlat e else wrlat e)"

definition pmbd_slowdown :: "u64 \<Rightarrow> bool \<Rightarrow> delay" where
  "pmbd_slowdown ns in_lock =
     (if ns > MAX_SYNC_SLOWDOWN \<and> \<not> in_lock then
        AsyncDelay (ns div 1000000) (ns - (ns div 1000000) * 1000000)
      else if ns > 0 then SyncDelay ns
      else NoDelay)"

subsection \<open>Emulation engine: the batch window and the two hooks\<close>

text \<open>
  \<open>pmbd_emul_transfer_time\<close>. The whole body runs between \<open>spin_lock\<close> and
  \<open>spin_unlock\<close> of \<open>batch_lock\<close>, so the delay it returns is applied with the
  lock held; this is why it calls \<open>pmbd_slowdown\<close> with \<open>in_lock = TRUE\<close>.
  \<open>now_cycle\<close> is the value \<open>TIMESTAMP\<close> reads. \<open>num_sectors\<close> is a C
  \<open>int\<close>, sign-extended when added to the 64-bit counter; the counter is truncated
  to \<open>unsigned int\<close> when passed to \<open>cal_trans_time\<close>.
\<close>

definition batch_reset :: "rw \<Rightarrow> u64 \<Rightarrow> u64 \<Rightarrow> pmbd_emul \<Rightarrow> pmbd_emul" where
  "batch_reset r sectors now_cycle e =
     e\<lparr>batch_sectors := (batch_sectors e)(r := sectors),
        batch_start_cycle := (batch_start_cycle e)(r := now_cycle),
        batch_end_cycle := (batch_end_cycle e)(r := now_cycle)\<rparr>"

definition pmbd_emul_transfer_time ::
  "u32 \<Rightarrow> u64 \<Rightarrow> 32 word \<Rightarrow> rw \<Rightarrow> pmbd_emul \<Rightarrow> error + (delay \<times> pmbd_emul)" where
  "pmbd_emul_transfer_time khz now_cycle num_sectors r e =
     (if batch_start_cycle e r = 0 then
        Inr (NoDelay,
             e\<lparr>batch_start_cycle := (batch_start_cycle e)(r := now_cycle),
               batch_end_cycle := (batch_end_cycle e)(r := now_cycle)\<rparr>)
      else if \<not> (now_cycle \<ge> batch_end_cycle e r) then Inl PanicTimestampInPast
      else
        (let interval_ns = cycle_to_ns khz (now_cycle - batch_end_cycle e r);
             new_batch = (interval_ns \<ge> PMBD_BATCH_MAX_INTERVAL);
             e1 = (if new_batch then e
                   else e\<lparr>batch_sectors :=
                            (batch_sectors e)(r := batch_sectors e r + scast num_sectors),
                          batch_end_cycle := (batch_end_cycle e)(r := now_cycle)\<rparr>);
             duration_ns = cycle_to_ns khz (batch_end_cycle e1 r - batch_start_cycle e1 r);
             end_batch = (new_batch \<or> duration_ns \<ge> PMBD_BATCH_MAX_DURATION
                          \<or> batch_sectors e1 r \<ge> PMBD_BATCH_MAX_SECTORS);
             d = (if end_batch \<and> batch_sectors e1 r > PMBD_BATCH_MIN_SECTORS then
                    (let real_ns = cycle_to_ns khz (batch_end_cycle e1 r - batch_start_cycle e1 r);
                         emul_ns = cal_trans_time (ucast (batch_sectors e1 r)) r e1
                     in if emul_ns > real_ns then pmbd_slowdown (emul_ns - real_ns) True
                        else NoDelay)
                  else NoDelay);
             e2 = (if end_batch then batch_reset r 0 now_cycle e1 else e1);
             e3 = (if new_batch then batch_reset r (scast num_sectors) now_cycle e2 else e2)
         in Inr (d, e3)))"

text \<open>\<open>pmbd_emul_access_time\<close>: no lock is held, so \<open>in_lock = FALSE\<close>.\<close>

definition pmbd_emul_access_time :: "u32 \<Rightarrow> u64 \<Rightarrow> u64 \<Rightarrow> 32 word \<Rightarrow> rw \<Rightarrow> pmbd_emul \<Rightarrow> delay" where
  "pmbd_emul_access_time khz start end_cycle num_sectors r e =
     (let real_ns = cycle_to_ns khz (end_cycle - start);
          emul_ns = cal_access_time (ucast num_sectors) r e
      in if emul_ns > real_ns then pmbd_slowdown (emul_ns - real_ns) False else NoDelay)"

definition PMBD_DEV_USE_EMULATION :: "pmbd_emul \<Rightarrow> bool" where
  "PMBD_DEV_USE_EMULATION e \<longleftrightarrow> rdlat e \<noteq> 0 \<or> wrlat e \<noteq> 0 \<or> rdbw e \<noteq> 0 \<or> wrbw e \<noteq> 0"

definition PMBD_DEV_SIM_DEV :: "pmbd_emul \<Rightarrow> bool" where
  "PMBD_DEV_SIM_DEV e \<longleftrightarrow> PMBD_DEV_USE_EMULATION e \<and> simmode e = 0"

text \<open>
  \<open>emul_end\<close>. \<open>now_cycle\<close> is the timestamp read inside
  \<open>pmbd_emul_transfer_time\<close>, \<open>end_cycle\<close> the one read before the access-time
  padding. The result lists the two emulation calls that were made.
\<close>

definition emul_end ::
  "u32 \<Rightarrow> u64 \<Rightarrow> u64 \<Rightarrow> pmbd_emul \<Rightarrow> 32 word \<Rightarrow> rw \<Rightarrow> u64 \<Rightarrow> error + (emul_event list \<times> pmbd_emul)" where
  "emul_end khz now_cycle end_cycle e num_sectors r start =
     (if PMBD_DEV_USE_EMULATION e \<and> 0 <s num_sectors then
        (case (if rdbw e > 0 \<and> wrbw e > 0 then
                 (case pmbd_emul_transfer_time khz now_cycle num_sectors r e of
                    Inl err \<Rightarrow> Inl err
                  | Inr (d, e1) \<Rightarrow> Inr ([TransferTime d], e1))
               else Inr ([], e)) of
           Inl err \<Rightarrow> Inl err
         | Inr (evs, e1) \<Rightarrow>
             Inr (evs @ (if rdlat e1 > 0 \<or> wrlat e1 > 0 then
                           [AccessTime (pmbd_emul_access_time khz start end_cycle num_sectors r e1)]
                         else []), e1))
      else Inr ([], e))"

text \<open>Concrete devices used by the closed theorems below.\<close>

definition emul_wr100 :: pmbd_emul where
  "emul_wr100 = \<lparr>simmode = 0, rdlat = 0, wrlat = 0, rdbw = 0, wrbw = 100,
     batch_start_cycle = (\<lambda>_. 1000), batch_end_cycle = (\<lambda>_. 2000),
     batch_sectors = (\<lambda>_. 4088)\<rparr>"

definition emul_rw100 :: pmbd_emul where
  "emul_rw100 = emul_wr100\<lparr>rdbw := 100\<rparr>"

definition emul_at256 :: pmbd_emul where
  "emul_at256 = \<lparr>simmode = 0, rdlat = 0, wrlat = 0, rdbw = 100, wrbw = 100,
     batch_start_cycle = (\<lambda>_. 1000), batch_end_cycle = (\<lambda>_. 2000),
     batch_sectors = (\<lambda>_. 256)\<rparr>"



subsection \<open>Request dispatcher: the order of effects of \<open>pmbd_make_request\<close>\<close>

text \<open>
  The dispatcher is modelled by the sequence of effects one call performs, in program
  order. The data copies themselves (\<open>DoBvec\<close>) and the buffer flushes of the barrier
  (\<open>FlushBuffer\<close>) are modelled on the storage state further below.
\<close>

datatype cache_flag = CACHE_WB | CACHE_WC | CACHE_UC_MINUS | CACHE_UC

datatype mr_event =
    BarrierLock                      \<comment> \<open>\<open>spin_lock(&pmbd->wr_barrier_lock)\<close> in \<open>pmbd_write_barrier\<close>\<close>
  | WaitNoFlying                     \<comment> \<open>leaving \<open>while (atomic_read(&pmbd->num_flying_wr) != 0);\<close>\<close>
  | FlushBuffer nat                  \<comment> \<open>\<open>pmbd_buffer_check_and_flush(buffers[i], num_blocks, CALLER_DESTROYER)\<close>\<close>
  | ClflushAll                       \<comment> \<open>\<open>pmbd_clflush_all\<close>\<close>
  | BarrierUnlock                    \<comment> \<open>\<open>spin_unlock(&pmbd->wr_barrier_lock)\<close>\<close>
  | BarrierLockPass                  \<comment> \<open>a write taking and releasing \<open>wr_barrier_lock\<close>\<close>
  | AtomicInc                        \<comment> \<open>\<open>atomic_inc(&pmbd->num_flying_wr)\<close>\<close>
  | EmulStart                        \<comment> \<open>\<open>emul_start\<close>\<close>
  | CapacityExceeded                 \<comment> \<open>the warning of the out-of-range check\<close>
  | UpdateAccessTime                 \<comment> \<open>\<open>PMBD_DEV_UPDATE_ACCESS_TIME\<close>\<close>
  | DoBvec rw u64 u32 bool           \<comment> \<open>\<open>pmbd_do_bvec\<close>: direction, sector, length, FUA\<close>
  | BioEndio int                     \<comment> \<open>\<open>bio_endio(bio, err)\<close>: completion is signalled\<close>
  | EmulEnd "emul_event list"        \<comment> \<open>\<open>emul_end\<close>, with the paddings it applied\<close>
  | EmulPanic error                  \<comment> \<open>\<open>emul_end\<close> ended in \<open>panic\<close>\<close>
  | AtomicDec                        \<comment> \<open>\<open>atomic_dec(&pmbd->num_flying_wr)\<close>\<close>
  | StatUpdate                       \<comment> \<open>the statistics update under \<open>stat_lock\<close>\<close>

text \<open>
  The request: \<open>bi_dir\<close> is \<open>bio_rw\<close> after \<open>READA\<close> has been turned into
  \<open>READ\<close> (any other value panics and is not a value of the type); \<open>bi_flush\<close> and
  \<open>bi_fua\<close> are \<open>BIO_WR_BARRIER\<close> and \<open>BIO_WR_FUA\<close>; \<open>bi_io_vec\<close> holds the
  \<open>bv_len\<close> of each segment.
\<close>

record bio =
  bi_dir :: rw
  bi_flush :: bool
  bi_fua :: bool
  bi_sector :: u64
  bi_size :: u32
  bi_io_vec :: "u32 list"

text \<open>The module options and device fields the dispatcher and the barrier read.\<close>

record mr_config =
  g_pmbd_wb :: bool
  g_pmbd_fua :: bool
  g_pmbd_nts :: bool
  g_pmbd_cpu_cache_clflush :: bool
  g_pmbd_cpu_cache_flag :: cache_flag
  capacity :: u64
  mr_bufmode :: bool
  mr_num_buffers :: nat

text \<open>The three cycle-counter readings of one request under whole-device emulation.\<close>

record tsc =
  ts_start :: u64      \<comment> \<open>read by \<open>emul_start\<close>\<close>
  ts_batch :: u64      \<comment> \<open>read by \<open>pmbd_emul_transfer_time\<close>\<close>
  ts_end :: u64        \<comment> \<open>read by \<open>emul_end\<close> before the access-time padding\<close>

definition pmbd_write_barrier_events :: "mr_config \<Rightarrow> mr_event list" where
  "pmbd_write_barrier_events c =
     [BarrierLock, WaitNoFlying] @
     (if mr_bufmode c then map FlushBuffer [0..<mr_num_buffers c] else []) @
     (if g_pmbd_cpu_cache_flag c = CACHE_WB \<and> \<not> g_pmbd_nts c \<and> \<not> g_pmbd_cpu_cache_clflush c
      then [ClflushAll] else []) @
     [BarrierUnlock]"

definition emul_start :: "u64 \<Rightarrow> pmbd_emul \<Rightarrow> 32 word \<Rightarrow> rw \<Rightarrow> u64" where
  "emul_start now_cycle e num_sectors r =
     (if PMBD_DEV_USE_EMULATION e \<and> 0 <s num_sectors then now_cycle else 0)"

fun do_bvecs :: "rw \<Rightarrow> bool \<Rightarrow> u64 \<Rightarrow> u32 list \<Rightarrow> mr_event list" where
  "do_bvecs r do_fua sector [] = []"
| "do_bvecs r do_fua sector (len # ls) =
     DoBvec r sector len do_fua # do_bvecs r do_fua (sector + ucast (drop_bit 9 len)) ls"

text \<open>
  \<open>pmbd_make_request\<close>. \<open>err\<close> starts as \<open>-EIO\<close> (-5) and is overwritten by the
  result of each \<open>pmbd_do_bvec\<close>, which is always 0. The result is the sequence of
  effects and the emulation state after the call.
\<close>

definition pmbd_make_request ::
  "mr_config \<Rightarrow> u32 \<Rightarrow> tsc \<Rightarrow> pmbd_emul \<Rightarrow> bio \<Rightarrow> mr_event list \<times> pmbd_emul" where
  "pmbd_make_request c khz ts e b =
     (let num_sectors = (ucast (drop_bit 9 (bi_size b)) :: 32 word);
          do_fua = (bi_fua b \<and> g_pmbd_fua c);
          pre = (if bi_flush b \<and> g_pmbd_wb c then pmbd_write_barrier_events c else []) @
                (if bi_dir b = WRITE then [BarrierLockPass] else []) @
                [AtomicInc];
          start = (if PMBD_DEV_SIM_DEV e then emul_start (ts_start ts) e num_sectors (bi_dir b) else 0);
          work = (if bi_sector b + ucast (drop_bit 9 (bi_size b)) > capacity c then
                    [CapacityExceeded, BioEndio (- 5)]
                  else if num_sectors = 0 then [BioEndio 0]
                  else UpdateAccessTime # do_bvecs (bi_dir b) do_fua (bi_sector b) (bi_io_vec b)
                       @ [BioEndio (if bi_io_vec b = [] then - 5 else 0)])
      in if PMBD_DEV_SIM_DEV e then
           (case emul_end khz (ts_batch ts) (ts_end ts) e num_sectors (bi_dir b) start of
              Inl err \<Rightarrow> (pre @ [EmulStart] @ work @ [EmulPanic err], e)
            | Inr (evs, e') \<Rightarrow> (pre @ [EmulStart] @ work @ [EmulEnd evs, AtomicDec, StatUpdate], e'))
         else (pre @ work @ [AtomicDec, StatUpdate], e))"

subsection \<open>Concurrent requests and the in-flight counter\<close>

text \<open>
  Requests run concurrently, each on its own thread, and interleave at the granularity
  of the effects above. A thread is the effects it has performed and those it still
  has to perform. The shared state is the atomic counter \<open>num_flying_wr\<close> (a 32-bit
  \<open>atomic_t\<close>) and \<open>wr_barrier_lock\<close>.
\<close>

record thread =
  done_evs :: "mr_event list"
  todo_evs :: "mr_event list"

record sys =
  num_flying_wr :: "32 word"
  wr_barrier_locked :: bool
  threads :: "thread list"

text \<open>A request is in flight from its \<open>atomic_inc\<close> to its \<open>atomic_dec\<close>.\<close>

definition in_flight :: "thread \<Rightarrow> bool" where
  "in_flight t \<longleftrightarrow> AtomicInc \<in> set (done_evs t) \<and> AtomicDec \<notin> set (done_evs t)"

definition num_in_flight :: "sys \<Rightarrow> nat" where
  "num_in_flight s = length (filter in_flight (threads s))"

text \<open>
  An effect that can block: taking the barrier lock needs it free, the barrier leaves
  its spin loop only when the counter is zero, and a panic stops the thread.
\<close>

fun enabled :: "sys \<Rightarrow> mr_event \<Rightarrow> bool" where
  "enabled s BarrierLock = (\<not> wr_barrier_locked s)"
| "enabled s BarrierLockPass = (\<not> wr_barrier_locked s)"
| "enabled s WaitNoFlying = (num_flying_wr s = 0)"
| "enabled s (EmulPanic err) = False"
| "enabled s ev = True"

fun effect :: "mr_event \<Rightarrow> sys \<Rightarrow> sys" where
  "effect AtomicInc s = s\<lparr>num_flying_wr := num_flying_wr s + 1\<rparr>"
| "effect AtomicDec s = s\<lparr>num_flying_wr := num_flying_wr s - 1\<rparr>"
| "effect BarrierLock s = s\<lparr>wr_barrier_locked := True\<rparr>"
| "effect BarrierUnlock s = s\<lparr>wr_barrier_locked := False\<rparr>"
| "effect ev s = s"

definition sys_init :: sys where
  "sys_init = \<lparr>num_flying_wr = 0, wr_barrier_locked = False, threads = []\<rparr>"

definition advance :: "nat \<Rightarrow> sys \<Rightarrow> sys" where
  "advance i s =
     (let t = threads s ! i; ev = hd (todo_evs t) in
      (effect ev s)\<lparr>threads := (threads s)[i := \<lparr>done_evs = done_evs t @ [ev],
                                                 todo_evs = tl (todo_evs t)\<rparr>]\<rparr>)"

inductive reachable :: "mr_config \<Rightarrow> sys \<Rightarrow> bool" for c :: mr_config where
  init: "reachable c sys_init"
| arrive: "reachable c s \<Longrightarrow>
           reachable c (s\<lparr>threads := threads s @
              [\<lparr>done_evs = [], todo_evs = fst (pmbd_make_request c khz ts e b)\<rparr>]\<rparr>)"
| exec: "reachable c s \<Longrightarrow> i < length (threads s) \<Longrightarrow> todo_evs (threads s ! i) \<noteq> [] \<Longrightarrow>
         enabled s (hd (todo_evs (threads s ! i))) \<Longrightarrow> reachable c (advance i s)"

text \<open>A thread that is about to copy data, signal completion or run an emulation hook.\<close>

fun servicing_event :: "mr_event \<Rightarrow> bool" where
  "servicing_event (DoBvec r sector len fua) = True"
| "servicing_event (BioEndio err) = True"
| "servicing_event EmulStart = True"
| "servicing_event (EmulEnd evs) = True"
| "servicing_event UpdateAccessTime = True"
| "servicing_event ev = False"

text \<open>Concrete requests used by the closed theorems below.\<close>

definition cfg0 :: mr_config where
  "cfg0 = \<lparr>g_pmbd_wb = True, g_pmbd_fua = True, g_pmbd_nts = False,
     g_pmbd_cpu_cache_clflush = False, g_pmbd_cpu_cache_flag = CACHE_WB,
     capacity = 2097152, mr_bufmode = True, mr_num_buffers = 1\<rparr>"

definition emul_rdlat :: pmbd_emul where
  "emul_rdlat = \<lparr>simmode = 0, rdlat = 10000, wrlat = 0, rdbw = 0, wrbw = 0,
     batch_start_cycle = (\<lambda>_. 0), batch_end_cycle = (\<lambda>_. 0), batch_sectors = (\<lambda>_. 0)\<rparr>"

definition tsc0 :: tsc where
  "tsc0 = \<lparr>ts_start = 5000, ts_batch = 7000, ts_end = 7000\<rparr>"

definition bio_read4k :: bio where
  "bio_read4k = \<lparr>bi_dir = READ, bi_flush = False, bi_fua = False, bi_sector = 8,
     bi_size = 4096, bi_io_vec = [4096]\<rparr>"

definition bio_write4k :: bio where
  "bio_write4k = bio_read4k\<lparr>bi_dir := WRITE\<rparr>"

text \<open>
  The three phases of a request with respect to the counter, as an automaton over the
  effects: before the increment, in flight, after the decrement. \<open>run_phase\<close> is
  \<open>None\<close> on a sequence that performs an effect in a phase where the dispatcher
  cannot perform it.
\<close>

datatype phase = Before | Flying | After

fun phase_step :: "phase \<Rightarrow> mr_event \<Rightarrow> phase option" where
  "phase_step Before BarrierLock = Some Before"
| "phase_step Before WaitNoFlying = Some Before"
| "phase_step Before (FlushBuffer i) = Some Before"
| "phase_step Before ClflushAll = Some Before"
| "phase_step Before BarrierUnlock = Some Before"
| "phase_step Before BarrierLockPass = Some Before"
| "phase_step Before AtomicInc = Some Flying"
| "phase_step Flying EmulStart = Some Flying"
| "phase_step Flying CapacityExceeded = Some Flying"
| "phase_step Flying UpdateAccessTime = Some Flying"
| "phase_step Flying (DoBvec r sector len fua) = Some Flying"
| "phase_step Flying (BioEndio err) = Some Flying"
| "phase_step Flying (EmulEnd evs) = Some Flying"
| "phase_step Flying (EmulPanic err) = Some Flying"
| "phase_step Flying AtomicDec = Some After"
| "phase_step After StatUpdate = Some After"
| "phase_step ph ev = None"

fun run_phase :: "phase \<Rightarrow> mr_event list \<Rightarrow> phase option" where
  "run_phase ph [] = Some ph"
| "run_phase ph (ev # evs) =
     (case phase_step ph ev of None \<Rightarrow> None | Some ph' \<Rightarrow> run_phase ph' evs)"

definition thread_ok :: "thread \<Rightarrow> bool" where
  "thread_ok t \<longleftrightarrow>
     (\<exists>ph. run_phase Before (done_evs t) = Some ph \<and> run_phase ph (todo_evs t) \<noteq> None)"

definition sys1 :: sys where
  "sys1 = advance 0 (sys_init\<lparr>threads := threads sys_init @
     [\<lparr>done_evs = [], todo_evs = fst (pmbd_make_request cfg0 1000000 tsc0 emul_rdlat bio_read4k)\<rparr>]\<rparr>)"

text \<open>The effects that end a request: the end of the emulation window and the decrement.\<close>

fun is_end_event :: "mr_event \<Rightarrow> bool" where
  "is_end_event (EmulEnd evs) = True"
| "is_end_event (EmulPanic err) = True"
| "is_end_event AtomicDec = True"
| "is_end_event ev = False"

text \<open>
  A request is inside the dispatcher from its first effect to its last. The state
  \<open>sys2\<close>: a 4096-byte write arrives and passes the barrier lock; a flush request
  arrives, takes the barrier lock and leaves the spin loop on the counter, which is 0;
  then the write performs its \<open>atomic_inc\<close>.
\<close>

definition inside_dispatcher :: "thread \<Rightarrow> bool" where
  "inside_dispatcher t \<longleftrightarrow> done_evs t \<noteq> [] \<and> todo_evs t \<noteq> []"

definition bio_flush :: bio where
  "bio_flush = \<lparr>bi_dir = WRITE, bi_flush = True, bi_fua = False, bi_sector = 0,
     bi_size = 0, bi_io_vec = []\<rparr>"

definition new_thread :: "bio \<Rightarrow> thread" where
  "new_thread b = \<lparr>done_evs = [], todo_evs = fst (pmbd_make_request cfg0 1000000 tsc0 emul_rdlat b)\<rparr>"

definition sys2 :: sys where
  "sys2 =
     (let s1 = sys_init\<lparr>threads := threads sys_init @ [new_thread bio_write4k]\<rparr>;
          s2 = advance 0 s1;
          s3 = s2\<lparr>threads := threads s2 @ [new_thread bio_flush]\<rparr>;
          s4 = advance 1 s3;
          s5 = advance 1 s4
      in advance 0 s5)"

text \<open>
  The state \<open>sys3\<close>: from \<open>sys2\<close> the flush request flushes buffer 0, and then the
  write opens its emulation window, updates the access time and copies its segment.
\<close>

definition sys3 :: sys where
  "sys3 = advance 0 (advance 0 (advance 0 (advance 1 sys2)))"

subsection \<open>Protected write path: data\<close>

text \<open>
  Memory regions (the PM window \<open>mem_space\<close>, the slot ring \<open>buffer_space\<close> of a
  buffer, a page of the requester) are stores from byte offsets to bytes, and the
  metadata arrays (\<open>bbi_space\<close>, \<open>pbi_space\<close>, \<open>buffers\<close>) are stores from
  indices to cells. A pointer into a region is the region and an offset; a pointer to
  a buffer is its index in \<open>buffers\<close>, and \<open>buffer->pmbd\<close> is the device at hand.
  Reading a cell beyond the end of an array is undefined in C; the theorems only read
  cells inside the arrays.

  \<open>sector_t\<close>, \<open>PBN_T\<close> and \<open>BBN_T\<close> are 64-bit unsigned; they are modelled by
  \<open>nat\<close>. All values are bounded by the capacity of the device, and the two
  subtractions that could wrap are guarded by the hypotheses: a request has at least
  one sector (the dispatcher returns before the copy when \<open>num_sectors = 0\<close>), and
  \<open>num_cleaned\<close> never exceeds \<open>num_dirty\<close> in a well-formed state.

  Every region starts at a page-aligned virtual address (\<open>vmalloc\<close>, \<open>ioremap\<close>
  and \<open>kmap\<close> return such addresses), so the bits of an address below bit 12 are
  those of the offset in the region: the alignment tests of the non-temporal copies
  read bit 6 of the offset.

  The copies are those of a device without private mapping (\<open>PMBD_USE_PMAP()\<close> is
  false, the default). Not modelled, because they do not change the bytes stored: page
  permissions and the CR0/WP switch, cache flushes and fences, checksums (a mismatch is
  only logged), statistics, and the timing hooks inside the copies.
\<close>

type_synonym byte = "8 word"
type_synonym mem = "nat \<Rightarrow> byte"

record pmbd_bbi =
  pbn :: nat
  dirty :: bool

record pmbd_bsort_entry =
  se_bbn :: nat
  se_pbn :: nat

record pmbd_buffer =
  num_blocks :: nat
  buffer_space :: mem
  bbi_space :: "nat \<Rightarrow> pmbd_bbi"
  num_dirty :: nat
  pos_dirty :: nat
  pos_clean :: nat
  batch_size :: nat

text \<open>
  The device: the PM window, the geometry, the buffer group, the per-block index
  (\<open>pbi_space p\<close> is the \<open>bbn\<close> field of the PBI of block \<open>p\<close>), and the module
  options that the copies read: \<open>g_pmbd_wr_verify\<close>, \<open>g_pmbd_subpage_update\<close>,
  and \<open>g_pmbd_nts\<close> and \<open>g_pmbd_ntl\<close> as \<open>use_nts\<close> and \<open>use_ntl\<close>.
\<close>

record pmbd_device =
  mem_space :: mem
  num_sectors :: nat
  sector_size :: nat
  pb_size :: nat
  bufmode :: bool
  wpmode :: nat
  buffers :: "nat \<Rightarrow> pmbd_buffer"
  num_buffers :: nat
  buffer_stride :: nat
  pbi_space :: "nat \<Rightarrow> nat"
  g_pmbd_wr_verify :: bool
  g_pmbd_subpage_update :: bool
  use_nts :: bool
  use_ntl :: bool

datatype caller = CALLER_ALLOCATOR | CALLER_SYNCER | CALLER_DESTROYER

subsection \<open>Protected write path: macros of pmbd.h\<close>

definition SECTOR_TO_BYTE :: "nat \<Rightarrow> nat" where
  "SECTOR_TO_BYTE n = n * 512"

definition BYTE_TO_SECTOR :: "nat \<Rightarrow> nat" where
  "BYTE_TO_SECTOR n = n div 512"

definition BYTE_TO_PBN :: "pmbd_device \<Rightarrow> nat \<Rightarrow> nat" where
  "BYTE_TO_PBN d bytes = bytes div pb_size d"

definition PBN_TO_BYTE :: "pmbd_device \<Rightarrow> nat \<Rightarrow> nat" where
  "PBN_TO_BYTE d p = p * pb_size d"

definition SECTOR_TO_PBN :: "pmbd_device \<Rightarrow> nat \<Rightarrow> nat" where
  "SECTOR_TO_PBN d sect = BYTE_TO_PBN d (SECTOR_TO_BYTE sect)"

definition PBN_TO_SECTOR :: "pmbd_device \<Rightarrow> nat \<Rightarrow> nat" where
  "PBN_TO_SECTOR d p = BYTE_TO_SECTOR (PBN_TO_BYTE d p)"

definition PMBD_MEM_TOTAL_BYTES :: "pmbd_device \<Rightarrow> nat" where
  "PMBD_MEM_TOTAL_BYTES d = num_sectors d * sector_size d"

definition PMBD_TOTAL_PB_NUM :: "pmbd_device \<Rightarrow> nat" where
  "PMBD_TOTAL_PB_NUM d = PMBD_MEM_TOTAL_BYTES d div pb_size d"

definition PBN_TO_PMBD_BUFFER_ID :: "pmbd_device \<Rightarrow> nat \<Rightarrow> nat" where
  "PBN_TO_PMBD_BUFFER_ID d p = (p div buffer_stride d) mod num_buffers d"

definition PMBD_BLOCK_VADDR :: "pmbd_device \<Rightarrow> nat \<Rightarrow> nat" where
  "PMBD_BLOCK_VADDR d p = pb_size d * p"

definition PMBD_BUFFER_BLOCK :: "pmbd_device \<Rightarrow> nat \<Rightarrow> nat" where
  "PMBD_BUFFER_BLOCK d bbn = pb_size d * bbn"

definition PMBD_BLOCK_IS_BUFFERED :: "pmbd_device \<Rightarrow> nat \<Rightarrow> bool" where
  "PMBD_BLOCK_IS_BUFFERED d p \<longleftrightarrow>
     pbi_space d p < num_blocks (buffers d (PBN_TO_PMBD_BUFFER_ID d p))"

definition PMBD_DEV_USE_WPMODE_PTE :: "pmbd_device \<Rightarrow> bool" where
  "PMBD_DEV_USE_WPMODE_PTE d \<longleftrightarrow> wpmode d = 0"

text \<open>Updating buffer \<open>k\<close> of the device, and one BBI of it.\<close>

definition upd_buffer :: "nat \<Rightarrow> (pmbd_buffer \<Rightarrow> pmbd_buffer) \<Rightarrow> pmbd_device \<Rightarrow> pmbd_device" where
  "upd_buffer k f d = d\<lparr>buffers := (buffers d)(k := f (buffers d k))\<rparr>"

definition upd_bbi :: "nat \<Rightarrow> nat \<Rightarrow> (pmbd_bbi \<Rightarrow> pmbd_bbi) \<Rightarrow> pmbd_device \<Rightarrow> pmbd_device" where
  "upd_bbi k bbn f d =
     upd_buffer k (\<lambda>b. b\<lparr>bbi_space := (bbi_space b)(bbn := f (bbi_space b bbn))\<rparr>) d"

definition PMBD_SET_BLOCK_BUFFERED :: "nat \<Rightarrow> nat \<Rightarrow> pmbd_device \<Rightarrow> pmbd_device" where
  "PMBD_SET_BLOCK_BUFFERED p bbn d = d\<lparr>pbi_space := (pbi_space d)(p := bbn)\<rparr>"

definition PMBD_SET_BLOCK_UNBUFFERED :: "nat \<Rightarrow> pmbd_device \<Rightarrow> pmbd_device" where
  "PMBD_SET_BLOCK_UNBUFFERED p d = d\<lparr>pbi_space := (pbi_space d)(p := PMBD_TOTAL_PB_NUM d + 3)\<rparr>"

definition PMBD_BUFFER_SET_BBI_CLEAN :: "nat \<Rightarrow> nat \<Rightarrow> pmbd_device \<Rightarrow> pmbd_device" where
  "PMBD_BUFFER_SET_BBI_CLEAN k bbn d = upd_bbi k bbn (\<lambda>i. i\<lparr>dirty := False\<rparr>) d"

definition PMBD_BUFFER_SET_BBI_DIRTY :: "nat \<Rightarrow> nat \<Rightarrow> pmbd_device \<Rightarrow> pmbd_device" where
  "PMBD_BUFFER_SET_BBI_DIRTY k bbn d = upd_bbi k bbn (\<lambda>i. i\<lparr>dirty := True\<rparr>) d"

definition PMBD_BUFFER_SET_BBI_BUFFERED :: "nat \<Rightarrow> nat \<Rightarrow> nat \<Rightarrow> pmbd_device \<Rightarrow> pmbd_device" where
  "PMBD_BUFFER_SET_BBI_BUFFERED k bbn p d = upd_bbi k bbn (\<lambda>i. i\<lparr>pbn := p\<rparr>) d"

definition PMBD_BUFFER_SET_BBI_UNBUFFERED :: "nat \<Rightarrow> nat \<Rightarrow> pmbd_device \<Rightarrow> pmbd_device" where
  "PMBD_BUFFER_SET_BBI_UNBUFFERED k bbn d =
     upd_bbi k bbn (\<lambda>i. i\<lparr>pbn := PMBD_TOTAL_PB_NUM d + 2\<rparr>) d"

definition PMBD_BUFFER_IS_FULL :: "pmbd_buffer \<Rightarrow> bool" where
  "PMBD_BUFFER_IS_FULL b \<longleftrightarrow> num_dirty b \<ge> num_blocks b"

definition PMBD_BUFFER_IS_EMPTY :: "pmbd_buffer \<Rightarrow> bool" where
  "PMBD_BUFFER_IS_EMPTY b \<longleftrightarrow> num_dirty b = 0"

definition PMBD_BUFFER_NEXT_POS :: "pmbd_buffer \<Rightarrow> nat \<Rightarrow> nat" where
  "PMBD_BUFFER_NEXT_POS b pos = (if pos = num_blocks b - 1 then 0 else pos + 1)"

definition PMBD_BUFFER_PRIO_POS :: "pmbd_buffer \<Rightarrow> nat \<Rightarrow> nat" where
  "PMBD_BUFFER_PRIO_POS b pos = (if pos = 0 then num_blocks b - 1 else pos - 1)"

definition PMBD_BUFFER_NEXT_N_POS :: "pmbd_buffer \<Rightarrow> nat \<Rightarrow> nat \<Rightarrow> nat" where
  "PMBD_BUFFER_NEXT_N_POS b pos n = (pos + n) mod num_blocks b"

subsection \<open>Protected write path: copies\<close>

definition memcpy :: "mem \<Rightarrow> nat \<Rightarrow> mem \<Rightarrow> nat \<Rightarrow> nat \<Rightarrow> mem" where
  "memcpy dst to src from n = (\<lambda>a. if to \<le> a \<and> a < to + n then src (from + (a - to)) else dst a)"

text \<open>\<open>memcmp(...) == 0\<close> on two ranges of \<open>n\<close> bytes.\<close>

definition mem_eq :: "mem \<Rightarrow> nat \<Rightarrow> mem \<Rightarrow> nat \<Rightarrow> nat \<Rightarrow> bool" where
  "mem_eq m1 o1 m2 o2 n \<longleftrightarrow> list_all (\<lambda>i. m1 (o1 + i) = m2 (o2 + i)) [0..<n]"

text \<open>
  The non-temporal store \<open>nts_memcpy_64bytes_v2\<close>: it panics on fewer than 64 bytes
  and when bit 6 of the source or of the destination address is set (the test is
  \<open>& 64UL\<close>); the loop moves 64 bytes per round, and after it the function panics
  when the size is no multiple of 64. \<open>nt_loop\<close> is the loop: the result is the
  final value of \<open>i\<close> and the destination region.
\<close>

function nt_loop :: "mem \<Rightarrow> nat \<Rightarrow> mem \<Rightarrow> nat \<Rightarrow> nat \<Rightarrow> nat \<Rightarrow> nat \<times> mem" where
  "nt_loop dst to src from i sz =
     (if i < sz then nt_loop (memcpy dst to src from 64) (to + 64) src (from + 64) (i + 64) sz
      else (i, dst))"
  by pat_completeness auto
termination
  by (relation "measure (\<lambda>(dst, to, src, from, i, sz). sz - i)") auto

declare nt_loop.simps [simp del]

definition nts_memcpy_64bytes_v2 :: "mem \<Rightarrow> nat \<Rightarrow> mem \<Rightarrow> nat \<Rightarrow> nat \<Rightarrow> error + mem" where
  "nts_memcpy_64bytes_v2 dst to src from sz =
     (if sz < 64 then Inl PanicNtStoreSize
      else if from AND 64 \<noteq> 0 \<or> to AND 64 \<noteq> 0 then Inl PanicNtStoreNotAligned
      else (case nt_loop dst to src from 0 sz of
              (i, dst') \<Rightarrow> if i \<noteq> sz then Inl PanicNtStoreSize else Inr dst'))"

definition nts_memcpy :: "mem \<Rightarrow> nat \<Rightarrow> mem \<Rightarrow> nat \<Rightarrow> nat \<Rightarrow> error + mem" where
  "nts_memcpy dst to src from sz =
     (if sz < 64 then Inl PanicNtStoreSmall else nts_memcpy_64bytes_v2 dst to src from sz)"

text \<open>The non-temporal load \<open>ntl_memcpy_64bytes\<close>, with the same tests.\<close>

definition ntl_memcpy_64bytes :: "mem \<Rightarrow> nat \<Rightarrow> mem \<Rightarrow> nat \<Rightarrow> nat \<Rightarrow> error + mem" where
  "ntl_memcpy_64bytes dst to src from sz =
     (if sz < 64 then Inl PanicNtLoadSize
      else if from AND 64 \<noteq> 0 \<or> to AND 64 \<noteq> 0 then Inl PanicNtLoadNotAligned
      else (case nt_loop dst to src from 0 sz of
              (i, dst') \<Rightarrow> if i \<noteq> sz then Inl PanicNtLoadSize else Inr dst'))"

definition ntl_memcpy :: "mem \<Rightarrow> nat \<Rightarrow> mem \<Rightarrow> nat \<Rightarrow> nat \<Rightarrow> error + mem" where
  "ntl_memcpy dst to src from sz =
     (if sz < 64 then Inl PanicNtLoadSmall else ntl_memcpy_64bytes dst to src from sz)"

text \<open>
  The macros \<open>MEMCPY_TO_PMBD\<close> and \<open>MEMCPY_FROM_PMBD\<close>; the first argument is
  \<open>PMBD_USE_NTS()\<close>, respectively \<open>PMBD_USE_NTL()\<close>.
\<close>

definition MEMCPY_TO_PMBD :: "bool \<Rightarrow> mem \<Rightarrow> nat \<Rightarrow> mem \<Rightarrow> nat \<Rightarrow> nat \<Rightarrow> error + mem" where
  "MEMCPY_TO_PMBD nts dst to src from sz =
     (if nts then nts_memcpy dst to src from sz else Inr (memcpy dst to src from sz))"

definition MEMCPY_FROM_PMBD :: "bool \<Rightarrow> mem \<Rightarrow> nat \<Rightarrow> mem \<Rightarrow> nat \<Rightarrow> nat \<Rightarrow> error + mem" where
  "MEMCPY_FROM_PMBD ntl dst to src from sz =
     (if ntl then ntl_memcpy dst to src from sz else Inr (memcpy dst to src from sz))"

text \<open>
  \<open>memcpy_to_pmbd_nopmap\<close>: one copy of the whole range, or, with sub-page update, a
  loop over chunks of a cache line (64 bytes) that copies a chunk only when it differs.
  A panic of the copy ends the loop.
\<close>

function memcpy_to_pmbd_nopmap ::
  "bool \<Rightarrow> bool \<Rightarrow> mem \<Rightarrow> nat \<Rightarrow> mem \<Rightarrow> nat \<Rightarrow> nat \<Rightarrow> error + mem" where
  "memcpy_to_pmbd_nopmap nts sub dst to src from left =
     (if left = 0 then Inr dst
      else
        (let sz = (if sub then min left 64 else left) in
         case (if sub then
                 (if \<not> mem_eq dst to src from sz then MEMCPY_TO_PMBD nts dst to src from sz
                  else Inr dst)
               else MEMCPY_TO_PMBD nts dst to src from sz) of
           Inl e \<Rightarrow> Inl e
         | Inr dst' \<Rightarrow> memcpy_to_pmbd_nopmap nts sub dst' (to + sz) src (from + sz) (left - sz)))"
  by pat_completeness auto
termination
  by (relation "measure (\<lambda>(nts, sub, dst, to, src, from, left). left)") (auto simp: min_def)

declare memcpy_to_pmbd_nopmap.simps [simp del]

definition memcpy_to_pmbd :: "pmbd_device \<Rightarrow> nat \<Rightarrow> mem \<Rightarrow> nat \<Rightarrow> nat \<Rightarrow> error + pmbd_device" where
  "memcpy_to_pmbd d to src from bytes =
     (case memcpy_to_pmbd_nopmap (use_nts d) (g_pmbd_subpage_update d) (mem_space d) to src from bytes of
        Inl e \<Rightarrow> Inl e
      | Inr m \<Rightarrow> Inr (d\<lparr>mem_space := m\<rparr>))"

text \<open>
  \<open>memcpy_from_pmbd\<close> into a region \<open>dst\<close>: the region after the copy, or the panic
  of the non-temporal load.
\<close>

definition memcpy_from_pmbd :: "pmbd_device \<Rightarrow> mem \<Rightarrow> nat \<Rightarrow> nat \<Rightarrow> nat \<Rightarrow> error + mem" where
  "memcpy_from_pmbd d dst to from bytes = MEMCPY_FROM_PMBD (use_ntl d) dst to (mem_space d) from bytes"

text \<open>
  \<open>pmbd_verify_wr_pages\<close> panics when the PM range differs from the source;
  \<open>True\<close> means that it returns.
\<close>

definition pmbd_verify_wr_pages :: "pmbd_device \<Rightarrow> nat \<Rightarrow> mem \<Rightarrow> nat \<Rightarrow> nat \<Rightarrow> bool" where
  "pmbd_verify_wr_pages d to src from bytes \<longleftrightarrow> mem_eq (mem_space d) to src from bytes"

subsection \<open>Protected write path: request alignment and lookup\<close>

definition pmbd_buffer_aligned_request_start :: "pmbd_device \<Rightarrow> nat \<Rightarrow> nat \<Rightarrow> nat" where
  "pmbd_buffer_aligned_request_start d sector bytes =
     (let sector_s = sector;
          pbn_s = SECTOR_TO_PBN d sector_s;
          block_s = PBN_TO_SECTOR d pbn_s
      in if sector_s \<ge> block_s then sector_s - block_s else 0)"

definition pmbd_buffer_aligned_request_end :: "pmbd_device \<Rightarrow> nat \<Rightarrow> nat \<Rightarrow> nat" where
  "pmbd_buffer_aligned_request_end d sector bytes =
     (let sector_e = sector + BYTE_TO_SECTOR bytes - 1;
          pbn_e = SECTOR_TO_PBN d sector_e;
          block_e = PBN_TO_SECTOR d pbn_e
      in if sector_e \<ge> block_e then sector_e - block_e else PBN_TO_SECTOR d 1 - 1)"

text \<open>
  \<open>_pmbd_buffer_lookup\<close> returns a pointer to the BBI or \<open>NULL\<close>: here the index of
  the BBI in the buffer, or \<open>None\<close>.
\<close>

definition pmbd_buffer_lookup :: "pmbd_device \<Rightarrow> nat \<Rightarrow> nat \<Rightarrow> nat option" where
  "pmbd_buffer_lookup d k p = (if PMBD_BLOCK_IS_BUFFERED d p then Some (pbi_space d p) else None)"

subsection \<open>Protected write path: the flush engine\<close>

text \<open>
  \<open>_pmbd_buffer_flush_range\<close>, first loop: copy each dirty block of the run from its
  slot into PM and mark the slot clean (all PBI locks of the run stay held).
\<close>

fun flush_range_copy :: "nat \<Rightarrow> nat list \<Rightarrow> pmbd_device \<Rightarrow> error + pmbd_device" where
  "flush_range_copy k [] d = Inr d"
| "flush_range_copy k (p # ps) d =
     (if PMBD_BLOCK_IS_BUFFERED d p then
        (let bbn = pbi_space d p in
         if dirty (bbi_space (buffers d k) bbn) then
           (case memcpy_to_pmbd d (PMBD_BLOCK_VADDR d p) (buffer_space (buffers d k))
                   (PMBD_BUFFER_BLOCK d bbn) (pb_size d) of
              Inl e \<Rightarrow> Inl e
            | Inr d' \<Rightarrow> flush_range_copy k ps (PMBD_BUFFER_SET_BBI_CLEAN k bbn d'))
         else flush_range_copy k ps d)
      else Inl PanicNotBuffered)"

text \<open>Second loop: verify, clear the two links, release the PBI lock.\<close>

fun flush_range_unlink :: "nat \<Rightarrow> nat list \<Rightarrow> pmbd_device \<Rightarrow> error + pmbd_device" where
  "flush_range_unlink k [] d = Inr d"
| "flush_range_unlink k (p # ps) d =
     (let bbn = pbi_space d p in
      if g_pmbd_wr_verify d \<and>
         \<not> pmbd_verify_wr_pages d (PMBD_BLOCK_VADDR d p) (buffer_space (buffers d k))
             (PMBD_BUFFER_BLOCK d bbn) (pb_size d)
      then Inl PanicVerifyFailed
      else flush_range_unlink k ps
             (PMBD_SET_BLOCK_UNBUFFERED p (PMBD_BUFFER_SET_BBI_UNBUFFERED k bbn d)))"

definition pmbd_buffer_flush_range ::
  "pmbd_device \<Rightarrow> nat \<Rightarrow> nat \<Rightarrow> nat \<Rightarrow> error + (nat \<times> pmbd_device)" where
  "pmbd_buffer_flush_range d k pbn_s pbn_e =
     (case flush_range_copy k [pbn_s..<Suc pbn_e] d of
        Inl e \<Rightarrow> Inl e
      | Inr d1 \<Rightarrow>
          (case flush_range_unlink k [pbn_s..<Suc pbn_e] d1 of
             Inl e \<Rightarrow> Inl e
           | Inr d2 \<Rightarrow> Inr (length [pbn_s..<Suc pbn_e], d2)))"

text \<open>
  The scan of the dirty window in \<open>pmbd_buffer_flush\<close>, under \<open>buffer_lock\<close>:
  \<open>i\<close> is the loop variable and \<open>entries\<close> the filled part of the sort buffer, so
  \<open>num_scanned\<close> is its length. A clean slot panics.
\<close>

function flush_scan ::
  "pmbd_buffer \<Rightarrow> nat \<Rightarrow> nat \<Rightarrow> nat \<Rightarrow> pmbd_bsort_entry list \<Rightarrow> error + pmbd_bsort_entry list" where
  "flush_scan b bbn_e num_to_clean i entries =
     (if i \<noteq> PMBD_BUFFER_NEXT_POS b bbn_e \<or> length entries = 0 then
        (if \<not> dirty (bbi_space b i) then Inl PanicCleanInDirtyRange
         else
           (let entries' = entries @ [\<lparr>se_bbn = i, se_pbn = pbn (bbi_space b i)\<rparr>] in
            if length entries' \<ge> num_to_clean then Inr entries'
            else flush_scan b bbn_e num_to_clean (PMBD_BUFFER_NEXT_POS b i) entries'))
      else Inr entries)"
  by pat_completeness auto
termination
  by (relation "measure (\<lambda>(b, bbn_e, num_to_clean, i, entries). num_to_clean - length entries)") auto

declare flush_scan.simps [simp del]

text \<open>
  The walk over the (sorted) entries that forms runs of consecutive PBNs and flushes
  each run. The PBN of an entry is read from the BBI of its slot in the current state.
\<close>

fun flush_runs ::
  "pmbd_device \<Rightarrow> nat \<Rightarrow> nat \<Rightarrow> nat \<Rightarrow> pmbd_bsort_entry list \<Rightarrow> nat \<Rightarrow> error + (nat \<times> pmbd_device)" where
  "flush_runs d k first_pbn last_pbn [] num_cleaned =
     (case pmbd_buffer_flush_range d k first_pbn last_pbn of
        Inl e \<Rightarrow> Inl e
      | Inr (n, d') \<Rightarrow> Inr (num_cleaned + n, d'))"
| "flush_runs d k first_pbn last_pbn (se # ses) num_cleaned =
     (let p = pbn (bbi_space (buffers d k) (se_bbn se)) in
      if p = last_pbn + 1 then flush_runs d k first_pbn p ses num_cleaned
      else
        (case pmbd_buffer_flush_range d k first_pbn last_pbn of
           Inl e \<Rightarrow> Inl e
         | Inr (n, d') \<Rightarrow> flush_runs d' k p p ses (num_cleaned + n)))"

text \<open>
  \<open>pmbd_buffer_flush\<close>. The kernel's \<open>sort\<close> (a heap sort) with
  \<open>compare_bbi_sort_entries\<close> orders the entries by PBN; it is modelled by
  \<open>sort_key\<close>, which yields the same list whenever the PBNs are distinct.
\<close>

definition pmbd_buffer_flush :: "pmbd_device \<Rightarrow> nat \<Rightarrow> nat \<Rightarrow> error + (nat \<times> pmbd_device)" where
  "pmbd_buffer_flush d k num_to_clean0 =
     (let b = buffers d k;
          num_to_clean = (if num_to_clean0 > num_dirty b then num_dirty b else num_to_clean0)
      in if PMBD_BUFFER_IS_EMPTY b \<or> num_to_clean = 0 then Inr (0, d)
         else
           (let bbn_s = pos_dirty b;
                bbn_e = PMBD_BUFFER_PRIO_POS b (pos_clean b)
            in case flush_scan b bbn_e num_to_clean bbn_s [] of
                 Inl e \<Rightarrow> Inl e
               | Inr entries \<Rightarrow>
                   if length entries = 0 then Inr (0, d)
                   else
                     (let sorted = (if PMBD_DEV_USE_WPMODE_PTE d then sort_key se_pbn entries
                                    else entries);
                          p0 = pbn (bbi_space b (se_bbn (hd sorted)))
                      in case flush_runs d k p0 p0 (tl sorted) 0 of
                           Inl e \<Rightarrow> Inl e
                         | Inr (num_cleaned, d') \<Rightarrow>
                             Inr (num_cleaned,
                                  upd_buffer k
                                    (\<lambda>b'. b'\<lparr>pos_dirty := PMBD_BUFFER_NEXT_N_POS b' bbn_s num_cleaned,
                                              num_dirty := num_dirty b' - num_cleaned\<rparr>) d'))))"

definition pmbd_buffer_check_and_flush ::
  "pmbd_device \<Rightarrow> nat \<Rightarrow> nat \<Rightarrow> caller \<Rightarrow> error + (nat \<times> pmbd_device)" where
  "pmbd_buffer_check_and_flush d k num_to_clean c =
     (case c of
        CALLER_DESTROYER \<Rightarrow> pmbd_buffer_flush d k num_to_clean
      | CALLER_SYNCER \<Rightarrow>
          if PMBD_BUFFER_IS_EMPTY (buffers d k) then Inr (0, d)
          else pmbd_buffer_flush d k num_to_clean
      | CALLER_ALLOCATOR \<Rightarrow>
          if \<not> PMBD_BUFFER_IS_FULL (buffers d k) then Inr (0, d)
          else pmbd_buffer_flush d k num_to_clean)"

subsection \<open>Protected write path: the allocator\<close>

text \<open>
  \<open>pmbd_buffer_alloc_block\<close>. The \<open>check_again\<close> loop flushes a batch while the
  buffer is full; it has no bound in the code, so the model is a partial function:
  \<open>None\<close> means that the loop never ends. The result is the index of the reserved
  slot.
\<close>

definition alloc_reserve :: "pmbd_device \<Rightarrow> nat \<Rightarrow> nat \<Rightarrow> nat \<times> pmbd_device" where
  "alloc_reserve d k p =
     (let pos = pos_clean (buffers d k);
          d1 = upd_buffer k (\<lambda>b. b\<lparr>pos_clean := PMBD_BUFFER_NEXT_POS b (pos_clean b),
                                    num_dirty := num_dirty b + 1\<rparr>) d;
          d2 = PMBD_BUFFER_SET_BBI_DIRTY k pos d1;
          d3 = PMBD_BUFFER_SET_BBI_BUFFERED k pos p d2;
          d4 = PMBD_SET_BLOCK_BUFFERED p pos d3
      in (pos, d4))"

partial_function (option) pmbd_buffer_alloc_block ::
  "pmbd_device \<Rightarrow> nat \<Rightarrow> nat \<Rightarrow> (error + (nat \<times> pmbd_device)) option" where
  "pmbd_buffer_alloc_block d k p =
     (if PMBD_BUFFER_IS_FULL (buffers d k) then
        (case pmbd_buffer_check_and_flush d k (batch_size (buffers d k)) CALLER_ALLOCATOR of
           Inl e \<Rightarrow> Some (Inl e)
         | Inr r \<Rightarrow> pmbd_buffer_alloc_block (snd r) k p)
      else Some (Inr (alloc_reserve d k p)))"

declare pmbd_buffer_alloc_block.simps [code]

subsection \<open>Protected write path: buffered and unbuffered reads and writes\<close>

text \<open>
  One iteration of the loop of \<open>copy_to_pmbd_buffered\<close>, for block \<open>p\<close>, with the
  PBI lock of \<open>p\<close> held: \<open>src\<close> and \<open>from\<close> are the requester's page and the
  current offset in it. The result is the device after the iteration.
\<close>

definition copy_to_block ::
  "pmbd_device \<Rightarrow> mem \<Rightarrow> nat \<Rightarrow> nat \<Rightarrow> nat \<Rightarrow> nat \<Rightarrow> (error + pmbd_device) option" where
  "copy_to_block d src from p sect_s sz =
     (let k = PBN_TO_PMBD_BUFFER_ID d p in
      case pmbd_buffer_lookup d k p of
        Some bbn \<Rightarrow>
          (let to = PMBD_BUFFER_BLOCK d (pbi_space d p) + SECTOR_TO_BYTE sect_s;
               d1 = upd_buffer k (\<lambda>b. b\<lparr>buffer_space := memcpy (buffer_space b) to src from sz\<rparr>) d
           in Some (Inr (PMBD_BUFFER_SET_BBI_DIRTY k (pbi_space d1 p) d1)))
      | None \<Rightarrow>
          (case pmbd_buffer_alloc_block d k p of
             None \<Rightarrow> None
           | Some (Inl e) \<Rightarrow> Some (Inl e)
           | Some (Inr (bbn, d0)) \<Rightarrow>
               (case (if sz < pb_size d0 then
                        memcpy_from_pmbd d0 (buffer_space (buffers d0 k))
                          (PMBD_BUFFER_BLOCK d0 (pbi_space d0 p)) (PMBD_BLOCK_VADDR d0 p) (pb_size d0)
                      else Inr (buffer_space (buffers d0 k))) of
                  Inl e \<Rightarrow> Some (Inl e)
                | Inr ring \<Rightarrow>
                    (let d1 = upd_buffer k (\<lambda>b. b\<lparr>buffer_space := ring\<rparr>) d0;
                         to = PMBD_BUFFER_BLOCK d1 (pbi_space d1 p) + SECTOR_TO_BYTE sect_s;
                         d2 = upd_buffer k (\<lambda>b. b\<lparr>buffer_space := memcpy (buffer_space b) to src from sz\<rparr>) d1
                     in Some (Inr (PMBD_BUFFER_SET_BBI_DIRTY k (pbi_space d2 p) d2))))))"

fun copy_to_blocks ::
  "pmbd_device \<Rightarrow> mem \<Rightarrow> nat \<Rightarrow> nat \<Rightarrow> nat \<Rightarrow> nat \<Rightarrow> nat \<Rightarrow> nat list \<Rightarrow> (error + pmbd_device) option" where
  "copy_to_blocks d src from pbn_s pbn_e offset_s offset_e [] = Some (Inr d)"
| "copy_to_blocks d src from pbn_s pbn_e offset_s offset_e (p # ps) =
     (let sect_s = (if p = pbn_s then offset_s else 0);
          sect_e = (if p = pbn_e then offset_e else PBN_TO_SECTOR d 1 - 1);
          sz = SECTOR_TO_BYTE (sect_e - sect_s + 1)
      in case copy_to_block d src from p sect_s sz of
           None \<Rightarrow> None
         | Some (Inl e) \<Rightarrow> Some (Inl e)
         | Some (Inr d') \<Rightarrow> copy_to_blocks d' src (from + sz) pbn_s pbn_e offset_s offset_e ps)"

text \<open>
  \<open>copy_to_pmbd_buffered\<close>: the pointer \<open>src\<close> of the code is the requester's page
  \<open>src\<close> and the offset \<open>from\<close> in it.
\<close>

definition copy_to_pmbd_buffered ::
  "pmbd_device \<Rightarrow> mem \<Rightarrow> nat \<Rightarrow> nat \<Rightarrow> nat \<Rightarrow> (error + pmbd_device) option" where
  "copy_to_pmbd_buffered d src from sector bytes =
     (let pbn_s = SECTOR_TO_PBN d sector;
          pbn_e = BYTE_TO_PBN d (SECTOR_TO_BYTE sector + bytes - 1);
          offset_s = pmbd_buffer_aligned_request_start d sector bytes;
          offset_e = pmbd_buffer_aligned_request_end d sector bytes
      in copy_to_blocks d src from pbn_s pbn_e offset_s offset_e [pbn_s..<Suc pbn_e])"

text \<open>
  \<open>copy_from_pmbd_buffered\<close>: \<open>dst\<close> is the requester's page and \<open>to\<close> the current
  offset in it; the result is the page after the copy, or the panic of a non-temporal
  load. The device is not changed.
\<close>

definition copy_from_block ::
  "pmbd_device \<Rightarrow> mem \<Rightarrow> nat \<Rightarrow> nat \<Rightarrow> nat \<Rightarrow> nat \<Rightarrow> error + mem" where
  "copy_from_block d dst to p sect_s sz =
     (let k = PBN_TO_PMBD_BUFFER_ID d p in
      case pmbd_buffer_lookup d k p of
        Some bbn \<Rightarrow>
          Inr (memcpy dst to (buffer_space (buffers d k))
                 (PMBD_BUFFER_BLOCK d (pbi_space d p) + SECTOR_TO_BYTE sect_s) sz)
      | None \<Rightarrow>
          memcpy_from_pmbd d dst to (PMBD_BLOCK_VADDR d p + SECTOR_TO_BYTE sect_s) sz)"

fun copy_from_blocks ::
  "pmbd_device \<Rightarrow> mem \<Rightarrow> nat \<Rightarrow> nat \<Rightarrow> nat \<Rightarrow> nat \<Rightarrow> nat \<Rightarrow> nat list \<Rightarrow> error + mem" where
  "copy_from_blocks d dst to pbn_s pbn_e offset_s offset_e [] = Inr dst"
| "copy_from_blocks d dst to pbn_s pbn_e offset_s offset_e (p # ps) =
     (let sect_s = (if p = pbn_s then offset_s else 0);
          sect_e = (if p = pbn_e then offset_e else PBN_TO_SECTOR d 1 - 1);
          sz = SECTOR_TO_BYTE (sect_e - sect_s + 1)
      in case copy_from_block d dst to p sect_s sz of
           Inl e \<Rightarrow> Inl e
         | Inr dst' \<Rightarrow> copy_from_blocks d dst' (to + sz) pbn_s pbn_e offset_s offset_e ps)"

definition copy_from_pmbd_buffered ::
  "pmbd_device \<Rightarrow> mem \<Rightarrow> nat \<Rightarrow> nat \<Rightarrow> nat \<Rightarrow> error + mem" where
  "copy_from_pmbd_buffered d dst to sector bytes =
     (let pbn_s = SECTOR_TO_PBN d sector;
          pbn_e = BYTE_TO_PBN d (SECTOR_TO_BYTE sector + bytes - 1);
          offset_s = pmbd_buffer_aligned_request_start d sector bytes;
          offset_e = pmbd_buffer_aligned_request_end d sector bytes
      in copy_from_blocks d dst to pbn_s pbn_e offset_s offset_e [pbn_s..<Suc pbn_e])"

definition copy_to_pmbd_unbuffered ::
  "pmbd_device \<Rightarrow> mem \<Rightarrow> nat \<Rightarrow> nat \<Rightarrow> nat \<Rightarrow> bool \<Rightarrow> error + pmbd_device" where
  "copy_to_pmbd_unbuffered d src from sector bytes do_fua =
     (let dst = sector * sector_size d in
      case memcpy_to_pmbd d dst src from bytes of
        Inl e \<Rightarrow> Inl e
      | Inr d' \<Rightarrow>
          if g_pmbd_wr_verify d' \<and> \<not> pmbd_verify_wr_pages d' dst src from bytes
          then Inl PanicVerifyFailed else Inr d')"

definition copy_from_pmbd_unbuffered ::
  "pmbd_device \<Rightarrow> mem \<Rightarrow> nat \<Rightarrow> nat \<Rightarrow> nat \<Rightarrow> error + mem" where
  "copy_from_pmbd_unbuffered d dst to sector bytes =
     memcpy_from_pmbd d dst to (sector * sector_size d) bytes"

definition copy_to_pmbd ::
  "pmbd_device \<Rightarrow> mem \<Rightarrow> nat \<Rightarrow> nat \<Rightarrow> nat \<Rightarrow> bool \<Rightarrow> (error + pmbd_device) option" where
  "copy_to_pmbd d src from sector bytes do_fua =
     (if bufmode d then
        (case copy_to_pmbd_buffered d src from sector bytes of
           None \<Rightarrow> None
         | Some (Inl e) \<Rightarrow> Some (Inl e)
         | Some (Inr d') \<Rightarrow>
             if do_fua then Some (copy_to_pmbd_unbuffered d' src from sector bytes do_fua)
             else Some (Inr d'))
      else Some (copy_to_pmbd_unbuffered d src from sector bytes do_fua))"

definition copy_from_pmbd :: "pmbd_device \<Rightarrow> mem \<Rightarrow> nat \<Rightarrow> nat \<Rightarrow> nat \<Rightarrow> error + mem" where
  "copy_from_pmbd d dst to sector bytes =
     (if bufmode d then copy_from_pmbd_buffered d dst to sector bytes
      else copy_from_pmbd_unbuffered d dst to sector bytes)"

subsection \<open>Protected write path: the barrier and device creation\<close>

text \<open>
  \<open>pmbd_write_barrier\<close> on the storage state, after the spin loop on the in-flight
  counter: every buffer is flushed with a budget of its whole ring.
\<close>

fun flush_all_buffers :: "pmbd_device \<Rightarrow> nat list \<Rightarrow> error + pmbd_device" where
  "flush_all_buffers d [] = Inr d"
| "flush_all_buffers d (i # is) =
     (case pmbd_buffer_check_and_flush d i (num_blocks (buffers d i)) CALLER_DESTROYER of
        Inl e \<Rightarrow> Inl e
      | Inr (n, d') \<Rightarrow> flush_all_buffers d' is)"

definition pmbd_write_barrier :: "pmbd_device \<Rightarrow> error + pmbd_device" where
  "pmbd_write_barrier d =
     (if bufmode d then flush_all_buffers d [0..<num_buffers d] else Inr d)"

text \<open>
  The options of the module that fix the geometry of device \<open>i\<close>
  (\<open>g_pmbd_size[i]\<close> in GiB, \<open>g_pmbd_bufsize[i]\<close> in MiB, \<open>g_pmbd_num_buffers\<close>,
  \<open>g_pmbd_buffer_stride\<close>, \<open>g_pmbd_buffer_batch_size[i]\<close>, \<open>g_pmbd_wpmode[i]\<close>,
  and the options of the copies),
  and the state that \<open>pmbd_alloc\<close>, \<open>pmbd_create\<close>, \<open>pmbd_buffer_create\<close> and
  \<open>pmbd_pbi_space_alloc\<close> build from them. The contents of the PM window and of the
  slot rings at creation are arbitrary: \<open>pm0\<close> and \<open>ring0 k\<close> for buffer \<open>k\<close>.
\<close>

record pmbd_conf =
  g_pmbd_size :: nat
  g_pmbd_bufsize :: nat
  g_pmbd_num_buffers :: nat
  g_pmbd_buffer_stride :: nat
  g_pmbd_buffer_batch_size :: nat
  g_pmbd_wpmode :: nat
  g_wr_verify :: bool
  g_subpage_update :: bool
  g_nts :: bool
  g_ntl :: bool

definition PMBD_BUFFER_MIN_BUFSIZE :: nat where
  "PMBD_BUFFER_MIN_BUFSIZE = 4"

definition MB_TO_BYTES :: "nat \<Rightarrow> nat" where
  "MB_TO_BYTES n = n * 2 ^ 20"

definition GB_TO_SECTORS :: "nat \<Rightarrow> nat" where
  "GB_TO_SECTORS n = n * 2 ^ 21"

definition pmbd_buffer_create :: "pmbd_conf \<Rightarrow> nat \<Rightarrow> mem \<Rightarrow> pmbd_buffer" where
  "pmbd_buffer_create c total_pb ring0 =
     \<lparr>num_blocks = (if g_pmbd_bufsize c > PMBD_BUFFER_MIN_BUFSIZE
                     then MB_TO_BYTES (g_pmbd_bufsize c) div 4096
                     else MB_TO_BYTES PMBD_BUFFER_MIN_BUFSIZE div 4096),
      buffer_space = ring0,
      bbi_space = (\<lambda>i. \<lparr>pbn = total_pb + 2, dirty = False\<rparr>),
      num_dirty = 0, pos_dirty = 0, pos_clean = 0,
      batch_size = g_pmbd_buffer_batch_size c\<rparr>"

definition pmbd_create :: "pmbd_conf \<Rightarrow> mem \<Rightarrow> (nat \<Rightarrow> mem) \<Rightarrow> pmbd_device" where
  "pmbd_create c pm0 ring0 =
     (let sectors = GB_TO_SECTORS (g_pmbd_size c);
          total_pb = sectors * 512 div 4096
      in \<lparr>mem_space = pm0, num_sectors = sectors, sector_size = 512, pb_size = 4096,
          bufmode = (g_pmbd_bufsize c > 0 \<and> g_pmbd_num_buffers c > 0),
          wpmode = g_pmbd_wpmode c,
          buffers = (\<lambda>k. pmbd_buffer_create c total_pb (ring0 k)),
          num_buffers = g_pmbd_num_buffers c,
          buffer_stride = g_pmbd_buffer_stride c,
          pbi_space = (\<lambda>p. total_pb + 3),
          g_pmbd_wr_verify = g_wr_verify c,
          g_pmbd_subpage_update = g_subpage_update c,
          use_nts = g_nts c, use_ntl = g_ntl c\<rparr>)"

subsection \<open>Protected write path: well-formed states and the logical contents\<close>

text \<open>
  The dirty segment of a buffer: the \<open>num_dirty\<close> slots of the ring from
  \<open>pos_dirty\<close> on. It ends before \<open>pos_clean\<close>; when the buffer is full
  \<open>pos_dirty = pos_clean\<close> and the segment is the whole ring.
\<close>

definition in_dirty_segment :: "pmbd_buffer \<Rightarrow> nat \<Rightarrow> bool" where
  "in_dirty_segment b j \<longleftrightarrow> (\<exists>i<num_dirty b. j = (pos_dirty b + i) mod num_blocks b)"

text \<open>
  The invariant of a buffer of the device. The slot ring is not larger than the
  number of physical blocks plus 3, so that the sentinel \<open>PMBD_TOTAL_PB_NUM + 3\<close> is
  not an index of the ring; every slot of the dirty segment is dirty and is linked
  with a block that the buffer owns and whose PBI points back to the slot; every other
  slot of the ring names no block.
\<close>

definition buffer_wf :: "pmbd_device \<Rightarrow> nat \<Rightarrow> bool" where
  "buffer_wf d k \<longleftrightarrow>
     (let b = buffers d k in
      0 < num_blocks b \<and> num_blocks b \<le> PMBD_TOTAL_PB_NUM d + 3 \<and> 0 < batch_size b \<and>
      num_dirty b \<le> num_blocks b \<and> pos_dirty b < num_blocks b \<and>
      pos_clean b = (pos_dirty b + num_dirty b) mod num_blocks b \<and>
      (\<forall>j. in_dirty_segment b j \<longrightarrow>
         dirty (bbi_space b j) \<and> pbn (bbi_space b j) < PMBD_TOTAL_PB_NUM d \<and>
         PBN_TO_PMBD_BUFFER_ID d (pbn (bbi_space b j)) = k \<and>
         pbi_space d (pbn (bbi_space b j)) = j) \<and>
      (\<forall>j<num_blocks b. \<not> in_dirty_segment b j \<longrightarrow>
         pbn (bbi_space b j) = PMBD_TOTAL_PB_NUM d + 2))"

text \<open>
  The invariant of a buffered device: the geometry that \<open>pmbd_create\<close> sets up, the
  invariant of each buffer, and for every block whose PBI holds an index of the ring of
  its buffer, that slot lies in the dirty segment and is linked back to the block.
\<close>

definition dev_wf :: "pmbd_device \<Rightarrow> bool" where
  "dev_wf d \<longleftrightarrow>
     pb_size d = 4096 \<and> sector_size d = 512 \<and> 8 dvd num_sectors d \<and>
     0 < buffer_stride d \<and> 0 < num_buffers d \<and>
     (\<forall>k<num_buffers d. buffer_wf d k) \<and>
     (\<forall>p<PMBD_TOTAL_PB_NUM d. PMBD_BLOCK_IS_BUFFERED d p \<longrightarrow>
        in_dirty_segment (buffers d (PBN_TO_PMBD_BUFFER_ID d p)) (pbi_space d p) \<and>
        pbn (bbi_space (buffers d (PBN_TO_PMBD_BUFFER_ID d p)) (pbi_space d p)) = p)"

text \<open>
  The byte that a read of a buffered device finds at byte offset \<open>a\<close> of the device:
  the byte of the slot when the block is buffered, the byte of the PM window otherwise.
\<close>

definition view_byte :: "pmbd_device \<Rightarrow> nat \<Rightarrow> byte" where
  "view_byte d a =
     (let p = a div pb_size d in
      if PMBD_BLOCK_IS_BUFFERED d p then
        buffer_space (buffers d (PBN_TO_PMBD_BUFFER_ID d p)) (pb_size d * pbi_space d p + a mod pb_size d)
      else mem_space d a)"

text \<open>
  The state after the blocks of a set \<open>S\<close>, all buffered in buffer \<open>k\<close> and dirty,
  have been flushed: their slots copied into the PM window, the slots clean and both
  links cleared.
\<close>

definition flush_spec :: "nat \<Rightarrow> nat set \<Rightarrow> pmbd_device \<Rightarrow> pmbd_device" where
  "flush_spec k S d =
     d\<lparr>mem_space := (\<lambda>a. if a div pb_size d \<in> S
                          then buffer_space (buffers d k)
                                 (pb_size d * pbi_space d (a div pb_size d) + a mod pb_size d)
                          else mem_space d a),
       pbi_space := (\<lambda>q. if q \<in> S then PMBD_TOTAL_PB_NUM d + 3 else pbi_space d q),
       buffers := (buffers d)(k := (buffers d k)\<lparr>bbi_space :=
          (\<lambda>j. if j \<in> pbi_space d ` S then \<lparr>pbn = PMBD_TOTAL_PB_NUM d + 2, dirty = False\<rparr>
                else bbi_space (buffers d k) j)\<rparr>)\<rparr>"

text \<open>The state between the two loops of \<open>_pmbd_buffer_flush_range\<close>.\<close>

definition copy_spec :: "nat \<Rightarrow> nat set \<Rightarrow> pmbd_device \<Rightarrow> pmbd_device" where
  "copy_spec k S d =
     d\<lparr>mem_space := (\<lambda>a. if a div pb_size d \<in> S
                          then buffer_space (buffers d k)
                                 (pb_size d * pbi_space d (a div pb_size d) + a mod pb_size d)
                          else mem_space d a),
       buffers := (buffers d)(k := (buffers d k)\<lparr>bbi_space :=
          (\<lambda>j. if j \<in> pbi_space d ` S then (bbi_space (buffers d k) j)\<lparr>dirty := False\<rparr>
                else bbi_space (buffers d k) j)\<rparr>)\<rparr>"

text \<open>What the flush of a set of blocks of buffer \<open>k\<close> requires of them.\<close>

definition flushable :: "pmbd_device \<Rightarrow> nat \<Rightarrow> nat set \<Rightarrow> bool" where
  "flushable d k S \<longleftrightarrow>
     (\<forall>p \<in> S. PMBD_BLOCK_IS_BUFFERED d p \<and> dirty (bbi_space (buffers d k) (pbi_space d p)) \<and>
        pbn (bbi_space (buffers d k) (pbi_space d p)) = p)"

text \<open>The effect of the second loop of \<open>_pmbd_buffer_flush_range\<close> on a set of blocks.\<close>

definition unlink_spec :: "nat \<Rightarrow> nat set \<Rightarrow> pmbd_device \<Rightarrow> pmbd_device" where
  "unlink_spec k S d =
     d\<lparr>pbi_space := (\<lambda>q. if q \<in> S then PMBD_TOTAL_PB_NUM d + 3 else pbi_space d q),
       buffers := (buffers d)(k := (buffers d k)\<lparr>bbi_space :=
          (\<lambda>j. if j \<in> pbi_space d ` S then (bbi_space (buffers d k) j)\<lparr>pbn := PMBD_TOTAL_PB_NUM d + 2\<rparr>
                else bbi_space (buffers d k) j)\<rparr>)\<rparr>"

text \<open>
  The first \<open>m\<close> slots of the dirty segment as the scan of \<open>pmbd_buffer_flush\<close>
  records them, the blocks they hold, and the state that a flush of these \<open>m\<close>
  blocks leaves: the blocks flushed, \<open>pos_dirty\<close> and \<open>num_dirty\<close> moved by \<open>m\<close>.
\<close>

definition window_slot :: "pmbd_buffer \<Rightarrow> nat \<Rightarrow> nat" where
  "window_slot b i = (pos_dirty b + i) mod num_blocks b"

definition window_entry :: "pmbd_buffer \<Rightarrow> nat \<Rightarrow> pmbd_bsort_entry" where
  "window_entry b i = \<lparr>se_bbn = window_slot b i, se_pbn = pbn (bbi_space b (window_slot b i))\<rparr>"

definition dirty_window :: "pmbd_buffer \<Rightarrow> nat \<Rightarrow> nat set" where
  "dirty_window b m = (\<lambda>i. pbn (bbi_space b (window_slot b i))) ` {..<m}"

definition flush_result :: "pmbd_device \<Rightarrow> nat \<Rightarrow> nat \<Rightarrow> pmbd_device" where
  "flush_result d k m =
     upd_buffer k (\<lambda>b. b\<lparr>pos_dirty := PMBD_BUFFER_NEXT_N_POS b (pos_dirty (buffers d k)) m,
                             num_dirty := num_dirty b - m\<rparr>)
       (flush_spec k (dirty_window (buffers d k) m) d)"

text \<open>The device with the slot ring of buffer \<open>k\<close> replaced by \<open>ring\<close>.\<close>

definition set_space :: "nat \<Rightarrow> mem \<Rightarrow> pmbd_device \<Rightarrow> pmbd_device" where
  "set_space k ring d = d\<lparr>buffers := (buffers d)(k := (buffers d k)\<lparr>buffer_space := ring\<rparr>)\<rparr>"

text \<open>Two states of one device: the geometry and the options are the same.\<close>

definition same_geometry :: "pmbd_device \<Rightarrow> pmbd_device \<Rightarrow> bool" where
  "same_geometry d d' \<longleftrightarrow>
     num_sectors d' = num_sectors d \<and> sector_size d' = sector_size d \<and> pb_size d' = pb_size d \<and>
     bufmode d' = bufmode d \<and> wpmode d' = wpmode d \<and> num_buffers d' = num_buffers d \<and>
     buffer_stride d' = buffer_stride d \<and> g_pmbd_wr_verify d' = g_pmbd_wr_verify d \<and>
     g_pmbd_subpage_update d' = g_pmbd_subpage_update d \<and>
     use_nts d' = use_nts d \<and> use_ntl d' = use_ntl d \<and>
     (\<forall>k. num_blocks (buffers d' k) = num_blocks (buffers d k) \<and>
          batch_size (buffers d' k) = batch_size (buffers d k))"

text \<open>
  The panics of the non-temporal store and of the non-temporal load; the panics that a
  device can raise in a copy, given its options; and the outcome of a call that returns
  \<open>s\<close> unless it panics with an error that satisfies \<open>P\<close>.
\<close>

definition nt_store_panic :: "error \<Rightarrow> bool" where
  "nt_store_panic e \<longleftrightarrow> e = PanicNtStoreSmall \<or> e = PanicNtStoreSize \<or> e = PanicNtStoreNotAligned"

definition nt_load_panic :: "error \<Rightarrow> bool" where
  "nt_load_panic e \<longleftrightarrow> e = PanicNtLoadSmall \<or> e = PanicNtLoadSize \<or> e = PanicNtLoadNotAligned"

definition store_fail :: "pmbd_device \<Rightarrow> error \<Rightarrow> bool" where
  "store_fail d e \<longleftrightarrow> use_nts d \<and> nt_store_panic e"

definition load_fail :: "pmbd_device \<Rightarrow> error \<Rightarrow> bool" where
  "load_fail d e \<longleftrightarrow> use_ntl d \<and> nt_load_panic e"

definition nt_fail :: "pmbd_device \<Rightarrow> error \<Rightarrow> bool" where
  "nt_fail d e \<longleftrightarrow> store_fail d e \<or> load_fail d e"

definition ok_or :: "(error \<Rightarrow> bool) \<Rightarrow> error + 'a \<Rightarrow> 'a \<Rightarrow> bool" where
  "ok_or P X s \<longleftrightarrow> X = Inr s \<or> (\<exists>e. X = Inl e \<and> P e)"

text \<open>
  The options that \<open>pmbd_create\<close> turns into a well-formed buffered device: buffering
  is on, the stride and the batch are positive, and a ring has at most
  \<open>PMBD_TOTAL_PB_NUM + 3\<close> slots, so that the value that marks a block as not buffered
  is no index of the ring.
\<close>

definition conf_ok :: "pmbd_conf \<Rightarrow> bool" where
  "conf_ok c \<longleftrightarrow>
     (let d = pmbd_create c (\<lambda>a. 0) (\<lambda>k a. 0) in
      bufmode d \<and> 0 < buffer_stride d \<and> 0 < batch_size (buffers d 0) \<and>
      num_blocks (buffers d 0) \<le> PMBD_TOTAL_PB_NUM d + 3)"

text \<open>
  A device of 1 GiB with one buffer of 16 MiB, stride and batch of 1024 blocks, in PTE
  mode and with write verification, over a PM window and a ring filled with zeros; and
  the same device after the allocator has reserved a slot for block 1.
\<close>

definition conf0 :: pmbd_conf where
  "conf0 = \<lparr>g_pmbd_size = 1, g_pmbd_bufsize = 16, g_pmbd_num_buffers = 1,
            g_pmbd_buffer_stride = 1024, g_pmbd_buffer_batch_size = 1024, g_pmbd_wpmode = 0,
            g_wr_verify = True, g_subpage_update = False, g_nts = False, g_ntl = False\<rparr>"

definition dev0 :: pmbd_device where
  "dev0 = pmbd_create conf0 (\<lambda>a. 0) (\<lambda>k a. 0)"

definition dev1 :: pmbd_device where
  "dev1 = snd (alloc_reserve dev0 0 1)"

text \<open>
  The same device with the options \<open>ntsY\<close> and \<open>subupdateY\<close> (non-temporal stores and
  sub-page update); a page whose byte 64 is 1 and whose other bytes are 0; and the state
  of the device after a write of this page to sector 8, that is to block 1: the
  allocator has reserved slot 0 for the block and the page has been copied into the slot.
\<close>

definition conf_nts :: pmbd_conf where
  "conf_nts = \<lparr>g_pmbd_size = 1, g_pmbd_bufsize = 16, g_pmbd_num_buffers = 1,
               g_pmbd_buffer_stride = 1024, g_pmbd_buffer_batch_size = 1024, g_pmbd_wpmode = 0,
               g_wr_verify = True, g_subpage_update = True, g_nts = True, g_ntl = False\<rparr>"

definition page_b64 :: mem where
  "page_b64 = (\<lambda>a. if a = 64 then 1 else 0)"

definition dev_nts :: pmbd_device where
  "dev_nts = pmbd_create conf_nts (\<lambda>a. 0) (\<lambda>k a. 0)"

definition dev_nts1 :: pmbd_device where
  "dev_nts1 = set_space 0 (memcpy (\<lambda>a. 0) 0 page_b64 0 4096) (snd (alloc_reserve dev_nts 0 1))"
section \<open>Emulation engine: theorems\<close>

lemmas emul_consts =
  PMBD_BATCH_MAX_INTERVAL_def PMBD_BATCH_MAX_DURATION_def PMBD_BATCH_MAX_SECTORS_def
  PMBD_BATCH_MIN_SECTORS_def MAX_SYNC_SLOWDOWN_def

lemma pmbd_slowdown_in_lock:
  "pmbd_slowdown ns True = (if ns > 0 then SyncDelay ns else NoDelay)"
  by (simp add: pmbd_slowdown_def)

lemma word_diff_pos: "(a::u64) < b \<Longrightarrow> 0 < b - a"
  by (simp add: word_neq_0_conv [symmetric])

lemma cal_trans_time_cong:
  "rdbw e' = rdbw e \<Longrightarrow> wrbw e' = wrbw e \<Longrightarrow> cal_trans_time n r e' = cal_trans_time n r e"
  by (simp add: cal_trans_time_def)

text \<open>
  The delay of one call, as a function of the batch the call closes: the request joins
  the open batch unless the gap since the previous request reached the maximal
  interval; the batch closes on the gap, on its duration or on its size; the throttle
  runs only when the closed batch holds more than 256 sectors.
\<close>

lemma transfer_time_delay:
  assumes "batch_start_cycle e r \<noteq> 0" and "batch_end_cycle e r \<le> now_cycle"
  shows "\<exists>e'. pmbd_emul_transfer_time khz now_cycle n r e =
     Inr ((let new_batch = (cycle_to_ns khz (now_cycle - batch_end_cycle e r) \<ge> PMBD_BATCH_MAX_INTERVAL);
               sectors = (if new_batch then batch_sectors e r else batch_sectors e r + scast n);
               real_ns = cycle_to_ns khz ((if new_batch then batch_end_cycle e r else now_cycle)
                                          - batch_start_cycle e r);
               closes = (new_batch \<or> real_ns \<ge> PMBD_BATCH_MAX_DURATION
                         \<or> sectors \<ge> PMBD_BATCH_MAX_SECTORS);
               emul_ns = cal_trans_time (ucast sectors) r e
           in if closes \<and> sectors > 256 \<and> real_ns < emul_ns
              then SyncDelay (emul_ns - real_ns) else NoDelay), e')"
proof (cases "cycle_to_ns khz (now_cycle - batch_end_cycle e r) \<ge> PMBD_BATCH_MAX_INTERVAL")
  case True
  then show ?thesis using assms
    by (simp add: pmbd_emul_transfer_time_def Let_def pmbd_slowdown_in_lock word_diff_pos
        PMBD_BATCH_MIN_SECTORS_def)
next
  case False
  have c: "cal_trans_time k r (e\<lparr>batch_sectors := bs, batch_end_cycle := be\<rparr>) = cal_trans_time k r e"
    for k bs be by (rule cal_trans_time_cong) simp_all
  from False show ?thesis using assms
    by (simp add: pmbd_emul_transfer_time_def Let_def pmbd_slowdown_in_lock word_diff_pos
        PMBD_BATCH_MIN_SECTORS_def c)
qed

text \<open>
  C9 (as amended). When the batch window closes with more than 256 accumulated
  sectors (\<open>PMBD_BATCH_MIN_SECTORS\<close>, compared with \<open>>\<close>), the engine computes the
  target time from the accumulated sectors and the target bandwidth and, if the real
  time is smaller, busy-waits for the difference with \<open>batch_lock\<close> held (a
  \<open>SyncDelay\<close>, never the sleeping variant); in every other case it applies no
  delay, in particular when the batch closes with 256 sectors or fewer.
\<close>

theorem batch_close_throttle:
  assumes "batch_start_cycle e r \<noteq> 0" and "batch_end_cycle e r \<le> now_cycle"
  shows "\<exists>e'. pmbd_emul_transfer_time khz now_cycle n r e =
     Inr ((let new_batch = (cycle_to_ns khz (now_cycle - batch_end_cycle e r) \<ge> PMBD_BATCH_MAX_INTERVAL);
               sectors = (if new_batch then batch_sectors e r else batch_sectors e r + scast n);
               real_ns = cycle_to_ns khz ((if new_batch then batch_end_cycle e r else now_cycle)
                                          - batch_start_cycle e r);
               closes = (new_batch \<or> real_ns \<ge> PMBD_BATCH_MAX_DURATION
                         \<or> sectors \<ge> PMBD_BATCH_MAX_SECTORS);
               emul_ns = cal_trans_time (ucast sectors) r e
           in if closes \<and> sectors > 256 \<and> real_ns < emul_ns
              then SyncDelay (emul_ns - real_ns) else NoDelay), e')"
  using assms by (rule transfer_time_delay)

text \<open>
  Witness: a write batch of 4088 sectors at 100 MiB/s, open for 1000 ns; the request
  of 8 sectors that arrives 1000 ns later fills it to 4096 sectors and closes it.
\<close>

theorem batch_close_throttle_witness:
  "batch_start_cycle emul_rw100 WRITE \<noteq> 0 \<and> batch_end_cycle emul_rw100 WRITE \<le> 3000 \<and>
   pmbd_emul_transfer_time 1000000 3000 8 WRITE emul_rw100 =
     Inr (SyncDelay 19983859, batch_reset WRITE 0 3000 emul_rw100)"
proof -
  have h1: "batch_start_cycle emul_rw100 WRITE \<noteq> 0"
    by (simp add: emul_rw100_def emul_wr100_def)
  have h2: "batch_end_cycle emul_rw100 WRITE \<le> 3000"
    by (simp add: emul_rw100_def emul_wr100_def)
  have v: "(let new_batch = (cycle_to_ns 1000000 (3000 - batch_end_cycle emul_rw100 WRITE) \<ge> PMBD_BATCH_MAX_INTERVAL);
               sectors = (if new_batch then batch_sectors emul_rw100 WRITE else batch_sectors emul_rw100 WRITE + scast (8::32 word));
               real_ns = cycle_to_ns 1000000 ((if new_batch then batch_end_cycle emul_rw100 WRITE else 3000)
                                          - batch_start_cycle emul_rw100 WRITE);
               closes = (new_batch \<or> real_ns \<ge> PMBD_BATCH_MAX_DURATION
                         \<or> sectors \<ge> PMBD_BATCH_MAX_SECTORS);
               emul_ns = cal_trans_time (ucast sectors) WRITE emul_rw100
           in if closes \<and> sectors > 256 \<and> real_ns < emul_ns
              then SyncDelay (emul_ns - real_ns) else NoDelay) = SyncDelay 19983859"
    by (simp add: emul_rw100_def emul_wr100_def cycle_to_ns_def emul_consts
        cal_trans_time_def DIV64_ROUND_def Let_def)
  from batch_close_throttle [OF h1 h2, of 1000000 8] obtain e' where
    "pmbd_emul_transfer_time 1000000 3000 8 WRITE emul_rw100 = Inr (SyncDelay 19983859, e')"
    unfolding v by blast
  moreover have "snd (projr (pmbd_emul_transfer_time 1000000 3000 8 WRITE emul_rw100))
      = batch_reset WRITE 0 3000 emul_rw100"
    by (simp add: pmbd_emul_transfer_time_def emul_rw100_def emul_wr100_def cycle_to_ns_def
        emul_consts cal_trans_time_def DIV64_ROUND_def Let_def batch_reset_def pmbd_slowdown_def)
  ultimately show ?thesis using h1 h2 by simp
qed

text \<open>
  Counterexample to C9 as written: a batch of exactly 256 sectors that is closed by a
  gap of 2 ms. Its real time is 1000 ns, its target time 1249116 ns, and no delay is
  applied.
\<close>

theorem batch_close_exactly_256_counterexample:
  "batch_sectors emul_at256 WRITE = 256 \<and>
   cycle_to_ns 1000000 (2002000 - batch_end_cycle emul_at256 WRITE) \<ge> PMBD_BATCH_MAX_INTERVAL \<and>
   cycle_to_ns 1000000 (batch_end_cycle emul_at256 WRITE - batch_start_cycle emul_at256 WRITE)
     < cal_trans_time 256 WRITE emul_at256 \<and>
   pmbd_emul_transfer_time 1000000 2002000 8 WRITE emul_at256 =
     Inr (NoDelay, batch_reset WRITE 8 2002000 emul_at256)"
  by (simp add: pmbd_emul_transfer_time_def emul_at256_def cycle_to_ns_def emul_consts
      cal_trans_time_def DIV64_ROUND_def Let_def batch_reset_def)

text \<open>
  With a bandwidth in one direction only, \<open>emul_end\<close> does not call
  \<open>pmbd_emul_transfer_time\<close> at all: its guard is \<open>rdbw > 0 && wrbw > 0\<close>. The
  batch window is left as it was and no delay is applied, whatever the request.
\<close>

lemma emul_end_one_direction_only:
  assumes "rdbw e = 0 \<or> wrbw e = 0" and "rdlat e = 0" and "wrlat e = 0"
  shows "emul_end khz now_cycle end_cycle e n r start = Inr ([], e)"
  using assms by (auto simp: emul_end_def)

text \<open>
  C4 (the code at the failing input). \<open>wrbw = 100\<close>, \<open>rdbw = 0\<close>, a write batch
  of 4088 sectors open for 1000 ns, and a write of 8 sectors (4096 bytes) that reaches
  4096 sectors: the write is not fed into the batch window and is not delayed. The
  same request on a device that also has \<open>rdbw = 100\<close> is delayed by 19983859 ns.
\<close>

theorem emul_end_wrbw_only_not_throttled:
  "emul_end 1000000 3000 3100 emul_wr100 8 WRITE 2500 = Inr ([], emul_wr100)"
  by (simp add: emul_end_def emul_wr100_def PMBD_DEV_USE_EMULATION_def word_sless_alt)

lemma emul_end_both_directions_throttled:
  "emul_end 1000000 3000 3100 emul_rw100 8 WRITE 2500 =
     Inr ([TransferTime (SyncDelay 19983859)], batch_reset WRITE 0 3000 emul_rw100)"
  by (simp add: emul_end_def emul_rw100_def emul_wr100_def PMBD_DEV_USE_EMULATION_def
      pmbd_emul_transfer_time_def cycle_to_ns_def emul_consts cal_trans_time_def
      DIV64_ROUND_def pmbd_slowdown_def batch_reset_def Let_def word_sless_alt)

section \<open>Request dispatcher: theorems\<close>

subsection \<open>Phases of a request\<close>

lemma run_phase_append:
  "run_phase ph (xs @ ys) = (case run_phase ph xs of None \<Rightarrow> None | Some ph' \<Rightarrow> run_phase ph' ys)"
  by (induction xs arbitrary: ph) (auto split: option.splits)

lemma run_phase_do_bvecs: "run_phase Flying (do_bvecs r f s ls) = Some Flying"
  by (induction ls arbitrary: s) auto

lemma run_phase_flush: "run_phase Before (map FlushBuffer ns) = Some Before"
  by (induction ns) auto

lemma run_phase_barrier: "run_phase Before (pmbd_write_barrier_events c) = Some Before"
  by (simp add: pmbd_write_barrier_events_def run_phase_append run_phase_flush)

lemma no_end_do_bvecs: "\<forall>ev \<in> set (do_bvecs r f s ls). \<not> is_end_event ev"
  by (induction ls arbitrary: s) auto

lemma no_end_barrier: "\<forall>ev \<in> set (pmbd_write_barrier_events c). \<not> is_end_event ev"
  by (auto simp: pmbd_write_barrier_events_def)

text \<open>The shape of every request: a prefix, the increment, and the rest.\<close>

lemma make_request_shape:
  "\<exists>pre work tail. fst (pmbd_make_request c khz ts e b) = pre @ AtomicInc # work @ tail
     \<and> run_phase Before pre = Some Before \<and> run_phase Flying work = Some Flying
     \<and> (\<exists>err. work \<noteq> [] \<and> last work = BioEndio err)
     \<and> (\<forall>ev \<in> set pre \<union> set work. \<not> is_end_event ev)
     \<and> (if PMBD_DEV_SIM_DEV e
         then hd work = EmulStart \<and>
              (case emul_end khz (ts_batch ts) (ts_end ts) e (drop_bit 9 (bi_size b)) (bi_dir b)
                      (emul_start (ts_start ts) e (drop_bit 9 (bi_size b)) (bi_dir b)) of
                 Inl x \<Rightarrow> tail = [EmulPanic x]
               | Inr r \<Rightarrow> tail = [EmulEnd (fst r), AtomicDec, StatUpdate])
         else tail = [AtomicDec, StatUpdate])"
proof -
  define ns where "ns = (ucast (drop_bit 9 (bi_size b)) :: 32 word)"
  have ns: "ns = drop_bit 9 (bi_size b)" by (simp add: ns_def)
  define pre where "pre = (if bi_flush b \<and> g_pmbd_wb c then pmbd_write_barrier_events c else []) @
                (if bi_dir b = WRITE then [BarrierLockPass] else [])"
  define work where "work = (if bi_sector b + ucast (drop_bit 9 (bi_size b)) > capacity c then
                    [CapacityExceeded, BioEndio (- 5)]
                  else if ns = 0 then [BioEndio 0]
                  else UpdateAccessTime # do_bvecs (bi_dir b) (bi_fua b \<and> g_pmbd_fua c) (bi_sector b) (bi_io_vec b)
                       @ [BioEndio (if bi_io_vec b = [] then - 5 else 0)])"
  define st where "st = (if PMBD_DEV_SIM_DEV e then emul_start (ts_start ts) e ns (bi_dir b) else 0)"
  define P where "P = (\<lambda>p w. run_phase Before p = Some Before \<and> run_phase Flying w = Some Flying
     \<and> (\<exists>err. w \<noteq> [] \<and> last w = BioEndio err)
     \<and> (\<forall>ev \<in> set p \<union> set w. \<not> is_end_event ev))"
  have p: "run_phase Before pre = Some Before"
    by (simp add: pre_def run_phase_append run_phase_barrier)
  have pe: "\<forall>ev \<in> set pre. \<not> is_end_event ev"
    using no_end_barrier [of c] by (auto simp: pre_def)
  have w: "run_phase Flying work = Some Flying"
    by (simp add: work_def run_phase_append run_phase_do_bvecs)
  have we: "\<forall>ev \<in> set work. \<not> is_end_event ev"
    using no_end_do_bvecs by (auto simp: work_def)
  have wl: "\<exists>err. work \<noteq> [] \<and> last work = BioEndio err"
    by (simp add: work_def)
  have P0: "P pre work" unfolding P_def using p pe w we wl by blast
  have P1: "P pre (EmulStart # work)" unfolding P_def using p pe w we wl by auto
  define pre0 where "pre0 = (if bi_flush b \<and> g_pmbd_wb c then pmbd_write_barrier_events c else []) @
                (if bi_dir b = WRITE then [BarrierLockPass] else []) @ [AtomicInc]"
  have pre0: "pre0 = pre @ [AtomicInc]" by (simp add: pre0_def pre_def)
  have "pmbd_make_request c khz ts e b =
     (if PMBD_DEV_SIM_DEV e then
           (case emul_end khz (ts_batch ts) (ts_end ts) e ns (bi_dir b) st of
              Inl err \<Rightarrow> (pre0 @ [EmulStart] @ work @ [EmulPanic err], e)
            | Inr (evs, e') \<Rightarrow> (pre0 @ [EmulStart] @ work @ [EmulEnd evs, AtomicDec, StatUpdate], e'))
         else (pre0 @ work @ [AtomicDec, StatUpdate], e))"
    by (simp only: pmbd_make_request_def Let_def ns_def pre0_def work_def st_def)
  then have mr: "pmbd_make_request c khz ts e b =
     (if PMBD_DEV_SIM_DEV e then
           (case emul_end khz (ts_batch ts) (ts_end ts) e ns (bi_dir b) st of
              Inl err \<Rightarrow> ((pre @ [AtomicInc]) @ [EmulStart] @ work @ [EmulPanic err], e)
            | Inr (evs, e') \<Rightarrow> ((pre @ [AtomicInc]) @ [EmulStart] @ work @ [EmulEnd evs, AtomicDec, StatUpdate], e'))
         else ((pre @ [AtomicInc]) @ work @ [AtomicDec, StatUpdate], e))"
    unfolding pre0 .
  have goal: "\<exists>pre work tail. fst (pmbd_make_request c khz ts e b) = pre @ AtomicInc # work @ tail
     \<and> P pre work
     \<and> (if PMBD_DEV_SIM_DEV e
         then hd work = EmulStart \<and>
              (case emul_end khz (ts_batch ts) (ts_end ts) e (drop_bit 9 (bi_size b)) (bi_dir b)
                      (emul_start (ts_start ts) e (drop_bit 9 (bi_size b)) (bi_dir b)) of
                 Inl x \<Rightarrow> tail = [EmulPanic x]
               | Inr r \<Rightarrow> tail = [EmulEnd (fst r), AtomicDec, StatUpdate])
         else tail = [AtomicDec, StatUpdate])"
  proof (cases "PMBD_DEV_SIM_DEV e")
    case False
    then have "fst (pmbd_make_request c khz ts e b) = pre @ AtomicInc # work @ [AtomicDec, StatUpdate]"
      by (simp add: mr)
    with False P0 show ?thesis
      by (intro exI [of _ pre] exI [of _ work] exI [of _ "[AtomicDec, StatUpdate]"]) simp
  next
    case True
    show ?thesis
    proof (cases "emul_end khz (ts_batch ts) (ts_end ts) e ns (bi_dir b) st")
      case (Inl x)
      with True have "fst (pmbd_make_request c khz ts e b) = pre @ AtomicInc # (EmulStart # work) @ [EmulPanic x]"
        by (simp add: mr)
      with True P1 Inl show ?thesis unfolding st_def ns
        by (intro exI [of _ pre] exI [of _ "EmulStart # work"] exI [of _ "[EmulPanic x]"]) simp
    next
      case (Inr r)
      obtain evs e' where r: "r = (evs, e')" by (cases r)
      with Inr True have "fst (pmbd_make_request c khz ts e b) =
          pre @ AtomicInc # (EmulStart # work) @ [EmulEnd evs, AtomicDec, StatUpdate]"
        by (simp add: mr)
      with True P1 Inr r show ?thesis unfolding st_def ns
        by (intro exI [of _ pre] exI [of _ "EmulStart # work"]
            exI [of _ "[EmulEnd evs, AtomicDec, StatUpdate]"]) simp
    qed
  qed
  then show ?thesis unfolding P_def by blast
qed

lemma run_phase_make_request:
  "run_phase Before (fst (pmbd_make_request c khz ts e b)) \<noteq> None"
proof -
  from make_request_shape [of c khz ts e b] obtain pre work tail where
    s: "fst (pmbd_make_request c khz ts e b) = pre @ AtomicInc # work @ tail"
    and p: "run_phase Before pre = Some Before" and w: "run_phase Flying work = Some Flying"
    and t: "if PMBD_DEV_SIM_DEV e
         then hd work = EmulStart \<and>
              (case emul_end khz (ts_batch ts) (ts_end ts) e (drop_bit 9 (bi_size b)) (bi_dir b)
                      (emul_start (ts_start ts) e (drop_bit 9 (bi_size b)) (bi_dir b)) of
                 Inl x \<Rightarrow> tail = [EmulPanic x]
               | Inr r \<Rightarrow> tail = [EmulEnd (fst r), AtomicDec, StatUpdate])
         else tail = [AtomicDec, StatUpdate]"
    by blast
  from t have "run_phase Flying tail \<noteq> None" by (auto split: if_splits sum.splits)
  then show ?thesis using p w by (simp add: s run_phase_append)
qed

lemma phase_of_done:
  "run_phase Before xs = Some ph \<Longrightarrow>
   (AtomicInc \<in> set xs \<longleftrightarrow> ph \<noteq> Before) \<and> (AtomicDec \<in> set xs \<longleftrightarrow> ph = After)"
proof (induction xs arbitrary: ph rule: rev_induct)
  case Nil
  then show ?case by simp
next
  case (snoc x xs)
  from snoc.prems obtain ph1 where p1: "run_phase Before xs = Some ph1"
    and st: "phase_step ph1 x = Some ph"
    by (auto simp: run_phase_append split: option.splits)
  from snoc.IH [OF p1] st show ?case
    by (cases ph1; cases x) auto
qed

lemma in_flight_phase:
  "run_phase Before (done_evs t) = Some ph \<Longrightarrow> in_flight t \<longleftrightarrow> ph = Flying"
  using phase_of_done [of "done_evs t" ph] by (cases ph) (auto simp: in_flight_def)

lemma filter_update_count:
  assumes "i < length xs"
  shows "length (filter P (xs[i := y])) + (if P (xs ! i) then 1 else 0)
       = length (filter P xs) + (if P y then 1 else 0)"
  using assms
proof (induction xs arbitrary: i)
  case Nil
  then show ?case by simp
next
  case (Cons x xs)
  then show ?case by (cases i) auto
qed


lemma phase_mono:
  "run_phase ph xs = Some ph' \<Longrightarrow> (ph = Flying \<longrightarrow> ph' \<noteq> Before) \<and> (ph = After \<longrightarrow> ph' = After)"
proof (induction xs arbitrary: ph)
  case Nil
  then show ?case by auto
next
  case (Cons x xs)
  from Cons.prems obtain ph1 where st: "phase_step ph x = Some ph1"
    and r: "run_phase ph1 xs = Some ph'" by (auto split: option.splits)
  from Cons.IH [OF r] st show ?case
    by (cases ph; cases x) auto
qed

lemma phase_count_inc:
  "run_phase ph xs = Some ph' \<Longrightarrow>
   count_list xs AtomicInc = (if ph = Before \<and> ph' \<noteq> Before then 1 else 0)"
proof (induction xs arbitrary: ph)
  case Nil
  then show ?case by auto
next
  case (Cons x xs)
  from Cons.prems obtain ph1 where st: "phase_step ph x = Some ph1"
    and r: "run_phase ph1 xs = Some ph'" by (auto split: option.splits)
  from Cons.IH [OF r] phase_mono [OF r] st show ?case
    by (cases ph; cases x) (auto split: if_splits)
qed

subsection \<open>The in-flight counter\<close>

lemma thread_ok_new:
  "thread_ok \<lparr>done_evs = [], todo_evs = fst (pmbd_make_request c khz ts e b)\<rparr>"
  using run_phase_make_request [of c khz ts e b] by (auto simp: thread_ok_def)

lemma thread_ok_advance:
  assumes "thread_ok t" and "todo_evs t \<noteq> []"
  shows "thread_ok \<lparr>done_evs = done_evs t @ [hd (todo_evs t)], todo_evs = tl (todo_evs t)\<rparr>"
proof -
  from assms obtain ev rest where td: "todo_evs t = ev # rest" by (cases "todo_evs t") auto
  from assms(1) obtain ph where d: "run_phase Before (done_evs t) = Some ph"
    and r: "run_phase ph (ev # rest) \<noteq> None" by (auto simp: thread_ok_def td)
  from r obtain ph' where st: "phase_step ph ev = Some ph'" and r': "run_phase ph' rest \<noteq> None"
    by (auto split: option.splits)
  show ?thesis using d st r' by (simp add: thread_ok_def td run_phase_append)
qed

text \<open>How one effect changes whether its thread is in flight.\<close>

lemma in_flight_advance:
  assumes "thread_ok t" and "todo_evs t \<noteq> []"
  defines "t' \<equiv> \<lparr>done_evs = done_evs t @ [hd (todo_evs t)], todo_evs = tl (todo_evs t)\<rparr>"
  shows "hd (todo_evs t) = AtomicInc \<Longrightarrow> \<not> in_flight t \<and> in_flight t'"
    and "hd (todo_evs t) = AtomicDec \<Longrightarrow> in_flight t \<and> \<not> in_flight t'"
    and "hd (todo_evs t) \<noteq> AtomicInc \<Longrightarrow> hd (todo_evs t) \<noteq> AtomicDec \<Longrightarrow> in_flight t' = in_flight t"
proof -
  from assms obtain ev rest where td: "todo_evs t = ev # rest" by (cases "todo_evs t") auto
  from assms(1) obtain ph where d: "run_phase Before (done_evs t) = Some ph"
    and r: "run_phase ph (ev # rest) \<noteq> None" by (auto simp: thread_ok_def td)
  from r obtain ph' where st: "phase_step ph ev = Some ph'"
    by (auto split: option.splits)
  have d': "run_phase Before (done_evs t') = Some ph'"
    using d st by (simp add: t'_def td run_phase_append)
  note a = in_flight_phase [OF d] and b = in_flight_phase [OF d']
  show "hd (todo_evs t) = AtomicInc \<Longrightarrow> \<not> in_flight t \<and> in_flight t'"
    using st a b by (cases ph) (auto simp: td)
  show "hd (todo_evs t) = AtomicDec \<Longrightarrow> in_flight t \<and> \<not> in_flight t'"
    using st a b by (cases ph) (auto simp: td)
  show "hd (todo_evs t) \<noteq> AtomicInc \<Longrightarrow> hd (todo_evs t) \<noteq> AtomicDec \<Longrightarrow> in_flight t' = in_flight t"
    using st a b by (cases ph; cases ev) (auto simp: td)
qed

lemma servicing_in_flight:
  assumes "thread_ok t" and "todo_evs t \<noteq> []" and "servicing_event (hd (todo_evs t))"
  shows "in_flight t"
proof -
  from assms obtain ev rest where td: "todo_evs t = ev # rest" by (cases "todo_evs t") auto
  from assms(1) obtain ph where d: "run_phase Before (done_evs t) = Some ph"
    and r: "run_phase ph (ev # rest) \<noteq> None" by (auto simp: thread_ok_def td)
  from r obtain ph' where st: "phase_step ph ev = Some ph'"
    by (auto split: option.splits)
  from st assms(3) have "ph = Flying" by (cases ph; cases ev) (auto simp: td)
  then show ?thesis using in_flight_phase [OF d] by simp
qed

lemma threads_effect [simp]: "threads (effect ev s) = threads s"
  by (cases ev) auto

lemma flying_effect:
  "num_flying_wr (effect ev s) =
     (if ev = AtomicInc then num_flying_wr s + 1
      else if ev = AtomicDec then num_flying_wr s - 1 else num_flying_wr s)"
  by (cases ev) auto

lemma reachable_inv:
  assumes "reachable c s"
  shows "num_flying_wr s = of_nat (num_in_flight s) \<and> (\<forall>t \<in> set (threads s). thread_ok t)"
  using assms
proof (induction rule: reachable.induct)
  case init
  then show ?case by (simp add: sys_init_def num_in_flight_def)
next
  case (arrive s khz ts e b)
  then show ?case by (auto simp: num_in_flight_def in_flight_def thread_ok_new)
next
  case (exec s i)
  let ?t = "threads s ! i"
  let ?ev = "hd (todo_evs ?t)"
  let ?t' = "\<lparr>done_evs = done_evs ?t @ [?ev], todo_evs = tl (todo_evs ?t)\<rparr>"
  from exec have ok: "thread_ok ?t" by simp
  have ok': "thread_ok ?t'" using thread_ok_advance [OF ok exec.hyps(3)] .
  have thr: "threads (advance i s) = (threads s)[i := ?t']"
    by (simp add: advance_def Let_def)
  have fly: "num_flying_wr (advance i s) = num_flying_wr (effect ?ev s)"
    by (simp add: advance_def Let_def)
  have cnt: "num_in_flight (advance i s) + (if in_flight ?t then 1 else 0)
           = num_in_flight s + (if in_flight ?t' then 1 else 0)"
    unfolding num_in_flight_def thr using filter_update_count [OF exec.hyps(2)] .
  have all_ok: "\<forall>t \<in> set (threads (advance i s)). thread_ok t"
    unfolding thr using exec.IH ok' by (auto dest!: set_update_subset_insert [THEN subsetD])
  have "num_flying_wr (advance i s) = of_nat (num_in_flight (advance i s))"
  proof (cases "?ev = AtomicInc")
    case True
    from in_flight_advance(1) [OF ok exec.hyps(3) True] cnt
    have "num_in_flight (advance i s) = num_in_flight s + 1" by simp
    then show ?thesis using exec.IH True by (simp add: fly flying_effect)
  next
    case False
    show ?thesis
    proof (cases "?ev = AtomicDec")
      case True
      from in_flight_advance(2) [OF ok exec.hyps(3) True] cnt
      have "num_in_flight (advance i s) + 1 = num_in_flight s" by simp
      then have "of_nat (num_in_flight s) = (of_nat (num_in_flight (advance i s) + 1) :: 32 word)"
        by simp
      then have "of_nat (num_in_flight s) = (of_nat (num_in_flight (advance i s)) + 1 :: 32 word)"
        by simp
      then show ?thesis using exec.IH True by (simp add: fly flying_effect)
    next
      case nd: False
      from in_flight_advance(3) [OF ok exec.hyps(3) False nd] cnt
      have "num_in_flight (advance i s) = num_in_flight s" by simp
      then show ?thesis using exec.IH False nd by (simp add: fly flying_effect)
    qed
  qed
  then show ?case using all_ok by simp
qed

lemma count_inc_make_request:
  "count_list (fst (pmbd_make_request c khz ts e b)) AtomicInc = 1"
proof -
  from run_phase_make_request [of c khz ts e b] obtain ph where
    r: "run_phase Before (fst (pmbd_make_request c khz ts e b)) = Some ph" by auto
  from make_request_shape [of c khz ts e b]
  have "AtomicInc \<in> set (fst (pmbd_make_request c khz ts e b))" by auto
  with phase_of_done [OF r] have "ph \<noteq> Before" by simp
  with phase_count_inc [OF r] show ?thesis by simp
qed

lemma word32_of_nat_zero: "n < 2 ^ 32 \<Longrightarrow> (of_nat n :: 32 word) = 0 \<longleftrightarrow> n = 0"
  using nat_dvd_not_less [of n "2 ^ 32"] by (auto simp: word_of_nat_eq_0_iff)

lemma make_request_read4k:
  "fst (pmbd_make_request cfg0 1000000 tsc0 emul_rdlat bio_read4k) =
     [AtomicInc, EmulStart, UpdateAccessTime, DoBvec READ 8 4096 False, BioEndio 0,
      EmulEnd [AccessTime (SyncDelay 8000)], AtomicDec, StatUpdate]"
  by (simp add: pmbd_make_request_def cfg0_def tsc0_def emul_rdlat_def bio_read4k_def
      PMBD_DEV_SIM_DEV_def PMBD_DEV_USE_EMULATION_def emul_start_def emul_end_def
      pmbd_emul_access_time_def cal_access_time_def cycle_to_ns_def pmbd_slowdown_def
      MAX_SYNC_SLOWDOWN_def word_sless_alt Let_def)

lemma sys1_eq:
  "sys1 = \<lparr>num_flying_wr = 1, wr_barrier_locked = False,
     threads = [\<lparr>done_evs = [AtomicInc],
       todo_evs = [EmulStart, UpdateAccessTime, DoBvec READ 8 4096 False, BioEndio 0,
                   EmulEnd [AccessTime (SyncDelay 8000)], AtomicDec, StatUpdate]\<rparr>]\<rparr>"
  by (simp add: sys1_def make_request_read4k advance_def sys_init_def)

lemma reachable_sys1: "reachable cfg0 sys1"
proof -
  let ?s = "sys_init\<lparr>threads := threads sys_init @
     [\<lparr>done_evs = [], todo_evs = fst (pmbd_make_request cfg0 1000000 tsc0 emul_rdlat bio_read4k)\<rparr>]\<rparr>"
  have "reachable cfg0 ?s" by (rule reachable.arrive [OF reachable.init])
  moreover have "0 < length (threads ?s)" by (simp add: sys_init_def)
  moreover have "todo_evs (threads ?s ! 0) \<noteq> []" by (simp add: sys_init_def make_request_read4k)
  moreover have "enabled ?s (hd (todo_evs (threads ?s ! 0)))"
    by (simp add: sys_init_def make_request_read4k)
  ultimately show ?thesis unfolding sys1_def by (rule reachable.exec)
qed

subsection \<open>Completion and the end of the emulation window\<close>

lemma make_request_order:
  assumes "PMBD_DEV_SIM_DEV e"
  shows "\<exists>pre err tail. fst (pmbd_make_request c khz ts e b) = pre @ BioEndio err # tail
      \<and> AtomicInc \<in> set pre \<and> (\<forall>ev \<in> set pre. \<not> is_end_event ev)
      \<and> (case emul_end khz (ts_batch ts) (ts_end ts) e (drop_bit 9 (bi_size b)) (bi_dir b)
                      (emul_start (ts_start ts) e (drop_bit 9 (bi_size b)) (bi_dir b)) of
                 Inl x \<Rightarrow> tail = [EmulPanic x]
               | Inr r \<Rightarrow> tail = [EmulEnd (fst r), AtomicDec, StatUpdate])"
proof -
  from make_request_shape [of c khz ts e b] assms obtain pre work tail err where
    s: "fst (pmbd_make_request c khz ts e b) = pre @ AtomicInc # work @ tail"
    and wl: "work \<noteq> []" "last work = BioEndio err"
    and ne: "\<forall>ev \<in> set pre \<union> set work. \<not> is_end_event ev"
    and t: "case emul_end khz (ts_batch ts) (ts_end ts) e (drop_bit 9 (bi_size b)) (bi_dir b)
                      (emul_start (ts_start ts) e (drop_bit 9 (bi_size b)) (bi_dir b)) of
                 Inl x \<Rightarrow> tail = [EmulPanic x]
               | Inr r \<Rightarrow> tail = [EmulEnd (fst r), AtomicDec, StatUpdate]"
    by auto
  from wl have w: "work = butlast work @ [BioEndio err]"
    by (metis append_butlast_last_id)
  have "fst (pmbd_make_request c khz ts e b) = (pre @ AtomicInc # butlast work) @ BioEndio err # tail"
    by (subst s, subst w) simp
  moreover have "\<forall>ev \<in> set (pre @ AtomicInc # butlast work). \<not> is_end_event ev"
    using ne by (auto dest: in_set_butlastD)
  moreover have "AtomicInc \<in> set (pre @ AtomicInc # butlast work)" by simp
  ultimately show ?thesis using t by blast
qed

text \<open>
  The padding of a read: emulation of the latency alone, a request that took less than
  the read latency by the driver's own measure.
\<close>

lemma emul_end_read_latency:
  assumes "rdbw e = 0 \<or> wrbw e = 0" and "rdlat e \<noteq> 0" and "rdlat e \<le> MAX_SYNC_SLOWDOWN"
    and "0 <s n" and "cycle_to_ns khz (end_cycle - start) < rdlat e"
  shows "emul_end khz now_cycle end_cycle e n READ start =
     Inr ([AccessTime (SyncDelay (rdlat e - cycle_to_ns khz (end_cycle - start)))], e)"
proof -
  let ?d = "rdlat e - cycle_to_ns khz (end_cycle - start)"
  have pos: "0 < ?d" using assms(5) by (rule word_diff_pos)
  have "?d \<le> rdlat e" using assms(5) by (simp add: word_sub_le)
  then have le: "\<not> MAX_SYNC_SLOWDOWN < ?d" using assms(3) by simp
  have nz: "0 < rdlat e" using assms(2) by (simp add: word_neq_0_conv)
  have both: "\<not> (0 < rdbw e \<and> 0 < wrbw e)" using assms(1) by auto
  show ?thesis
    using assms(2,4,5) pos le nz both
    by (auto simp: emul_end_def PMBD_DEV_USE_EMULATION_def pmbd_emul_access_time_def
        cal_access_time_def pmbd_slowdown_def Let_def)
qed

text \<open>
  On a device configured for whole-device emulation the effects of a request are, in
  this order: the completion signal (\<open>bio_endio\<close>), then the end of the emulation
  window (\<open>emul_end\<close>, or its panic), then \<open>atomic_dec\<close> and the statistics
  update; nothing that ends the request precedes the completion signal. For a read with
  only a read latency configured (\<open>rdlat = 10000\<close>) whose measured time from dispatch
  is below the latency, \<open>emul_end\<close> busy-waits for the difference, after the
  completion signal.
\<close>

lemma bio_endio_precedes_emul_end:
  assumes "PMBD_DEV_SIM_DEV e"
  shows "(\<exists>pre err tail. fst (pmbd_make_request c khz ts e b) = pre @ BioEndio err # tail
            \<and> AtomicInc \<in> set pre \<and> (\<forall>ev \<in> set pre. \<not> is_end_event ev)
            \<and> ((\<exists>x. tail = [EmulPanic x]) \<or> (\<exists>evs. tail = [EmulEnd evs, AtomicDec, StatUpdate])))
       \<and> (bi_dir b = READ \<and> rdlat e = 10000 \<and> (rdbw e = 0 \<or> wrbw e = 0)
            \<and> 0 <s (ucast (drop_bit 9 (bi_size b)) :: 32 word)
            \<and> cycle_to_ns khz (ts_end ts - ts_start ts) < 10000 \<longrightarrow>
          (\<exists>pre err. fst (pmbd_make_request c khz ts e b) =
             pre @ [BioEndio err,
                    EmulEnd [AccessTime (SyncDelay (10000 - cycle_to_ns khz (ts_end ts - ts_start ts)))],
                    AtomicDec, StatUpdate]))"
proof -
  from make_request_order [OF assms, of c khz ts b] obtain pre err tail where
    tr: "fst (pmbd_make_request c khz ts e b) = pre @ BioEndio err # tail"
    and pre: "AtomicInc \<in> set pre" "\<forall>ev \<in> set pre. \<not> is_end_event ev"
    and tl: "case emul_end khz (ts_batch ts) (ts_end ts) e (drop_bit 9 (bi_size b)) (bi_dir b)
                      (emul_start (ts_start ts) e (drop_bit 9 (bi_size b)) (bi_dir b)) of
                 Inl x \<Rightarrow> tail = [EmulPanic x]
               | Inr r \<Rightarrow> tail = [EmulEnd (fst r), AtomicDec, StatUpdate]"
    by blast
  have "tail = [EmulEnd [AccessTime (SyncDelay (10000 - cycle_to_ns khz (ts_end ts - ts_start ts)))],
                AtomicDec, StatUpdate]"
    if h: "bi_dir b = READ" "rdlat e = 10000" "rdbw e = 0 \<or> wrbw e = 0"
      "0 <s (ucast (drop_bit 9 (bi_size b)) :: 32 word)"
      "cycle_to_ns khz (ts_end ts - ts_start ts) < 10000"
  proof -
    have use: "PMBD_DEV_USE_EMULATION e" using assms by (simp add: PMBD_DEV_SIM_DEV_def)
    have st: "emul_start (ts_start ts) e (drop_bit 9 (bi_size b)) READ = ts_start ts"
      using use h(4) by (simp add: emul_start_def)
    have ee: "emul_end khz (ts_batch ts) (ts_end ts) e (drop_bit 9 (bi_size b)) READ (ts_start ts) =
       Inr ([AccessTime (SyncDelay (rdlat e - cycle_to_ns khz (ts_end ts - ts_start ts)))], e)"
      using h by (intro emul_end_read_latency) (simp_all add: MAX_SYNC_SLOWDOWN_def)
    from tl show ?thesis unfolding h(1) st ee by (simp add: h(2))
  qed
  then have second: "bi_dir b = READ \<and> rdlat e = 10000 \<and> (rdbw e = 0 \<or> wrbw e = 0)
            \<and> 0 <s (ucast (drop_bit 9 (bi_size b)) :: 32 word)
            \<and> cycle_to_ns khz (ts_end ts - ts_start ts) < 10000 \<longrightarrow>
          (\<exists>pre err. fst (pmbd_make_request c khz ts e b) =
             pre @ [BioEndio err,
                    EmulEnd [AccessTime (SyncDelay (10000 - cycle_to_ns khz (ts_end ts - ts_start ts)))],
                    AtomicDec, StatUpdate])"
    using tr by blast
  have "(\<exists>x. tail = [EmulPanic x]) \<or> (\<exists>evs. tail = [EmulEnd evs, AtomicDec, StatUpdate])"
    using tl by (auto split: sum.splits)
  with tr pre have first: "\<exists>pre err tail. fst (pmbd_make_request c khz ts e b) = pre @ BioEndio err # tail
            \<and> AtomicInc \<in> set pre \<and> (\<forall>ev \<in> set pre. \<not> is_end_event ev)
            \<and> ((\<exists>x. tail = [EmulPanic x]) \<or> (\<exists>evs. tail = [EmulEnd evs, AtomicDec, StatUpdate]))"
    by blast
  from first second show ?thesis by (rule conjI)
qed

text \<open>
  Claim C5 says that the dispatcher ends the emulation window, with its latency padding,
  and decrements the in-flight counter before it signals completion, so that a single
  4096-byte read with \<open>rdlat = 10000\<close> completes no earlier than 10 microseconds
  after dispatch. The driver promises the same: no request is to complete with a
  response time below the configured latency, and the other simulation mode pads inside
  the copy, before \<open>bio_endio\<close>. The code of \<open>pmbd_make_request\<close> does not do
  it: for a 4096-byte read at sector 8 of a device with \<open>rdlat = 10000\<close>, on a
  1 GHz machine, that has taken 2000 ns when \<open>emul_end\<close> reads the cycle counter,
  completion is signalled first, with no padding before it; the 8000 ns of padding and
  the decrement come after.
\<close>

theorem completion_signalled_before_padding:
  "PMBD_DEV_SIM_DEV emul_rdlat \<and> rdlat emul_rdlat = 10000 \<and>
   cycle_to_ns 1000000 (ts_end tsc0 - ts_start tsc0) = 2000 \<and>
   fst (pmbd_make_request cfg0 1000000 tsc0 emul_rdlat bio_read4k) =
     [AtomicInc, EmulStart, UpdateAccessTime, DoBvec READ 8 4096 False, BioEndio 0,
      EmulEnd [AccessTime (SyncDelay 8000)], AtomicDec, StatUpdate]"
  using make_request_read4k
  by (simp add: PMBD_DEV_SIM_DEV_def PMBD_DEV_USE_EMULATION_def emul_rdlat_def tsc0_def
      cycle_to_ns_def)
subsection \<open>The shape of a request and the threads of a reachable state\<close>

lemma before_events:
  "run_phase Before xs = Some Before \<Longrightarrow>
   \<forall>ev \<in> set xs. \<not> servicing_event ev \<and> ev \<noteq> AtomicInc \<and> ev \<noteq> AtomicDec"
proof (induction xs)
  case Nil
  then show ?case by simp
next
  case (Cons x xs)
  from Cons.prems obtain ph1 where st: "phase_step Before x = Some ph1"
    and r: "run_phase ph1 xs = Some Before" by (auto split: option.splits)
  from phase_mono [OF r] have "ph1 = Before" by (cases ph1) auto
  with st r Cons.IH show ?case by (cases x) auto
qed

lemma flying_events:
  "run_phase Flying xs = Some Flying \<Longrightarrow>
   \<forall>ev \<in> set xs. ev \<noteq> AtomicInc \<and> ev \<noteq> AtomicDec \<and> ev \<noteq> WaitNoFlying \<and> (\<forall>i. ev \<noteq> FlushBuffer i)"
proof (induction xs)
  case Nil
  then show ?case by simp
next
  case (Cons x xs)
  from Cons.prems obtain ph1 where st: "phase_step Flying x = Some ph1"
    and r: "run_phase ph1 xs = Some Flying" by (auto split: option.splits)
  from phase_mono [OF r] st have "ph1 = Flying" by (cases ph1; cases x) auto
  with st r Cons.IH show ?case by (cases x) auto
qed

text \<open>
  Every request: a prefix without servicing, one \<open>atomic_inc\<close>, the servicing with
  the completion signal, and a tail that holds the one \<open>atomic_dec\<close> unless
  \<open>emul_end\<close> panics.
\<close>

lemma make_request_inc_dec:
  "\<exists>pre work tail. fst (pmbd_make_request c khz ts e b) = pre @ AtomicInc # work @ tail \<and>
     (\<forall>ev \<in> set pre. \<not> servicing_event ev \<and> ev \<noteq> AtomicInc \<and> ev \<noteq> AtomicDec) \<and>
     (\<forall>ev \<in> set work. ev \<noteq> AtomicInc \<and> ev \<noteq> AtomicDec) \<and> (\<exists>err. BioEndio err \<in> set work) \<and>
     (tail = [AtomicDec, StatUpdate] \<or> (\<exists>evs. tail = [EmulEnd evs, AtomicDec, StatUpdate]) \<or>
      (\<exists>x. tail = [EmulPanic x]))"
proof -
  from make_request_shape [of c khz ts e b] obtain pre work tail where
    s: "fst (pmbd_make_request c khz ts e b) = pre @ AtomicInc # work @ tail"
    and p: "run_phase Before pre = Some Before" and w: "run_phase Flying work = Some Flying"
    and l: "\<exists>err. work \<noteq> [] \<and> last work = BioEndio err"
    and t: "if PMBD_DEV_SIM_DEV e
         then hd work = EmulStart \<and>
              (case emul_end khz (ts_batch ts) (ts_end ts) e (drop_bit 9 (bi_size b)) (bi_dir b)
                      (emul_start (ts_start ts) e (drop_bit 9 (bi_size b)) (bi_dir b)) of
                 Inl x \<Rightarrow> tail = [EmulPanic x]
               | Inr r \<Rightarrow> tail = [EmulEnd (fst r), AtomicDec, StatUpdate])
         else tail = [AtomicDec, StatUpdate]"
    by blast
  from l obtain err where "work \<noteq> []" "last work = BioEndio err" by blast
  then have e: "\<exists>err. BioEndio err \<in> set work" by (metis last_in_set)
  from t have tl: "tail = [AtomicDec, StatUpdate] \<or> (\<exists>evs. tail = [EmulEnd evs, AtomicDec, StatUpdate]) \<or>
      (\<exists>x. tail = [EmulPanic x])"
    by (cases "PMBD_DEV_SIM_DEV e") (auto split: sum.splits)
  have fw: "\<forall>ev \<in> set work. ev \<noteq> AtomicInc \<and> ev \<noteq> AtomicDec" using flying_events [OF w] by blast
  show ?thesis using s before_events [OF p] fw e tl by blast
qed

lemma no_barrier_do_bvecs:
  "\<forall>ev \<in> set (do_bvecs r f s ls). ev \<noteq> WaitNoFlying \<and> (\<forall>i. ev \<noteq> FlushBuffer i)"
  by (induction ls arbitrary: s) auto

text \<open>The effects of the barrier come first; nothing after them is a flush or the spin loop.\<close>

lemma make_request_prefix:
  "\<exists>rest. fst (pmbd_make_request c khz ts e b) =
            (if bi_flush b \<and> g_pmbd_wb c then pmbd_write_barrier_events c else []) @ rest \<and>
          (\<forall>ev \<in> set rest. ev \<noteq> WaitNoFlying \<and> (\<forall>i. ev \<noteq> FlushBuffer i))"
proof -
  define ns where "ns = (ucast (drop_bit 9 (bi_size b)) :: 32 word)"
  define B where "B = (if bi_flush b \<and> g_pmbd_wb c then pmbd_write_barrier_events c else [])"
  define P where "P = (if bi_dir b = WRITE then [BarrierLockPass] else [])"
  define work where "work = (if bi_sector b + ucast (drop_bit 9 (bi_size b)) > capacity c then
                    [CapacityExceeded, BioEndio (- 5)]
                  else if ns = 0 then [BioEndio 0]
                  else UpdateAccessTime # do_bvecs (bi_dir b) (bi_fua b \<and> g_pmbd_fua c) (bi_sector b) (bi_io_vec b)
                       @ [BioEndio (if bi_io_vec b = [] then - 5 else 0)])"
  define st where "st = (if PMBD_DEV_SIM_DEV e then emul_start (ts_start ts) e ns (bi_dir b) else 0)"
  define ok where "ok = (\<lambda>xs. \<forall>ev \<in> set xs. ev \<noteq> WaitNoFlying \<and> (\<forall>i. ev \<noteq> FlushBuffer i))"
  have okP: "ok P" by (simp add: ok_def P_def)
  have okw: "ok work" using no_barrier_do_bvecs by (auto simp: ok_def work_def)
  have ok_app: "ok (xs @ ys)" if "ok xs" "ok ys" for xs ys using that by (auto simp: ok_def)
  have mr: "pmbd_make_request c khz ts e b =
     (if PMBD_DEV_SIM_DEV e then
           (case emul_end khz (ts_batch ts) (ts_end ts) e ns (bi_dir b) st of
              Inl err \<Rightarrow> ((B @ P @ [AtomicInc]) @ [EmulStart] @ work @ [EmulPanic err], e)
            | Inr (evs, e') \<Rightarrow> ((B @ P @ [AtomicInc]) @ [EmulStart] @ work @ [EmulEnd evs, AtomicDec, StatUpdate], e'))
         else ((B @ P @ [AtomicInc]) @ work @ [AtomicDec, StatUpdate], e))"
    by (simp only: pmbd_make_request_def Let_def ns_def B_def P_def work_def st_def)
  have "\<exists>rest. fst (pmbd_make_request c khz ts e b) = B @ rest \<and> ok rest"
  proof (cases "PMBD_DEV_SIM_DEV e")
    case False
    have "ok (P @ [AtomicInc] @ work @ [AtomicDec, StatUpdate])"
      by (intro ok_app okP okw) (simp_all add: ok_def)
    moreover have "fst (pmbd_make_request c khz ts e b) = B @ (P @ [AtomicInc] @ work @ [AtomicDec, StatUpdate])"
      using False by (simp add: mr)
    ultimately show ?thesis by blast
  next
    case True
    show ?thesis
    proof (cases "emul_end khz (ts_batch ts) (ts_end ts) e ns (bi_dir b) st")
      case (Inl x)
      have "ok (P @ [AtomicInc] @ [EmulStart] @ work @ [EmulPanic x])"
        by (intro ok_app okP okw) (simp_all add: ok_def)
      moreover have "fst (pmbd_make_request c khz ts e b) = B @ (P @ [AtomicInc] @ [EmulStart] @ work @ [EmulPanic x])"
        using True Inl by (simp add: mr)
      ultimately show ?thesis by blast
    next
      case (Inr r)
      obtain evs e' where r: "r = (evs, e')" by (cases r)
      have "ok (P @ [AtomicInc] @ [EmulStart] @ work @ [EmulEnd evs, AtomicDec, StatUpdate])"
        by (intro ok_app okP okw) (simp_all add: ok_def)
      moreover have "fst (pmbd_make_request c khz ts e b) =
          B @ (P @ [AtomicInc] @ [EmulStart] @ work @ [EmulEnd evs, AtomicDec, StatUpdate])"
        using True Inr r by (simp add: mr)
      ultimately show ?thesis by blast
    qed
  qed
  then show ?thesis unfolding B_def ok_def .
qed

lemma flush_after_wait:
  assumes "fst (pmbd_make_request c khz ts e b) = xs @ ys" and "FlushBuffer i \<in> set xs"
  shows "WaitNoFlying \<in> set xs"
proof -
  from make_request_prefix [of c khz ts e b] obtain rest where
    s: "fst (pmbd_make_request c khz ts e b) =
          (if bi_flush b \<and> g_pmbd_wb c then pmbd_write_barrier_events c else []) @ rest"
    and r: "\<forall>ev \<in> set rest. ev \<noteq> WaitNoFlying \<and> (\<forall>i. ev \<noteq> FlushBuffer i)"
    by blast
  show ?thesis
  proof (cases "bi_flush b \<and> g_pmbd_wb c")
    case False
    then have "(if bi_flush b \<and> g_pmbd_wb c then pmbd_write_barrier_events c else []) = []"
      by (rule if_not_P)
    then have "xs @ ys = rest" using s assms(1) by simp
    then have "FlushBuffer i \<in> set rest" using assms(2) by auto
    then show ?thesis using r by blast
  next
    case True
    then have "(if bi_flush b \<and> g_pmbd_wb c then pmbd_write_barrier_events c else []) =
               pmbd_write_barrier_events c" by (rule if_P)
    then have "xs @ ys = BarrierLock # WaitNoFlying #
        ((if mr_bufmode c then map FlushBuffer [0..<mr_num_buffers c] else []) @
         (if g_pmbd_cpu_cache_flag c = CACHE_WB \<and> \<not> g_pmbd_nts c \<and> \<not> g_pmbd_cpu_cache_clflush c
          then [ClflushAll] else []) @ [BarrierUnlock]) @ rest"
      using s assms(1) by (simp add: pmbd_write_barrier_events_def)
    then obtain zs where z: "xs @ ys = BarrierLock # WaitNoFlying # zs" by blast
    show ?thesis
    proof (cases xs)
      case Nil
      then show ?thesis using assms(2) by simp
    next
      case (Cons x xs')
      then have x: "x = BarrierLock" and z': "xs' @ ys = WaitNoFlying # zs" using z by simp_all
      show ?thesis
      proof (cases xs')
        case Nil
        then show ?thesis using assms(2) Cons x by simp
      next
        case (Cons y xs'')
        then have "y = WaitNoFlying" using z' by simp
        then show ?thesis using Cons \<open>xs = x # xs'\<close> by simp
      qed
    qed
  qed
qed

text \<open>Every thread of a reachable state runs the effects of one call of the dispatcher.\<close>

lemma reachable_threads:
  assumes "reachable c s"
  shows "\<forall>t \<in> set (threads s). \<exists>khz ts e b. done_evs t @ todo_evs t = fst (pmbd_make_request c khz ts e b)"
  using assms
proof (induction rule: reachable.induct)
  case init
  then show ?case by (simp add: sys_init_def)
next
  case (arrive s khz ts e b)
  then show ?case by auto
next
  case (exec s i)
  let ?t = "threads s ! i"
  let ?t' = "\<lparr>done_evs = done_evs ?t @ [hd (todo_evs ?t)], todo_evs = tl (todo_evs ?t)\<rparr>"
  have thr: "threads (advance i s) = (threads s)[i := ?t']"
    by (simp add: advance_def Let_def)
  have "done_evs ?t' @ todo_evs ?t' = done_evs ?t @ todo_evs ?t" using exec.hyps(3) by simp
  moreover have "?t \<in> set (threads s)" using exec.hyps(2) by simp
  ultimately have t': "\<exists>khz ts e b. done_evs ?t' @ todo_evs ?t' = fst (pmbd_make_request c khz ts e b)"
    using exec.IH by metis
  show ?case
  proof
    fix t assume "t \<in> set (threads (advance i s))"
    then have "t = ?t' \<or> t \<in> set (threads s)"
      unfolding thr using set_update_subset_insert [of "threads s" i ?t'] by auto
    then show "\<exists>khz ts e b. done_evs t @ todo_evs t = fst (pmbd_make_request c khz ts e b)"
      using t' exec.IH by blast
  qed
qed
subsection \<open>A write and a barrier side by side\<close>

lemma make_request_write4k:
  "fst (pmbd_make_request cfg0 1000000 tsc0 emul_rdlat bio_write4k) =
     [BarrierLockPass, AtomicInc, EmulStart, UpdateAccessTime, DoBvec WRITE 8 4096 False, BioEndio 0,
      EmulEnd [AccessTime NoDelay], AtomicDec, StatUpdate]"
  by (simp add: pmbd_make_request_def cfg0_def tsc0_def emul_rdlat_def bio_read4k_def bio_write4k_def
      PMBD_DEV_SIM_DEV_def PMBD_DEV_USE_EMULATION_def emul_start_def emul_end_def
      pmbd_emul_access_time_def cal_access_time_def cycle_to_ns_def pmbd_slowdown_def
      MAX_SYNC_SLOWDOWN_def word_sless_alt Let_def)

lemma make_request_flush:
  "fst (pmbd_make_request cfg0 1000000 tsc0 emul_rdlat bio_flush) =
     [BarrierLock, WaitNoFlying, FlushBuffer 0, ClflushAll, BarrierUnlock, BarrierLockPass, AtomicInc,
      EmulStart, BioEndio 0, EmulEnd [], AtomicDec, StatUpdate]"
  by (simp add: pmbd_make_request_def cfg0_def tsc0_def emul_rdlat_def bio_flush_def
      pmbd_write_barrier_events_def
      PMBD_DEV_SIM_DEV_def PMBD_DEV_USE_EMULATION_def emul_start_def emul_end_def
      pmbd_emul_access_time_def cal_access_time_def cycle_to_ns_def pmbd_slowdown_def
      MAX_SYNC_SLOWDOWN_def word_sless_alt Let_def)

lemma sys2_eq:
  "sys2 = \<lparr>num_flying_wr = 1, wr_barrier_locked = True,
     threads = [\<lparr>done_evs = [BarrierLockPass, AtomicInc],
                 todo_evs = [EmulStart, UpdateAccessTime, DoBvec WRITE 8 4096 False, BioEndio 0,
                             EmulEnd [AccessTime NoDelay], AtomicDec, StatUpdate]\<rparr>,
                \<lparr>done_evs = [BarrierLock, WaitNoFlying],
                 todo_evs = [FlushBuffer 0, ClflushAll, BarrierUnlock, BarrierLockPass, AtomicInc,
                             EmulStart, BioEndio 0, EmulEnd [], AtomicDec, StatUpdate]\<rparr>]\<rparr>"
  by (simp add: sys2_def new_thread_def make_request_write4k make_request_flush advance_def
      sys_init_def Let_def)

lemma reachable_sys2: "reachable cfg0 sys2"
proof -
  define s1 where "s1 = sys_init\<lparr>threads := threads sys_init @ [new_thread bio_write4k]\<rparr>"
  define s2 where "s2 = advance 0 s1"
  define s3 where "s3 = s2\<lparr>threads := threads s2 @ [new_thread bio_flush]\<rparr>"
  define s4 where "s4 = advance 1 s3"
  define s5 where "s5 = advance 1 s4"
  have e1: "s1 = \<lparr>num_flying_wr = 0, wr_barrier_locked = False,
      threads = [\<lparr>done_evs = [], todo_evs = fst (pmbd_make_request cfg0 1000000 tsc0 emul_rdlat bio_write4k)\<rparr>]\<rparr>"
    by (simp add: s1_def sys_init_def new_thread_def)
  have r1: "reachable cfg0 s1"
    unfolding s1_def new_thread_def by (rule reachable.arrive [OF reachable.init])
  have r2: "reachable cfg0 s2"
    unfolding s2_def by (rule reachable.exec [OF r1]) (simp_all add: e1 make_request_write4k)
  have e2: "s2 = \<lparr>num_flying_wr = 0, wr_barrier_locked = False,
      threads = [\<lparr>done_evs = [BarrierLockPass],
         todo_evs = [AtomicInc, EmulStart, UpdateAccessTime, DoBvec WRITE 8 4096 False, BioEndio 0,
                     EmulEnd [AccessTime NoDelay], AtomicDec, StatUpdate]\<rparr>]\<rparr>"
    by (simp add: s2_def e1 make_request_write4k advance_def Let_def)
  have r3: "reachable cfg0 s3"
    unfolding s3_def new_thread_def by (rule reachable.arrive [OF r2])
  have e3: "s3 = \<lparr>num_flying_wr = 0, wr_barrier_locked = False,
      threads = [\<lparr>done_evs = [BarrierLockPass],
         todo_evs = [AtomicInc, EmulStart, UpdateAccessTime, DoBvec WRITE 8 4096 False, BioEndio 0,
                     EmulEnd [AccessTime NoDelay], AtomicDec, StatUpdate]\<rparr>,
        \<lparr>done_evs = [],
         todo_evs = [BarrierLock, WaitNoFlying, FlushBuffer 0, ClflushAll, BarrierUnlock, BarrierLockPass,
                     AtomicInc, EmulStart, BioEndio 0, EmulEnd [], AtomicDec, StatUpdate]\<rparr>]\<rparr>"
    by (simp add: s3_def e2 new_thread_def make_request_flush)
  have r4: "reachable cfg0 s4"
    unfolding s4_def by (rule reachable.exec [OF r3]) (simp_all add: e3)
  have e4: "s4 = \<lparr>num_flying_wr = 0, wr_barrier_locked = True,
      threads = [\<lparr>done_evs = [BarrierLockPass],
         todo_evs = [AtomicInc, EmulStart, UpdateAccessTime, DoBvec WRITE 8 4096 False, BioEndio 0,
                     EmulEnd [AccessTime NoDelay], AtomicDec, StatUpdate]\<rparr>,
        \<lparr>done_evs = [BarrierLock],
         todo_evs = [WaitNoFlying, FlushBuffer 0, ClflushAll, BarrierUnlock, BarrierLockPass,
                     AtomicInc, EmulStart, BioEndio 0, EmulEnd [], AtomicDec, StatUpdate]\<rparr>]\<rparr>"
    by (simp add: s4_def e3 advance_def Let_def)
  have r5: "reachable cfg0 s5"
    unfolding s5_def by (rule reachable.exec [OF r4]) (simp_all add: e4)
  have e5: "s5 = \<lparr>num_flying_wr = 0, wr_barrier_locked = True,
      threads = [\<lparr>done_evs = [BarrierLockPass],
         todo_evs = [AtomicInc, EmulStart, UpdateAccessTime, DoBvec WRITE 8 4096 False, BioEndio 0,
                     EmulEnd [AccessTime NoDelay], AtomicDec, StatUpdate]\<rparr>,
        \<lparr>done_evs = [BarrierLock, WaitNoFlying],
         todo_evs = [FlushBuffer 0, ClflushAll, BarrierUnlock, BarrierLockPass,
                     AtomicInc, EmulStart, BioEndio 0, EmulEnd [], AtomicDec, StatUpdate]\<rparr>]\<rparr>"
    by (simp add: s5_def e4 advance_def Let_def)
  have "reachable cfg0 (advance 0 s5)"
    by (rule reachable.exec [OF r5]) (simp_all add: e5)
  moreover have "sys2 = advance 0 s5"
    by (simp add: sys2_def Let_def s1_def s2_def s3_def s4_def s5_def)
  ultimately show ?thesis by simp
qed

subsection \<open>The in-flight counter and the barrier\<close>

text \<open>
  The counter and the effects of a request. Every request, read or write, performs
  exactly one \<open>atomic_inc\<close>, after the effects of the barrier and of the barrier lock
  and before any servicing; the completion signal follows, and then the one
  \<open>atomic_dec\<close>, unless \<open>emul_end\<close> panics. Every thread of a reachable state runs the
  effects of one call of the dispatcher, and in every reachable state the counter equals
  (as a 32-bit value) the number of requests between their \<open>atomic_inc\<close> and their
  \<open>atomic_dec\<close>; a request that is about to copy a segment, signal completion or run
  an emulation hook is one of them. With fewer than \<open>2^32\<close> requests the counter is 0
  exactly when no request is between its increment and its decrement, so a barrier
  leaves its spin loop (\<open>WaitNoFlying\<close>) only in a state where no request of either
  direction is between the two; the flushes of a barrier follow its spin loop.
\<close>

lemma in_flight_counter:
  assumes "reachable c s"
  shows "num_flying_wr s = of_nat (num_in_flight s)
     \<and> (\<forall>t \<in> set (threads s). \<exists>khz ts e b. done_evs t @ todo_evs t = fst (pmbd_make_request c khz ts e b))
     \<and> (\<forall>t \<in> set (threads s). todo_evs t \<noteq> [] \<and> servicing_event (hd (todo_evs t)) \<longrightarrow> in_flight t)
     \<and> (length (threads s) < 2 ^ 32 \<longrightarrow>
          (num_flying_wr s = 0 \<longleftrightarrow> (\<forall>t \<in> set (threads s). \<not> in_flight t)))
     \<and> (length (threads s) < 2 ^ 32 \<longrightarrow>
          (\<forall>t \<in> set (threads s). todo_evs t \<noteq> [] \<and> hd (todo_evs t) = WaitNoFlying \<and>
              enabled s (hd (todo_evs t)) \<longrightarrow> (\<forall>t' \<in> set (threads s). \<not> in_flight t')))
     \<and> (\<forall>t \<in> set (threads s). \<forall>i. FlushBuffer i \<in> set (done_evs t) \<longrightarrow> WaitNoFlying \<in> set (done_evs t))
     \<and> (\<forall>khz ts e b. count_list (fst (pmbd_make_request c khz ts e b)) AtomicInc = 1)
     \<and> (\<forall>khz ts e b. \<exists>pre work tail.
            fst (pmbd_make_request c khz ts e b) = pre @ AtomicInc # work @ tail \<and>
            (\<forall>ev \<in> set pre. \<not> servicing_event ev \<and> ev \<noteq> AtomicInc \<and> ev \<noteq> AtomicDec) \<and>
            (\<forall>ev \<in> set work. ev \<noteq> AtomicInc \<and> ev \<noteq> AtomicDec) \<and> (\<exists>err. BioEndio err \<in> set work) \<and>
            (tail = [AtomicDec, StatUpdate] \<or> (\<exists>evs. tail = [EmulEnd evs, AtomicDec, StatUpdate]) \<or>
             (\<exists>x. tail = [EmulPanic x])))"
proof -
  note inv = reachable_inv [OF assms]
  note thr = reachable_threads [OF assms]
  have le: "num_in_flight s \<le> length (threads s)" by (simp add: num_in_flight_def)
  have z: "num_in_flight s = 0 \<longleftrightarrow> (\<forall>t \<in> set (threads s). \<not> in_flight t)"
    by (simp add: num_in_flight_def filter_empty_conv)
  have zero: "num_flying_wr s = 0 \<longleftrightarrow> (\<forall>t \<in> set (threads s). \<not> in_flight t)"
    if "length (threads s) < 2 ^ 32"
    using inv le that word32_of_nat_zero [of "num_in_flight s"] z by simp
  have c1: "num_flying_wr s = of_nat (num_in_flight s)" using inv by simp
  have c3: "\<forall>t \<in> set (threads s). todo_evs t \<noteq> [] \<and> servicing_event (hd (todo_evs t)) \<longrightarrow> in_flight t"
    using inv servicing_in_flight by blast
  have c4: "length (threads s) < 2 ^ 32 \<longrightarrow>
          (num_flying_wr s = 0 \<longleftrightarrow> (\<forall>t \<in> set (threads s). \<not> in_flight t))"
    using zero by blast
  have c5: "length (threads s) < 2 ^ 32 \<longrightarrow>
          (\<forall>t \<in> set (threads s). todo_evs t \<noteq> [] \<and> hd (todo_evs t) = WaitNoFlying \<and>
              enabled s (hd (todo_evs t)) \<longrightarrow> (\<forall>t' \<in> set (threads s). \<not> in_flight t'))"
  proof (intro impI ballI)
    fix t t'
    assume l: "length (threads s) < 2 ^ 32" and t': "t' \<in> set (threads s)"
      and h: "todo_evs t \<noteq> [] \<and> hd (todo_evs t) = WaitNoFlying \<and> enabled s (hd (todo_evs t))"
    from h have "enabled s WaitNoFlying" by metis
    then have "num_flying_wr s = 0" by simp
    with zero [OF l] t' show "\<not> in_flight t'" by blast
  qed
  have c6: "\<forall>t \<in> set (threads s). \<forall>i. FlushBuffer i \<in> set (done_evs t) \<longrightarrow> WaitNoFlying \<in> set (done_evs t)"
  proof (intro ballI allI impI)
    fix t i assume t: "t \<in> set (threads s)" and f: "FlushBuffer i \<in> set (done_evs t)"
    from thr t obtain khz ts e b where
      "fst (pmbd_make_request c khz ts e b) = done_evs t @ todo_evs t" by metis
    from flush_after_wait [OF this f] show "WaitNoFlying \<in> set (done_evs t)" .
  qed
  have c7: "\<forall>khz ts e b. count_list (fst (pmbd_make_request c khz ts e b)) AtomicInc = 1"
    using count_inc_make_request by blast
  have c8: "\<forall>khz ts e b. \<exists>pre work tail.
            fst (pmbd_make_request c khz ts e b) = pre @ AtomicInc # work @ tail \<and>
            (\<forall>ev \<in> set pre. \<not> servicing_event ev \<and> ev \<noteq> AtomicInc \<and> ev \<noteq> AtomicDec) \<and>
            (\<forall>ev \<in> set work. ev \<noteq> AtomicInc \<and> ev \<noteq> AtomicDec) \<and> (\<exists>err. BioEndio err \<in> set work) \<and>
            (tail = [AtomicDec, StatUpdate] \<or> (\<exists>evs. tail = [EmulEnd evs, AtomicDec, StatUpdate]) \<or>
             (\<exists>x. tail = [EmulPanic x]))"
    using make_request_inc_dec by blast
  from c1 thr c3 c4 c5 c6 c7 c8 show ?thesis by (intro conjI)
qed

text \<open>
  In the state \<open>sys2\<close> the write has performed its \<open>atomic_inc\<close> and is about to
  service; the counter is 1; the flush request has left its spin loop before its first
  flush.
\<close>

lemma in_flight_counter_sys2:
  "reachable cfg0 sys2 \<and> num_flying_wr sys2 = 1 \<and> num_in_flight sys2 = 1 \<and>
   length (threads sys2) < 2 ^ 32 \<and>
   todo_evs (threads sys2 ! 0) \<noteq> [] \<and> servicing_event (hd (todo_evs (threads sys2 ! 0))) \<and>
   in_flight (threads sys2 ! 0) \<and> AtomicDec \<in> set (todo_evs (threads sys2 ! 0)) \<and>
   WaitNoFlying \<in> set (done_evs (threads sys2 ! 1)) \<and>
   count_list (fst (pmbd_make_request cfg0 1000000 tsc0 emul_rdlat bio_write4k)) AtomicInc = 1"
  using in_flight_counter [OF reachable_sys2] reachable_sys2
  by (simp add: sys2_eq num_in_flight_def in_flight_def)

lemma sys3_eq:
  "sys3 = \<lparr>num_flying_wr = 1, wr_barrier_locked = True,
     threads = [\<lparr>done_evs = [BarrierLockPass, AtomicInc, EmulStart, UpdateAccessTime,
                             DoBvec WRITE 8 4096 False],
                 todo_evs = [BioEndio 0, EmulEnd [AccessTime NoDelay], AtomicDec, StatUpdate]\<rparr>,
                \<lparr>done_evs = [BarrierLock, WaitNoFlying, FlushBuffer 0],
                 todo_evs = [ClflushAll, BarrierUnlock, BarrierLockPass, AtomicInc,
                             EmulStart, BioEndio 0, EmulEnd [], AtomicDec, StatUpdate]\<rparr>]\<rparr>"
  by (simp add: sys3_def sys2_eq advance_def Let_def)

lemma reachable_sys3: "reachable cfg0 sys3"
proof -
  define s1 where "s1 = advance 1 sys2"
  define s2 where "s2 = advance 0 s1"
  define s3 where "s3 = advance 0 s2"
  have r1: "reachable cfg0 s1"
    unfolding s1_def by (rule reachable.exec [OF reachable_sys2]) (simp_all add: sys2_eq)
  have e1: "s1 = \<lparr>num_flying_wr = 1, wr_barrier_locked = True,
     threads = [\<lparr>done_evs = [BarrierLockPass, AtomicInc],
                 todo_evs = [EmulStart, UpdateAccessTime, DoBvec WRITE 8 4096 False, BioEndio 0,
                             EmulEnd [AccessTime NoDelay], AtomicDec, StatUpdate]\<rparr>,
                \<lparr>done_evs = [BarrierLock, WaitNoFlying, FlushBuffer 0],
                 todo_evs = [ClflushAll, BarrierUnlock, BarrierLockPass, AtomicInc,
                             EmulStart, BioEndio 0, EmulEnd [], AtomicDec, StatUpdate]\<rparr>]\<rparr>"
    by (simp add: s1_def sys2_eq advance_def Let_def)
  have r2: "reachable cfg0 s2"
    unfolding s2_def by (rule reachable.exec [OF r1]) (simp_all add: e1)
  have e2: "s2 = \<lparr>num_flying_wr = 1, wr_barrier_locked = True,
     threads = [\<lparr>done_evs = [BarrierLockPass, AtomicInc, EmulStart],
                 todo_evs = [UpdateAccessTime, DoBvec WRITE 8 4096 False, BioEndio 0,
                             EmulEnd [AccessTime NoDelay], AtomicDec, StatUpdate]\<rparr>,
                \<lparr>done_evs = [BarrierLock, WaitNoFlying, FlushBuffer 0],
                 todo_evs = [ClflushAll, BarrierUnlock, BarrierLockPass, AtomicInc,
                             EmulStart, BioEndio 0, EmulEnd [], AtomicDec, StatUpdate]\<rparr>]\<rparr>"
    by (simp add: s2_def e1 advance_def Let_def)
  have r3: "reachable cfg0 s3"
    unfolding s3_def by (rule reachable.exec [OF r2]) (simp_all add: e2)
  have e3: "s3 = \<lparr>num_flying_wr = 1, wr_barrier_locked = True,
     threads = [\<lparr>done_evs = [BarrierLockPass, AtomicInc, EmulStart, UpdateAccessTime],
                 todo_evs = [DoBvec WRITE 8 4096 False, BioEndio 0,
                             EmulEnd [AccessTime NoDelay], AtomicDec, StatUpdate]\<rparr>,
                \<lparr>done_evs = [BarrierLock, WaitNoFlying, FlushBuffer 0],
                 todo_evs = [ClflushAll, BarrierUnlock, BarrierLockPass, AtomicInc,
                             EmulStart, BioEndio 0, EmulEnd [], AtomicDec, StatUpdate]\<rparr>]\<rparr>"
    by (simp add: s3_def e2 advance_def Let_def)
  have "reachable cfg0 (advance 0 s3)"
    by (rule reachable.exec [OF r3]) (simp_all add: e3)
  then show ?thesis by (simp add: sys3_def s1_def s2_def s3_def)
qed

text \<open>
  Claim C10 (the counter equals the number of requests inside the dispatcher, so the
  barrier waits for every request in flight before it drains the buffers), at the
  interleaving of a write and a flush request. The write passes the barrier lock; the
  flush request takes the lock and reads the counter, which is still 0, so it leaves the
  spin loop; the write increments the counter. In the reachable state \<open>sys2\<close> two
  requests are inside the dispatcher and the counter is 1, and the flush request is
  about to flush buffer 0. In the reachable state \<open>sys3\<close> the barrier has flushed
  buffer 0 and still holds the barrier lock, and the write, in flight the whole time, has
  copied its segment after the flush.
\<close>

theorem barrier_drains_with_write_in_flight:
  "reachable cfg0 sys2 \<and> length (filter inside_dispatcher (threads sys2)) = 2 \<and>
   num_flying_wr sys2 = 1 \<and>
   done_evs (threads sys2 ! 0) = [BarrierLockPass, AtomicInc] \<and>
   done_evs (threads sys2 ! 1) = [BarrierLock, WaitNoFlying] \<and>
   hd (todo_evs (threads sys2 ! 1)) = FlushBuffer 0 \<and>
   reachable cfg0 sys3 \<and> wr_barrier_locked sys3 \<and> num_flying_wr sys3 = 1 \<and>
   done_evs (threads sys3 ! 1) = [BarrierLock, WaitNoFlying, FlushBuffer 0] \<and>
   done_evs (threads sys3 ! 0) =
     [BarrierLockPass, AtomicInc, EmulStart, UpdateAccessTime, DoBvec WRITE 8 4096 False] \<and>
   in_flight (threads sys3 ! 0) \<and> bi_dir bio_write4k = WRITE \<and> bi_flush bio_flush"
  using reachable_sys2 reachable_sys3
  by (simp add: sys2_eq sys3_eq inside_dispatcher_def in_flight_def bio_write4k_def bio_flush_def)

section \<open>Protected write path: theorems\<close>

subsection \<open>Copies\<close>

lemma memcpy_apply: "memcpy dst to src from n a = (if to \<le> a \<and> a < to + n then src (from + (a - to)) else dst a)"
  by (simp add: memcpy_def)

lemma mem_eq_iff: "mem_eq m1 o1 m2 o2 n \<longleftrightarrow> (\<forall>i<n. m1 (o1 + i) = m2 (o2 + i))"
  by (auto simp: mem_eq_def list_all_iff)

lemma mem_eq_memcpy: "mem_eq dst to src from n \<Longrightarrow> memcpy dst to src from n = dst"
proof (rule ext)
  fix a
  assume e: "mem_eq dst to src from n"
  show "memcpy dst to src from n a = dst a"
  proof (cases "to \<le> a \<and> a < to + n")
    case True
    then have "a - to < n" by arith
    with e have "dst (to + (a - to)) = src (from + (a - to))" by (simp add: mem_eq_iff)
    with True show ?thesis by (simp add: memcpy_apply)
  next
    case False
    then show ?thesis by (auto simp: memcpy_apply)
  qed
qed

lemma memcpy_chunks:
  "sz \<le> n \<Longrightarrow> memcpy (memcpy dst to src from sz) (to + sz) src (from + sz) (n - sz)
     = memcpy dst to src from n"
  by (rule ext) (auto simp: memcpy_apply)

text \<open>
  A copy into PM or out of PM either is one \<open>memcpy\<close> or panics in the non-temporal
  store, respectively load, which needs the option to be on.
\<close>

lemma memcpy_zero [simp]: "memcpy dst to src from 0 = dst"
  by (rule ext) (auto simp: memcpy_apply)

lemma nt_loop_memcpy:
  "nt_loop dst to src from i sz = (j, m) \<Longrightarrow> i \<le> j \<and> m = memcpy dst to src from (j - i)"
proof (induction dst to src "from" i sz arbitrary: j m rule: nt_loop.induct)
  case (1 dst to src "from" i sz)
  show ?case
  proof (cases "i < sz")
    case True
    then have "nt_loop (memcpy dst to src from 64) (to + 64) src (from + 64) (i + 64) sz = (j, m)"
      using "1.prems" by (subst (asm) nt_loop.simps) simp
    from "1.IH" [OF True this]
    have le: "i + 64 \<le> j" and m: "m = memcpy (memcpy dst to src from 64) (to + 64) src (from + 64) (j - (i + 64))"
      by simp_all
    have "64 \<le> j - i" using le by simp
    from memcpy_chunks [OF this, of dst to src "from"] m le show ?thesis by simp
  next
    case False
    then show ?thesis using "1.prems" by (subst (asm) nt_loop.simps) simp
  qed
qed

lemma nts_memcpy_cases:
  "nts_memcpy dst to src from sz = Inr (memcpy dst to src from sz) \<or>
   (\<exists>e. nts_memcpy dst to src from sz = Inl e \<and> nt_store_panic e)"
proof -
  obtain j m where l: "nt_loop dst to src from 0 sz = (j, m)" by (cases "nt_loop dst to src from 0 sz")
  from nt_loop_memcpy [OF l] have "m = memcpy dst to src from j" by simp
  then show ?thesis
    using l by (auto simp: nts_memcpy_def nts_memcpy_64bytes_v2_def nt_store_panic_def)
qed

lemma ntl_memcpy_cases:
  "ntl_memcpy dst to src from sz = Inr (memcpy dst to src from sz) \<or>
   (\<exists>e. ntl_memcpy dst to src from sz = Inl e \<and> nt_load_panic e)"
proof -
  obtain j m where l: "nt_loop dst to src from 0 sz = (j, m)" by (cases "nt_loop dst to src from 0 sz")
  from nt_loop_memcpy [OF l] have "m = memcpy dst to src from j" by simp
  then show ?thesis
    using l by (auto simp: ntl_memcpy_def ntl_memcpy_64bytes_def nt_load_panic_def)
qed

lemma MEMCPY_TO_PMBD_cases:
  "MEMCPY_TO_PMBD nts dst to src from sz = Inr (memcpy dst to src from sz) \<or>
   (nts \<and> (\<exists>e. MEMCPY_TO_PMBD nts dst to src from sz = Inl e \<and> nt_store_panic e))"
  using nts_memcpy_cases [of dst to src "from" sz] by (auto simp: MEMCPY_TO_PMBD_def)

lemma memcpy_to_pmbd_nopmap_cases:
  "memcpy_to_pmbd_nopmap nts sub dst to src from left = Inr (memcpy dst to src from left) \<or>
   (nts \<and> (\<exists>e. memcpy_to_pmbd_nopmap nts sub dst to src from left = Inl e \<and> nt_store_panic e))"
proof (induction nts sub dst to src "from" left rule: memcpy_to_pmbd_nopmap.induct)
  case (1 nts sub dst to src "from" left)
  show ?case
  proof (cases "left = 0")
    case True
    then show ?thesis by (subst memcpy_to_pmbd_nopmap.simps) simp
  next
    case False
    define sz where "sz = (if sub then min left 64 else left)"
    define r where "r = (if sub then
                       (if \<not> mem_eq dst to src from sz then MEMCPY_TO_PMBD nts dst to src from sz
                        else Inr dst)
                     else MEMCPY_TO_PMBD nts dst to src from sz)"
    have unf: "memcpy_to_pmbd_nopmap nts sub dst to src from left =
        (case r of Inl e \<Rightarrow> Inl e
         | Inr dst' \<Rightarrow> memcpy_to_pmbd_nopmap nts sub dst' (to + sz) src (from + sz) (left - sz))"
      using False
      by (subst memcpy_to_pmbd_nopmap.simps) (simp add: Let_def sz_def [symmetric] r_def [symmetric])
    have rc: "r = Inr (memcpy dst to src from sz) \<or> (nts \<and> (\<exists>e. r = Inl e \<and> nt_store_panic e))"
      using MEMCPY_TO_PMBD_cases [of nts dst to src "from" sz]
      by (auto simp: r_def mem_eq_memcpy)
    have le: "sz \<le> left" by (simp add: sz_def)
    from rc show ?thesis
    proof
      assume r: "r = Inr (memcpy dst to src from sz)"
      from "1.IH" [OF False sz_def r [unfolded r_def]] memcpy_chunks [OF le, of dst to src "from"]
      show ?thesis unfolding unf r by simp
    next
      assume "nts \<and> (\<exists>e. r = Inl e \<and> nt_store_panic e)"
      then show ?thesis unfolding unf by auto
    qed
  qed
qed

lemma memcpy_to_pmbd_cases:
  "ok_or (store_fail d) (memcpy_to_pmbd d to src from n)
     (d\<lparr>mem_space := memcpy (mem_space d) to src from n\<rparr>)"
  using memcpy_to_pmbd_nopmap_cases [of "use_nts d" "g_pmbd_subpage_update d" "mem_space d" to src "from" n]
  by (auto simp: ok_or_def store_fail_def memcpy_to_pmbd_def)

lemma memcpy_from_pmbd_cases:
  "ok_or (load_fail d) (memcpy_from_pmbd d dst to from n) (memcpy dst to (mem_space d) from n)"
  using ntl_memcpy_cases [of dst to "mem_space d" "from" n]
  by (auto simp: ok_or_def load_fail_def memcpy_from_pmbd_def MEMCPY_FROM_PMBD_def)

lemma ok_or_store_plain: "\<not> use_nts d \<Longrightarrow> ok_or (store_fail d) X s \<longleftrightarrow> X = Inr s"
  by (auto simp: ok_or_def store_fail_def)

lemma ok_or_load_plain: "\<not> use_ntl d \<Longrightarrow> ok_or (load_fail d) X s \<longleftrightarrow> X = Inr s"
  by (auto simp: ok_or_def load_fail_def)

lemma ok_or_nt_plain: "\<not> use_nts d \<Longrightarrow> \<not> use_ntl d \<Longrightarrow> ok_or (nt_fail d) X s \<longleftrightarrow> X = Inr s"
  by (auto simp: ok_or_def nt_fail_def store_fail_def load_fail_def)

lemma ok_or_mono: "ok_or P X s \<Longrightarrow> (\<And>e. P e \<Longrightarrow> Q e) \<Longrightarrow> ok_or Q X s"
  by (auto simp: ok_or_def)

lemma ok_or_Inr: "ok_or P X s \<Longrightarrow> X = Inr r \<Longrightarrow> r = s"
  by (auto simp: ok_or_def)

lemma ok_or_Inl: "ok_or P X s \<Longrightarrow> X = Inl e \<Longrightarrow> P e"
  by (auto simp: ok_or_def)

text \<open>Without non-temporal stores the copy into PM never panics and is one \<open>memcpy\<close>.\<close>

lemma memcpy_to_pmbd_nopmap_eq:
  "memcpy_to_pmbd_nopmap False sub dst to src from left = Inr (memcpy dst to src from left)"
proof (induction False sub dst to src "from" left rule: memcpy_to_pmbd_nopmap.induct)
  case (1 sub dst to src "from" left)
  show ?case
  proof (cases "left = 0")
    case True
    have "memcpy dst to src from 0 = dst" by (rule ext) (auto simp: memcpy_apply)
    then show ?thesis
      using True by (subst memcpy_to_pmbd_nopmap.simps) simp
  next
    case False
    define sz where "sz = (if sub then min left 64 else left)"
    define r where "r = (if sub then
                       (if \<not> mem_eq dst to src from sz then MEMCPY_TO_PMBD False dst to src from sz
                        else Inr dst)
                     else MEMCPY_TO_PMBD False dst to src from sz)"
    have r: "r = Inr (memcpy dst to src from sz)"
      by (simp add: r_def MEMCPY_TO_PMBD_def mem_eq_memcpy)
    have le: "sz \<le> left" by (simp add: sz_def)
    have "memcpy_to_pmbd_nopmap False sub dst to src from left
        = memcpy_to_pmbd_nopmap False sub (memcpy dst to src from sz) (to + sz) src (from + sz) (left - sz)"
      using False r
      by (subst memcpy_to_pmbd_nopmap.simps) (simp add: Let_def sz_def [symmetric] r_def [symmetric])
    also have "\<dots> = Inr (memcpy (memcpy dst to src from sz) (to + sz) src (from + sz) (left - sz))"
      using "1.hyps" [OF False sz_def r [unfolded r_def]] .
    also have "\<dots> = Inr (memcpy dst to src from left)"
      using le by (simp add: memcpy_chunks)
    finally show ?thesis .
  qed
qed

lemma memcpy_to_pmbd_eq:
  "\<not> use_nts d \<Longrightarrow>
   memcpy_to_pmbd d to src from n = Inr (d\<lparr>mem_space := memcpy (mem_space d) to src from n\<rparr>)"
  by (simp add: memcpy_to_pmbd_def memcpy_to_pmbd_nopmap_eq)

lemma memcpy_from_pmbd_eq:
  "\<not> use_ntl d \<Longrightarrow> memcpy_from_pmbd d dst to from n = Inr (memcpy dst to (mem_space d) from n)"
  by (simp add: memcpy_from_pmbd_def MEMCPY_FROM_PMBD_def)

subsection \<open>Field access through the macros\<close>

lemma total_pb_upd [simp]:
  "PMBD_TOTAL_PB_NUM (d\<lparr>mem_space := m\<rparr>) = PMBD_TOTAL_PB_NUM d"
  "PMBD_TOTAL_PB_NUM (d\<lparr>buffers := bs\<rparr>) = PMBD_TOTAL_PB_NUM d"
  "PMBD_TOTAL_PB_NUM (d\<lparr>pbi_space := ps\<rparr>) = PMBD_TOTAL_PB_NUM d"
  by (simp_all add: PMBD_TOTAL_PB_NUM_def PMBD_MEM_TOTAL_BYTES_def)

lemma buffer_id_upd [simp]:
  "PBN_TO_PMBD_BUFFER_ID (d\<lparr>mem_space := m\<rparr>) = PBN_TO_PMBD_BUFFER_ID d"
  "PBN_TO_PMBD_BUFFER_ID (d\<lparr>buffers := bs\<rparr>) = PBN_TO_PMBD_BUFFER_ID d"
  "PBN_TO_PMBD_BUFFER_ID (d\<lparr>pbi_space := ps\<rparr>) = PBN_TO_PMBD_BUFFER_ID d"
  by (simp_all add: PBN_TO_PMBD_BUFFER_ID_def fun_eq_iff)

lemmas macro_defs =
  upd_buffer_def upd_bbi_def PMBD_SET_BLOCK_BUFFERED_def PMBD_SET_BLOCK_UNBUFFERED_def
  PMBD_BUFFER_SET_BBI_CLEAN_def PMBD_BUFFER_SET_BBI_DIRTY_def PMBD_BUFFER_SET_BBI_BUFFERED_def
  PMBD_BUFFER_SET_BBI_UNBUFFERED_def PMBD_BLOCK_VADDR_def PMBD_BUFFER_BLOCK_def

lemma block_addr:
  assumes "0 < (pb::nat)"
  shows "pb * p \<le> a \<and> a < pb * p + pb \<longleftrightarrow> a div pb = p"
proof
  assume h: "pb * p \<le> a \<and> a < pb * p + pb"
  then have "a < pb * Suc p" by simp
  with assms have lt: "a div pb < Suc p" by (simp add: less_mult_imp_div_less mult.commute)
  have "p * pb \<le> a" using h by (simp add: mult.commute)
  with assms have "p \<le> a div pb" by (simp add: less_eq_div_iff_mult_less_eq)
  with lt show "a div pb = p" by simp
next
  assume "a div pb = p"
  then have p: "p = a div pb" by simp
  have "pb * (a div pb) \<le> a" by simp
  moreover have "a < pb * (a div pb) + pb"
    using assms by (metis add.commute dividend_less_times_div mult.commute)
  ultimately show "pb * p \<le> a \<and> a < pb * p + pb" unfolding p by simp
qed

lemma block_off: "a div pb = p \<Longrightarrow> a - pb * p = a mod (pb::nat)"
  by (metis minus_mult_div_eq_mod)

lemma flushable_inj:
  "flushable d k S \<Longrightarrow> p \<in> S \<Longrightarrow> q \<in> S \<Longrightarrow> pbi_space d p = pbi_space d q \<Longrightarrow> p = q"
  by (metis flushable_def)

lemma flushable_subset: "flushable d k S \<Longrightarrow> T \<subseteq> S \<Longrightarrow> flushable d k T"
  by (auto simp: flushable_def)

lemma flush_range_copy_gen:
  assumes "flushable d k (set ps)" and "distinct ps" and "0 < pb_size d"
  shows "ok_or (store_fail d) (flush_range_copy k ps d) (copy_spec k (set ps) d)"
  using assms
proof (induction ps arbitrary: d)
  case Nil
  then show ?case by (simp add: copy_spec_def ok_or_def)
next
  case (Cons p ps)
  define bbn where "bbn = pbi_space d p"
  define dm where "dm = d\<lparr>mem_space := memcpy (mem_space d) (PMBD_BLOCK_VADDR d p)
                          (buffer_space (buffers d k)) (PMBD_BUFFER_BLOCK d bbn) (pb_size d)\<rparr>"
  define d' where "d' = PMBD_BUFFER_SET_BBI_CLEAN k bbn dm"
  have fp: "PMBD_BLOCK_IS_BUFFERED d p" "dirty (bbi_space (buffers d k) bbn)"
    using Cons.prems(1) by (auto simp: flushable_def bbn_def)
  have unf: "flush_range_copy k (p # ps) d =
      (case memcpy_to_pmbd d (PMBD_BLOCK_VADDR d p) (buffer_space (buffers d k))
              (PMBD_BUFFER_BLOCK d bbn) (pb_size d) of
         Inl e \<Rightarrow> Inl e
       | Inr d1 \<Rightarrow> flush_range_copy k ps (PMBD_BUFFER_SET_BBI_CLEAN k bbn d1))"
    using fp unfolding bbn_def by (simp add: Let_def)
  have "ok_or (store_fail d) (memcpy_to_pmbd d (PMBD_BLOCK_VADDR d p) (buffer_space (buffers d k))
              (PMBD_BUFFER_BLOCK d bbn) (pb_size d)) dm"
    unfolding dm_def by (rule memcpy_to_pmbd_cases)
  then show ?case
    unfolding ok_or_def
  proof (elim disjE exE conjE)
    fix e
    assume "memcpy_to_pmbd d (PMBD_BLOCK_VADDR d p) (buffer_space (buffers d k))
              (PMBD_BUFFER_BLOCK d bbn) (pb_size d) = Inl e" and "store_fail d e"
    then show "flush_range_copy k (p # ps) d = Inr (copy_spec k (set (p # ps)) d) \<or>
               (\<exists>e. flush_range_copy k (p # ps) d = Inl e \<and> store_fail d e)"
      unfolding unf by simp
  next
    assume c: "memcpy_to_pmbd d (PMBD_BLOCK_VADDR d p) (buffer_space (buffers d k))
              (PMBD_BUFFER_BLOCK d bbn) (pb_size d) = Inr dm"
    have step: "flush_range_copy k (p # ps) d = flush_range_copy k ps d'"
      unfolding unf c d'_def by simp
    have ne: "pbi_space d q \<noteq> bbn" if "q \<in> set ps" for q
      using flushable_inj [OF Cons.prems(1), of q p] that Cons.prems(2) by (auto simp: bbn_def)
    have pbi': "pbi_space d' = pbi_space d"
      by (simp add: d'_def dm_def macro_defs)
    have fl: "flushable d' k (set ps)"
      using Cons.prems(1) ne
      by (auto simp: flushable_def d'_def dm_def macro_defs PMBD_BLOCK_IS_BUFFERED_def)
    have pb: "0 < pb_size d'" using Cons.prems(3) by (simp add: d'_def dm_def macro_defs)
    have sf: "store_fail d' = store_fail d"
      by (simp add: fun_eq_iff store_fail_def d'_def dm_def macro_defs)
    have ih: "ok_or (store_fail d) (flush_range_copy k ps d') (copy_spec k (set ps) d')"
      using Cons.IH [OF fl _ pb] Cons.prems(2) by (simp add: sf)
    have "copy_spec k (set ps) d' = copy_spec k (set (p # ps)) d"
    proof -
      have m: "mem_space (copy_spec k (set ps) d') = mem_space (copy_spec k (set (p # ps)) d)"
        using block_addr [OF Cons.prems(3)] block_off [of _ "pb_size d"]
        by (auto simp: copy_spec_def d'_def dm_def macro_defs fun_eq_iff memcpy_apply bbn_def)
      have b: "buffers (copy_spec k (set ps) d') = buffers (copy_spec k (set (p # ps)) d)"
        by (auto simp: copy_spec_def d'_def dm_def macro_defs fun_eq_iff bbn_def)
      show ?thesis
        by (rule pmbd_device.equality)
           (simp_all add: m b, simp_all add: copy_spec_def d'_def dm_def macro_defs)
    qed
    with ih show "flush_range_copy k (p # ps) d = Inr (copy_spec k (set (p # ps)) d) \<or>
               (\<exists>e. flush_range_copy k (p # ps) d = Inl e \<and> store_fail d e)"
      unfolding step ok_or_def by simp
  qed
qed

lemma flush_range_copy_spec:
  assumes "flushable d k (set ps)" and "distinct ps" and "0 < pb_size d" and "\<not> use_nts d"
  shows "flush_range_copy k ps d = Inr (copy_spec k (set ps) d)"
  using flush_range_copy_gen [OF assms(1-3)] assms(4) by (simp add: ok_or_store_plain)

subsection \<open>Flushing a run\<close>

lemma flush_range_unlink_spec:
  assumes "inj_on (pbi_space d) (set ps)" and "distinct ps"
    and "\<forall>p \<in> set ps. mem_eq (mem_space d) (pb_size d * p) (buffer_space (buffers d k))
            (pb_size d * pbi_space d p) (pb_size d)"
  shows "flush_range_unlink k ps d = Inr (unlink_spec k (set ps) d)"
  using assms
proof (induction ps arbitrary: d)
  case Nil
  then show ?case by (simp add: unlink_spec_def)
next
  case (Cons p ps)
  define bbn where "bbn = pbi_space d p"
  define d' where "d' = PMBD_SET_BLOCK_UNBUFFERED p (PMBD_BUFFER_SET_BBI_UNBUFFERED k bbn d)"
  have step: "flush_range_unlink k (p # ps) d = flush_range_unlink k ps d'"
    using Cons.prems(3)
    by (simp add: d'_def bbn_def Let_def pmbd_verify_wr_pages_def PMBD_BLOCK_VADDR_def PMBD_BUFFER_BLOCK_def)
  have pn: "p \<notin> set ps" using Cons.prems(2) by simp
  have pbi': "pbi_space d' q = pbi_space d q" if "q \<in> set ps" for q
    using that pn by (auto simp: d'_def macro_defs)
  have ne: "pbi_space d q \<noteq> bbn" if "q \<in> set ps" for q
    using Cons.prems(1) that pn by (auto simp: bbn_def inj_on_def)
  have inj: "inj_on (pbi_space d') (set ps)"
    using Cons.prems(1) pbi' by (auto simp: inj_on_def)
  have ver: "\<forall>q \<in> set ps. mem_eq (mem_space d') (pb_size d' * q) (buffer_space (buffers d' k))
            (pb_size d' * pbi_space d' q) (pb_size d')"
    using Cons.prems(3) pbi' by (simp add: d'_def macro_defs)
  have "flush_range_unlink k ps d' = Inr (unlink_spec k (set ps) d')"
    using Cons.IH [OF inj _ ver] Cons.prems(2) by simp
  moreover have "unlink_spec k (set ps) d' = unlink_spec k (set (p # ps)) d"
  proof -
    have im: "pbi_space d' ` set ps = pbi_space d ` set ps"
      using pbi' by (auto simp: image_iff)
    have pp: "pbi_space (unlink_spec k (set ps) d') = pbi_space (unlink_spec k (set (p # ps)) d)"
      using pbi' by (auto simp: unlink_spec_def fun_eq_iff) (auto simp: d'_def macro_defs)
    have b: "buffers (unlink_spec k (set ps) d') = buffers (unlink_spec k (set (p # ps)) d)"
      unfolding unlink_spec_def im using ne
      by (auto simp: d'_def macro_defs fun_eq_iff bbn_def)
    show ?thesis
      by (rule pmbd_device.equality)
         (simp_all add: pp b, simp_all add: unlink_spec_def d'_def macro_defs)
  qed
  ultimately show ?case using step by simp
qed

lemma flush_spec_two_passes:
  "flush_spec k S d = unlink_spec k S (copy_spec k S d)"
proof -
  have b: "buffers (flush_spec k S d) = buffers (unlink_spec k S (copy_spec k S d))"
    by (auto simp: flush_spec_def unlink_spec_def copy_spec_def fun_eq_iff)
  have p: "pbi_space (flush_spec k S d) = pbi_space (unlink_spec k S (copy_spec k S d))"
    by (auto simp: flush_spec_def unlink_spec_def copy_spec_def fun_eq_iff)
  show ?thesis
    by (rule pmbd_device.equality)
       (simp_all add: b p, simp_all add: flush_spec_def unlink_spec_def copy_spec_def)
qed

lemma copy_spec_mem_eq:
  assumes "0 < pb_size d" and "p \<in> S"
  shows "mem_eq (mem_space (copy_spec k S d)) (pb_size d * p) (buffer_space (buffers d k))
            (pb_size d * pbi_space d p) (pb_size d)"
proof -
  have "(pb_size d * p + i) div pb_size d = p \<and> (pb_size d * p + i) mod pb_size d = i"
    if "i < pb_size d" for i using that by simp
  then show ?thesis using assms(2) by (simp add: mem_eq_iff copy_spec_def)
qed

text \<open>
  \<open>_pmbd_buffer_flush_range\<close> on a run of blocks that are all buffered in the buffer,
  dirty and linked: unless a non-temporal store panics, it counts the blocks of the run
  and leaves the state described by \<open>flush_spec\<close>; it raises no other panic.
\<close>

lemma pmbd_buffer_flush_range_gen:
  assumes "flushable d k {pbn_s..pbn_e}" and "0 < pb_size d"
  shows "ok_or (store_fail d) (pmbd_buffer_flush_range d k pbn_s pbn_e)
           (Suc pbn_e - pbn_s, flush_spec k {pbn_s..pbn_e} d)"
proof -
  let ?ps = "[pbn_s..<Suc pbn_e]"
  have s: "set ?ps = {pbn_s..pbn_e}" by auto
  have c: "ok_or (store_fail d) (flush_range_copy k ?ps d) (copy_spec k {pbn_s..pbn_e} d)"
    using flush_range_copy_gen [of d k ?ps] assms by (simp only: s) simp
  let ?d1 = "copy_spec k {pbn_s..pbn_e} d"
  have inj: "inj_on (pbi_space ?d1) (set ?ps)"
    using flushable_inj [OF assms(1)] by (auto simp: inj_on_def copy_spec_def)
  have ver: "\<forall>p \<in> set ?ps. mem_eq (mem_space ?d1) (pb_size ?d1 * p) (buffer_space (buffers ?d1 k))
            (pb_size ?d1 * pbi_space ?d1 p) (pb_size ?d1)"
  proof
    fix p assume "p \<in> set ?ps"
    then have "p \<in> {pbn_s..pbn_e}" by auto
    from copy_spec_mem_eq [OF assms(2) this, of k]
    show "mem_eq (mem_space ?d1) (pb_size ?d1 * p) (buffer_space (buffers ?d1 k))
            (pb_size ?d1 * pbi_space ?d1 p) (pb_size ?d1)"
      by (simp add: copy_spec_def)
  qed
  have u: "flush_range_unlink k ?ps ?d1 = Inr (unlink_spec k {pbn_s..pbn_e} ?d1)"
    using flush_range_unlink_spec [OF inj _ ver] by (simp only: s) simp
  from c show ?thesis
    unfolding ok_or_def
  proof (elim disjE exE conjE)
    assume "flush_range_copy k ?ps d = Inr ?d1"
    then have "pmbd_buffer_flush_range d k pbn_s pbn_e =
                 Inr (Suc pbn_e - pbn_s, flush_spec k {pbn_s..pbn_e} d)"
      by (simp add: pmbd_buffer_flush_range_def u flush_spec_two_passes del: upt_Suc)
    then show "pmbd_buffer_flush_range d k pbn_s pbn_e =
                 Inr (Suc pbn_e - pbn_s, flush_spec k {pbn_s..pbn_e} d) \<or>
               (\<exists>e. pmbd_buffer_flush_range d k pbn_s pbn_e = Inl e \<and> store_fail d e)" ..
  next
    fix e assume "flush_range_copy k ?ps d = Inl e" and "store_fail d e"
    then show "pmbd_buffer_flush_range d k pbn_s pbn_e =
                 Inr (Suc pbn_e - pbn_s, flush_spec k {pbn_s..pbn_e} d) \<or>
               (\<exists>e. pmbd_buffer_flush_range d k pbn_s pbn_e = Inl e \<and> store_fail d e)"
      by (simp add: pmbd_buffer_flush_range_def del: upt_Suc)
  qed
qed

lemma pmbd_buffer_flush_range_spec:
  assumes "flushable d k {pbn_s..pbn_e}" and "0 < pb_size d" and "\<not> use_nts d"
  shows "pmbd_buffer_flush_range d k pbn_s pbn_e =
           Inr (Suc pbn_e - pbn_s, flush_spec k {pbn_s..pbn_e} d)"
  using pmbd_buffer_flush_range_gen [OF assms(1,2)] assms(3) by (simp add: ok_or_store_plain)
subsection \<open>Composition of flushed ranges and the run-forming walk\<close>

lemma flush_spec_fields [simp]:
  "pb_size (flush_spec k S d) = pb_size d"
  "sector_size (flush_spec k S d) = sector_size d"
  "num_sectors (flush_spec k S d) = num_sectors d"
  "bufmode (flush_spec k S d) = bufmode d"
  "wpmode (flush_spec k S d) = wpmode d"
  "num_buffers (flush_spec k S d) = num_buffers d"
  "buffer_stride (flush_spec k S d) = buffer_stride d"
  "g_pmbd_wr_verify (flush_spec k S d) = g_pmbd_wr_verify d"
  "g_pmbd_subpage_update (flush_spec k S d) = g_pmbd_subpage_update d"
  "use_nts (flush_spec k S d) = use_nts d" "use_ntl (flush_spec k S d) = use_ntl d"
  "PMBD_TOTAL_PB_NUM (flush_spec k S d) = PMBD_TOTAL_PB_NUM d"
  "PBN_TO_PMBD_BUFFER_ID (flush_spec k S d) = PBN_TO_PMBD_BUFFER_ID d"
  by (simp_all add: flush_spec_def)

lemma flush_spec_pbi:
  "pbi_space (flush_spec k S d) q = (if q \<in> S then PMBD_TOTAL_PB_NUM d + 3 else pbi_space d q)"
  by (simp add: flush_spec_def)

lemma flush_spec_mem:
  "mem_space (flush_spec k S d) a =
     (if a div pb_size d \<in> S
      then buffer_space (buffers d k) (pb_size d * pbi_space d (a div pb_size d) + a mod pb_size d)
      else mem_space d a)"
  by (simp add: flush_spec_def)

lemma flush_spec_buffers_other: "k' \<noteq> k \<Longrightarrow> buffers (flush_spec k S d) k' = buffers d k'"
  by (simp add: flush_spec_def)

lemma flush_spec_buffer_fields [simp]:
  "num_blocks (buffers (flush_spec k S d) k') = num_blocks (buffers d k')"
  "buffer_space (buffers (flush_spec k S d) k') = buffer_space (buffers d k')"
  "num_dirty (buffers (flush_spec k S d) k') = num_dirty (buffers d k')"
  "pos_dirty (buffers (flush_spec k S d) k') = pos_dirty (buffers d k')"
  "pos_clean (buffers (flush_spec k S d) k') = pos_clean (buffers d k')"
  "batch_size (buffers (flush_spec k S d) k') = batch_size (buffers d k')"
  by (simp_all add: flush_spec_def)

lemma flush_spec_bbi:
  "bbi_space (buffers (flush_spec k S d) k') j =
     (if k' = k \<and> j \<in> pbi_space d ` S then \<lparr>pbn = PMBD_TOTAL_PB_NUM d + 2, dirty = False\<rparr>
      else bbi_space (buffers d k') j)"
  by (simp add: flush_spec_def)

lemma flush_spec_empty [simp]: "flush_spec k {} d = d"
  by (rule pmbd_device.equality) (simp_all add: flush_spec_def)

lemma flush_spec_compose:
  assumes "A \<inter> B = {}"
  shows "flush_spec k B (flush_spec k A d) = flush_spec k (A \<union> B) d"
proof -
  have pbiB: "pbi_space (flush_spec k A d) q = pbi_space d q" if "q \<in> B" for q
    using that assms by (auto simp: flush_spec_pbi)
  then have im: "pbi_space (flush_spec k A d) ` B = pbi_space d ` B" by (auto simp: image_iff)
  have m: "mem_space (flush_spec k B (flush_spec k A d)) = mem_space (flush_spec k (A \<union> B) d)"
    using pbiB by (auto simp: fun_eq_iff flush_spec_mem)
  have p: "pbi_space (flush_spec k B (flush_spec k A d)) = pbi_space (flush_spec k (A \<union> B) d)"
    by (auto simp: fun_eq_iff flush_spec_pbi)
  have b: "buffers (flush_spec k B (flush_spec k A d)) = buffers (flush_spec k (A \<union> B) d)"
  proof (rule ext)
    fix k'
    have "bbi_space (buffers (flush_spec k B (flush_spec k A d)) k')
        = bbi_space (buffers (flush_spec k (A \<union> B) d) k')"
      by (rule ext) (auto simp: flush_spec_bbi im image_Un)
    then show "buffers (flush_spec k B (flush_spec k A d)) k' = buffers (flush_spec k (A \<union> B) d) k'"
      by (intro pmbd_buffer.equality) simp_all
  qed
  show ?thesis
    by (rule pmbd_device.equality) (simp_all add: m p b)
qed

lemma flushable_after:
  assumes "flushable d k (A \<union> B)" and "A \<inter> B = {}"
  shows "flushable (flush_spec k A d) k B"
proof -
  have "pbi_space d p \<notin> pbi_space d ` A" if "p \<in> B" for p
  proof
    assume "pbi_space d p \<in> pbi_space d ` A"
    then obtain q where q: "q \<in> A" "pbi_space d p = pbi_space d q" by auto
    with flushable_inj [OF assms(1), of p q] that have "p = q" by auto
    with q that assms(2) show False by auto
  qed
  then show ?thesis
    using assms by (auto simp: flushable_def PMBD_BLOCK_IS_BUFFERED_def flush_spec_pbi flush_spec_bbi)
qed

text \<open>
  The walk over the entries: \<open>first_pbn..last_pbn\<close> is the run that is open, and the
  remaining entries hold distinct blocks outside the run, each entry naming the slot of
  its block.
\<close>

lemma store_fail_cong: "use_nts d' = use_nts d \<Longrightarrow> store_fail d' = store_fail d"
  by (simp add: fun_eq_iff store_fail_def)

lemma flush_runs_gen:
  assumes "flushable d k ({f..l} \<union> set (map se_pbn es))"
    and "distinct (map se_pbn es)" and "set (map se_pbn es) \<inter> {f..l} = {}" and "f \<le> l"
    and "\<forall>e \<in> set es. pbi_space d (se_pbn e) = se_bbn e"
    and "0 < pb_size d"
  shows "ok_or (store_fail d) (flush_runs d k f l es n)
           (n + (Suc l - f) + length es, flush_spec k ({f..l} \<union> set (map se_pbn es)) d)"
  using assms
proof (induction es arbitrary: d f l n)
  case Nil
  have "flushable d k {f..l}" using Nil.prems(1) by simp
  from pmbd_buffer_flush_range_gen [OF this Nil.prems(6)] show ?case
    by (auto simp: ok_or_def)
next
  case (Cons e es)
  let ?P = "set (map se_pbn es)"
  have fe: "PMBD_BLOCK_IS_BUFFERED d (se_pbn e)" "pbn (bbi_space (buffers d k) (pbi_space d (se_pbn e))) = se_pbn e"
    using Cons.prems(1) by (auto simp: flushable_def)
  have pe: "pbn (bbi_space (buffers d k) (se_bbn e)) = se_pbn e"
    using fe(2) Cons.prems(5) by simp
  show ?case
  proof (cases "se_pbn e = l + 1")
    case True
    have s: "{f..l} \<union> set (map se_pbn (e # es)) = {f..se_pbn e} \<union> ?P"
      using True Cons.prems(4) by auto
    have fl: "flushable d k ({f..se_pbn e} \<union> ?P)" using Cons.prems(1) unfolding s .
    have n3: "\<not> (f \<le> x \<and> x \<le> l)" if "x \<in> ?P" for x
      using Cons.prems(3) that by auto
    have "se_pbn e \<notin> ?P" using Cons.prems(2) by simp
    have dj: "?P \<inter> {f..se_pbn e} = {}"
    proof (rule Int_emptyI)
      fix x assume x: "x \<in> ?P" and "x \<in> {f..se_pbn e}"
      then have x2: "f \<le> x" "x \<le> se_pbn e" by simp_all
      from n3 [OF x] x2(1) have "l < x" by simp
      with x2(2) True have "x = se_pbn e" by simp
      with x \<open>se_pbn e \<notin> ?P\<close> show False by simp
    qed
    have ih: "ok_or (store_fail d) (flush_runs d k f (se_pbn e) es n)
       (n + (Suc (se_pbn e) - f) + length es, flush_spec k ({f..se_pbn e} \<union> ?P) d)"
      using Cons.IH [OF fl _ dj] Cons.prems(2,4,5,6) True by simp
    have cnt: "n + (Suc (se_pbn e) - f) + length es = n + (Suc l - f) + length (e # es)"
      using True Cons.prems(4) by simp
    have "flush_runs d k f l (e # es) n = flush_runs d k f (se_pbn e) es n"
      using True pe by (simp add: Let_def)
    with ih show ?thesis unfolding cnt s [symmetric] by simp
  next
    case False
    let ?d1 = "flush_spec k {f..l} d"
    have f1: "flushable d k {f..l}" using Cons.prems(1) by (auto simp: flushable_def)
    have r: "ok_or (store_fail d) (pmbd_buffer_flush_range d k f l) (Suc l - f, ?d1)"
      using pmbd_buffer_flush_range_gen [OF f1 Cons.prems(6)] .
    have unf: "flush_runs d k f l (e # es) n =
        (case pmbd_buffer_flush_range d k f l of
           Inl e \<Rightarrow> Inl e
         | Inr (c, d') \<Rightarrow> flush_runs d' k (se_pbn e) (se_pbn e) es (n + c))"
      using False pe by (simp add: Let_def)
    let ?p = "se_pbn e"
    have dj0: "{f..l} \<inter> ({?p..?p} \<union> ?P) = {}" using Cons.prems(3) by auto
    have un: "{f..l} \<union> ({?p..?p} \<union> ?P) = {f..l} \<union> set (map se_pbn (e # es))" by auto
    have fl: "flushable ?d1 k ({?p..?p} \<union> ?P)"
      using flushable_after [of d k "{f..l}" "{?p..?p} \<union> ?P"] Cons.prems(1) dj0 un by simp
    have dj: "?P \<inter> {?p..?p} = {}" using Cons.prems(2) by auto
    have pbi1: "\<forall>e' \<in> set es. pbi_space ?d1 (se_pbn e') = se_bbn e'"
      using Cons.prems(3,5) by (auto simp: flush_spec_pbi)
    have sf: "store_fail ?d1 = store_fail d" by (rule store_fail_cong) simp
    have ih: "ok_or (store_fail d) (flush_runs ?d1 k ?p ?p es (n + (Suc l - f)))
       (n + (Suc l - f) + (Suc ?p - ?p) + length es, flush_spec k ({?p..?p} \<union> ?P) ?d1)"
      using Cons.IH [OF fl _ dj _ pbi1] Cons.prems(2,6) by (simp add: sf)
    have eq: "flush_spec k ({?p..?p} \<union> ?P) ?d1 = flush_spec k ({f..l} \<union> set (map se_pbn (e # es))) d"
      using flush_spec_compose [OF dj0, of k d] un by simp
    from r show ?thesis
      unfolding ok_or_def [of _ "pmbd_buffer_flush_range d k f l"]
    proof (elim disjE exE conjE)
      assume "pmbd_buffer_flush_range d k f l = Inr (Suc l - f, ?d1)"
      then have "flush_runs d k f l (e # es) n = flush_runs ?d1 k ?p ?p es (n + (Suc l - f))"
        unfolding unf by simp
      with ih eq show ?thesis by simp
    next
      fix x assume "pmbd_buffer_flush_range d k f l = Inl x" and "store_fail d x"
      then show ?thesis unfolding unf by (simp add: ok_or_def)
    qed
  qed
qed

lemma flush_runs_spec:
  assumes "flushable d k ({f..l} \<union> set (map se_pbn es))"
    and "distinct (map se_pbn es)" and "set (map se_pbn es) \<inter> {f..l} = {}" and "f \<le> l"
    and "\<forall>e \<in> set es. pbi_space d (se_pbn e) = se_bbn e"
    and "0 < pb_size d" and "\<not> use_nts d"
  shows "flush_runs d k f l es n =
           Inr (n + (Suc l - f) + length es, flush_spec k ({f..l} \<union> set (map se_pbn es)) d)"
  using flush_runs_gen [OF assms(1-6)] assms(7) by (simp add: ok_or_store_plain)
subsection \<open>The scan of the dirty window\<close>

lemma next_prio_pos:
  "0 < num_blocks b \<Longrightarrow> c < num_blocks b \<Longrightarrow>
   PMBD_BUFFER_NEXT_POS b (PMBD_BUFFER_PRIO_POS b c) = c"
  by (auto simp: PMBD_BUFFER_NEXT_POS_def PMBD_BUFFER_PRIO_POS_def)

lemma next_pos_mod:
  "0 < num_blocks b \<Longrightarrow> PMBD_BUFFER_NEXT_POS b (x mod num_blocks b) = Suc x mod num_blocks b"
  by (auto simp: PMBD_BUFFER_NEXT_POS_def mod_Suc)

lemma mod_add_inj:
  fixes i j :: nat
  assumes "i < n" "j < n" "(a + i) mod n = (a + j) mod n"
  shows "i = j"
proof -
  have aux: "x = y" if "x \<le> y" "y < n" "(a + x) mod n = (a + y) mod n" for x y
  proof -
    have "n dvd (a + y) - (a + x)"
      using that(1,3) mod_eq_dvd_iff_nat [of "a + x" "a + y" n] by simp
    then have "n dvd y - x" by simp
    moreover have "y - x < n" using that(2) by simp
    ultimately have "y - x = 0" using nat_dvd_not_less by blast
    then show ?thesis using that(1) by simp
  qed
  show ?thesis
  proof (cases "i \<le> j")
    case True then show ?thesis using aux [of i j] assms by simp
  next
    case False then show ?thesis using aux [of j i] assms by simp
  qed
qed

lemma window_slot_inj:
  "i < num_blocks b \<Longrightarrow> j < num_blocks b \<Longrightarrow> window_slot b i = window_slot b j \<Longrightarrow> i = j"
  unfolding window_slot_def by (rule mod_add_inj)

lemma in_dirty_segment_window:
  "in_dirty_segment b j \<longleftrightarrow> (\<exists>i<num_dirty b. j = window_slot b i)"
  by (simp add: in_dirty_segment_def window_slot_def)

lemma flush_scan_window:
  assumes n: "0 < num_blocks b" and m: "m \<le> num_dirty b" and nd: "num_dirty b \<le> num_blocks b"
    and pc: "pos_clean b = window_slot b (num_dirty b)"
    and dirty: "\<forall>i<num_dirty b. dirty (bbi_space b (window_slot b i))"
    and j: "j < m"
  shows "flush_scan b (PMBD_BUFFER_PRIO_POS b (pos_clean b)) m (window_slot b j) (map (window_entry b) [0..<j])
         = Inr (map (window_entry b) [0..<m])"
  using j
proof (induction "m - j" arbitrary: j)
  case 0
  then show ?case by simp
next
  case (Suc x)
  have pcl: "pos_clean b < num_blocks b" using pc n by (simp add: window_slot_def)
  have nx: "PMBD_BUFFER_NEXT_POS b (PMBD_BUFFER_PRIO_POS b (pos_clean b)) = pos_clean b"
    using next_prio_pos [OF n pcl] .
  have cond: "window_slot b j \<noteq> pos_clean b \<or> j = 0"
  proof (cases "num_dirty b = num_blocks b")
    case True
    have "window_slot b (num_blocks b) = window_slot b 0" by (simp add: window_slot_def)
    then have "window_slot b j = pos_clean b \<Longrightarrow> j = 0"
      using window_slot_inj [of j b 0] Suc.prems m nd n pc True by simp
    then show ?thesis by blast
  next
    case False
    then have "window_slot b j \<noteq> window_slot b (num_dirty b)"
      using window_slot_inj [of j b "num_dirty b"] Suc.prems m nd by auto
    then show ?thesis using pc by simp
  qed
  have dj: "dirty (bbi_space b (window_slot b j))" using dirty Suc.prems m by simp
  have app: "map (window_entry b) [0..<j] @ [\<lparr>se_bbn = window_slot b j, se_pbn = pbn (bbi_space b (window_slot b j))\<rparr>]
             = map (window_entry b) [0..<Suc j]"
    by (simp add: window_entry_def)
  have nxt: "PMBD_BUFFER_NEXT_POS b (window_slot b j) = window_slot b (Suc j)"
    using next_pos_mod [OF n] by (simp add: window_slot_def)
  show ?case
  proof (cases "Suc j < m")
    case True
    have "flush_scan b (PMBD_BUFFER_PRIO_POS b (pos_clean b)) m (window_slot b j) (map (window_entry b) [0..<j])
          = flush_scan b (PMBD_BUFFER_PRIO_POS b (pos_clean b)) m (window_slot b (Suc j)) (map (window_entry b) [0..<Suc j])"
      using cond dj True nxt
      by (subst flush_scan.simps) (simp only: nx app Let_def, simp)
    also have "\<dots> = Inr (map (window_entry b) [0..<m])"
      using Suc.hyps(1) [of "Suc j"] Suc.hyps(2) True by simp
    finally show ?thesis .
  next
    case False
    then have "Suc j = m" using Suc.prems by simp
    then show ?thesis
      using cond dj
      by (subst flush_scan.simps) (simp only: nx app Let_def, simp)
  qed
qed
subsection \<open>The flush of a buffer in closed form\<close>

lemma buffer_wf_window:
  assumes "buffer_wf d k" "i < num_dirty (buffers d k)"
  shows "dirty (bbi_space (buffers d k) (window_slot (buffers d k) i))"
    and "pbn (bbi_space (buffers d k) (window_slot (buffers d k) i)) < PMBD_TOTAL_PB_NUM d"
    and "PBN_TO_PMBD_BUFFER_ID d (pbn (bbi_space (buffers d k) (window_slot (buffers d k) i))) = k"
    and "pbi_space d (pbn (bbi_space (buffers d k) (window_slot (buffers d k) i))) = window_slot (buffers d k) i"
    and "window_slot (buffers d k) i < num_blocks (buffers d k)"
proof -
  have "in_dirty_segment (buffers d k) (window_slot (buffers d k) i)"
    using assms(2) by (auto simp: in_dirty_segment_window)
  then show "dirty (bbi_space (buffers d k) (window_slot (buffers d k) i))"
    and "pbn (bbi_space (buffers d k) (window_slot (buffers d k) i)) < PMBD_TOTAL_PB_NUM d"
    and "PBN_TO_PMBD_BUFFER_ID d (pbn (bbi_space (buffers d k) (window_slot (buffers d k) i))) = k"
    and "pbi_space d (pbn (bbi_space (buffers d k) (window_slot (buffers d k) i))) = window_slot (buffers d k) i"
    using assms(1) by (simp_all add: buffer_wf_def Let_def)
  show "window_slot (buffers d k) i < num_blocks (buffers d k)"
    using assms(1) by (simp add: buffer_wf_def Let_def window_slot_def)
qed

lemma buffer_wf_fields:
  assumes "buffer_wf d k"
  shows "0 < num_blocks (buffers d k)" "num_blocks (buffers d k) \<le> PMBD_TOTAL_PB_NUM d + 3"
    "0 < batch_size (buffers d k)" "num_dirty (buffers d k) \<le> num_blocks (buffers d k)"
    "pos_dirty (buffers d k) < num_blocks (buffers d k)"
    "pos_clean (buffers d k) = window_slot (buffers d k) (num_dirty (buffers d k))"
  using assms by (simp_all add: buffer_wf_def Let_def window_slot_def)

lemma window_pbn_inj:
  assumes wf: "buffer_wf d k" and i: "i < num_dirty (buffers d k)" and j: "j < num_dirty (buffers d k)"
    and eq: "pbn (bbi_space (buffers d k) (window_slot (buffers d k) i)) =
             pbn (bbi_space (buffers d k) (window_slot (buffers d k) j))"
  shows "i = j"
proof -
  have "window_slot (buffers d k) i =
        pbi_space d (pbn (bbi_space (buffers d k) (window_slot (buffers d k) i)))"
    by (rule buffer_wf_window(4) [OF wf i, symmetric])
  also have "\<dots> = pbi_space d (pbn (bbi_space (buffers d k) (window_slot (buffers d k) j)))"
    by (rule arg_cong [OF eq])
  also have "\<dots> = window_slot (buffers d k) j"
    by (rule buffer_wf_window(4) [OF wf j])
  finally have "window_slot (buffers d k) i = window_slot (buffers d k) j" .
  moreover have "i < num_blocks (buffers d k)" "j < num_blocks (buffers d k)"
    using i j buffer_wf_fields(4) [OF wf] by linarith+
  ultimately show ?thesis by (metis window_slot_inj)
qed

lemma dirty_window_flushable:
  assumes wf: "buffer_wf d k" and m: "m \<le> num_dirty (buffers d k)"
  shows "flushable d k (dirty_window (buffers d k) m)"
  unfolding flushable_def dirty_window_def
proof (intro ballI)
  fix p assume "p \<in> (\<lambda>i. pbn (bbi_space (buffers d k) (window_slot (buffers d k) i))) ` {..<m}"
  then obtain i where i: "i < m" and p: "p = pbn (bbi_space (buffers d k) (window_slot (buffers d k) i))"
    by auto
  have il: "i < num_dirty (buffers d k)" using i m by simp
  note w = buffer_wf_window [OF wf il]
  show "PMBD_BLOCK_IS_BUFFERED d p \<and> dirty (bbi_space (buffers d k) (pbi_space d p)) \<and>
        pbn (bbi_space (buffers d k) (pbi_space d p)) = p"
    using w p by (simp add: PMBD_BLOCK_IS_BUFFERED_def)
qed

lemma window_entries:
  assumes wf: "buffer_wf d k" and m: "m \<le> num_dirty (buffers d k)"
  shows "set (map se_pbn (map (window_entry (buffers d k)) [0..<m])) = dirty_window (buffers d k) m"
    and "distinct (map se_pbn (map (window_entry (buffers d k)) [0..<m]))"
    and "\<forall>e \<in> set (map (window_entry (buffers d k)) [0..<m]).
           pbi_space d (se_pbn e) = se_bbn e \<and> pbn (bbi_space (buffers d k) (se_bbn e)) = se_pbn e"
proof -
  show "set (map se_pbn (map (window_entry (buffers d k)) [0..<m])) = dirty_window (buffers d k) m"
    by (auto simp: dirty_window_def window_entry_def)
  have "inj_on (\<lambda>i. pbn (bbi_space (buffers d k) (window_slot (buffers d k) i))) {..<m}"
    using window_pbn_inj [OF wf] m by (auto simp: inj_on_def)
  then show "distinct (map se_pbn (map (window_entry (buffers d k)) [0..<m]))"
    by (simp add: distinct_map window_entry_def comp_def atLeast0LessThan)
  show "\<forall>e \<in> set (map (window_entry (buffers d k)) [0..<m]).
           pbi_space d (se_pbn e) = se_bbn e \<and> pbn (bbi_space (buffers d k) (se_bbn e)) = se_pbn e"
    using buffer_wf_window(4) [OF wf] m by (auto simp: window_entry_def)
qed

lemma flush_result_zero:
  assumes "pos_dirty (buffers d k) < num_blocks (buffers d k)"
  shows "flush_result d k 0 = d"
proof -
  have "(buffers d k)\<lparr>pos_dirty := pos_dirty (buffers d k) mod num_blocks (buffers d k),
           num_dirty := num_dirty (buffers d k)\<rparr> = buffers d k"
    using assms by simp
  then show ?thesis
    by (simp add: flush_result_def dirty_window_def upd_buffer_def PMBD_BUFFER_NEXT_N_POS_def)
qed

lemma sorted_entries:
  assumes "srt = (if c then sort_key se_pbn es else es)"
  shows "length srt = length es" "set srt = set es"
    "distinct (map se_pbn srt) \<longleftrightarrow> distinct (map se_pbn es)"
  using assms by (auto simp: distinct_map)

lemma pmbd_buffer_flush_gen:
  assumes wf: "buffer_wf d k" and pb: "0 < pb_size d"
  shows "ok_or (store_fail d) (pmbd_buffer_flush d k n)
           (min n (num_dirty (buffers d k)), flush_result d k (min n (num_dirty (buffers d k))))"
proof -
  define b where "b = buffers d k"
  define m where "m = min n (num_dirty b)"
  note f = buffer_wf_fields [OF wf, folded b_def]
  have clamp: "(if n > num_dirty b then num_dirty b else n) = m" by (simp add: m_def min_def)
  show ?thesis
  proof (cases "m = 0")
    case True
    then have "PMBD_BUFFER_IS_EMPTY b \<or> m = 0" by simp
    then have "pmbd_buffer_flush d k n = Inr (0, d)"
      unfolding pmbd_buffer_flush_def Let_def b_def [symmetric] clamp by simp
    then show ?thesis
      using True flush_result_zero [of d k] f(5) by (simp add: m_def b_def ok_or_def)
  next
    case False
    then have m0: "0 < m" and mle: "m \<le> num_dirty b" by (simp_all add: m_def)
    have ne: "\<not> (PMBD_BUFFER_IS_EMPTY b \<or> m = 0)"
      using m0 mle by (simp add: PMBD_BUFFER_IS_EMPTY_def)
    define es where "es = map (window_entry b) [0..<m]"
    have dirty: "\<forall>i<num_dirty b. dirty (bbi_space b (window_slot b i))"
      using buffer_wf_window(1) [OF wf] by (simp add: b_def)
    have s0: "window_slot b 0 = pos_dirty b" using f(5) by (simp add: window_slot_def)
    have scan: "flush_scan b (PMBD_BUFFER_PRIO_POS b (pos_clean b)) m (pos_dirty b) [] = Inr es"
      using flush_scan_window [OF f(1) mle f(4) f(6) dirty m0] by (simp add: s0 es_def)
    have len: "length es = m" by (simp add: es_def)
    define srt where "srt = (if PMBD_DEV_USE_WPMODE_PTE d then sort_key se_pbn es else es)"
    note so = sorted_entries [OF srt_def]
    have we: "set (map se_pbn es) = dirty_window b m" "distinct (map se_pbn es)"
      "\<forall>e \<in> set es. pbi_space d (se_pbn e) = se_bbn e \<and> pbn (bbi_space b (se_bbn e)) = se_pbn e"
      using window_entries [OF wf mle [unfolded b_def]] unfolding es_def b_def by blast+
    from so(1) len m0 obtain e0 rest where sr: "srt = e0 # rest" by (cases srt) auto
    have e0: "e0 \<in> set es" and rest: "set rest \<subseteq> set es" using so(2) sr by auto
    have p0: "pbn (bbi_space b (se_bbn e0)) = se_pbn e0" using we(3) e0 by blast
    have S: "{se_pbn e0..se_pbn e0} \<union> set (map se_pbn rest) = dirty_window b m"
      using we(1) so(2) sr by (metis atLeastAtMost_singleton insert_is_Un list.simps(15) list.simps(9) set_map)
    have dist: "distinct (map se_pbn (e0 # rest))" using so(3) we(2) sr by simp
    have fl: "flushable d k ({se_pbn e0..se_pbn e0} \<union> set (map se_pbn rest))"
      unfolding S using dirty_window_flushable [OF wf mle [unfolded b_def]] by (simp add: b_def)
    have pr: "\<forall>e \<in> set rest. pbi_space d (se_pbn e) = se_bbn e" using we(3) rest by blast
    have runs: "ok_or (store_fail d) (flush_runs d k (se_pbn e0) (se_pbn e0) rest 0)
                  (m, flush_spec k (dirty_window b m) d)"
    proof -
      have "ok_or (store_fail d) (flush_runs d k (se_pbn e0) (se_pbn e0) rest 0)
            (0 + (Suc (se_pbn e0) - se_pbn e0) + length rest,
                 flush_spec k ({se_pbn e0..se_pbn e0} \<union> set (map se_pbn rest)) d)"
        using dist by (intro flush_runs_gen [OF fl _ _ _ pr pb]) auto
      moreover have "0 + (Suc (se_pbn e0) - se_pbn e0) + length rest = m"
        using so(1) len sr by simp
      ultimately show ?thesis by (simp only: S)
    qed
    have unf: "pmbd_buffer_flush d k n =
        (case flush_runs d k (se_pbn e0) (se_pbn e0) rest 0 of
           Inl e \<Rightarrow> Inl e
         | Inr (num_cleaned, d') \<Rightarrow>
             Inr (num_cleaned,
                  upd_buffer k (\<lambda>b'. b'\<lparr>pos_dirty := PMBD_BUFFER_NEXT_N_POS b' (pos_dirty b) num_cleaned,
                                           num_dirty := num_dirty b' - num_cleaned\<rparr>) d'))"
      unfolding pmbd_buffer_flush_def Let_def b_def [symmetric] clamp
      using ne scan len m0 sr p0
      by (simp add: srt_def [symmetric])
    from runs show ?thesis
      unfolding ok_or_def [of _ "flush_runs d k (se_pbn e0) (se_pbn e0) rest 0"]
    proof (elim disjE exE conjE)
      assume "flush_runs d k (se_pbn e0) (se_pbn e0) rest 0 = Inr (m, flush_spec k (dirty_window b m) d)"
      then have "pmbd_buffer_flush d k n =
          Inr (m, upd_buffer k (\<lambda>b'. b'\<lparr>pos_dirty := PMBD_BUFFER_NEXT_N_POS b' (pos_dirty b) m,
                                             num_dirty := num_dirty b' - m\<rparr>)
                    (flush_spec k (dirty_window b m) d))"
        unfolding unf by simp
      then show ?thesis by (simp add: flush_result_def m_def b_def ok_or_def)
    next
      fix x assume "flush_runs d k (se_pbn e0) (se_pbn e0) rest 0 = Inl x" and "store_fail d x"
      then show ?thesis unfolding unf by (simp add: ok_or_def)
    qed
  qed
qed

lemma pmbd_buffer_flush_spec:
  assumes wf: "buffer_wf d k" and pb: "0 < pb_size d" and nts: "\<not> use_nts d"
  shows "pmbd_buffer_flush d k n =
           Inr (min n (num_dirty (buffers d k)), flush_result d k (min n (num_dirty (buffers d k))))"
  using pmbd_buffer_flush_gen [OF wf pb] nts by (simp add: ok_or_store_plain)
subsection \<open>The state after a flush\<close>

lemma flush_result_fields [simp]:
  "pb_size (flush_result d k m) = pb_size d"
  "sector_size (flush_result d k m) = sector_size d"
  "num_sectors (flush_result d k m) = num_sectors d"
  "bufmode (flush_result d k m) = bufmode d"
  "wpmode (flush_result d k m) = wpmode d"
  "num_buffers (flush_result d k m) = num_buffers d"
  "buffer_stride (flush_result d k m) = buffer_stride d"
  "g_pmbd_wr_verify (flush_result d k m) = g_pmbd_wr_verify d"
  "g_pmbd_subpage_update (flush_result d k m) = g_pmbd_subpage_update d"
  "use_nts (flush_result d k m) = use_nts d" "use_ntl (flush_result d k m) = use_ntl d"
  "PMBD_TOTAL_PB_NUM (flush_result d k m) = PMBD_TOTAL_PB_NUM d"
  "PBN_TO_PMBD_BUFFER_ID (flush_result d k m) p = PBN_TO_PMBD_BUFFER_ID d p"
  by (simp_all add: flush_result_def upd_buffer_def PMBD_TOTAL_PB_NUM_def PMBD_MEM_TOTAL_BYTES_def
        PBN_TO_PMBD_BUFFER_ID_def)

lemma flush_result_buffer_fields [simp]:
  "num_blocks (buffers (flush_result d k m) k') = num_blocks (buffers d k')"
  "batch_size (buffers (flush_result d k m) k') = batch_size (buffers d k')"
  "pos_clean (buffers (flush_result d k m) k') = pos_clean (buffers d k')"
  "buffer_space (buffers (flush_result d k m) k') = buffer_space (buffers d k')"
  by (simp_all add: flush_result_def upd_buffer_def flush_spec_def)

lemma flush_result_ctrl:
  "pos_dirty (buffers (flush_result d k m) k') =
     (if k' = k then (pos_dirty (buffers d k) + m) mod num_blocks (buffers d k) else pos_dirty (buffers d k'))"
  "num_dirty (buffers (flush_result d k m) k') =
     (if k' = k then num_dirty (buffers d k) - m else num_dirty (buffers d k'))"
  by (simp_all add: flush_result_def upd_buffer_def flush_spec_def PMBD_BUFFER_NEXT_N_POS_def)

lemma flush_result_bbi:
  "bbi_space (buffers (flush_result d k m) k') j =
     (if k' = k \<and> j \<in> pbi_space d ` dirty_window (buffers d k) m
      then \<lparr>pbn = PMBD_TOTAL_PB_NUM d + 2, dirty = False\<rparr>
      else bbi_space (buffers d k') j)"
  by (simp add: flush_result_def upd_buffer_def flush_spec_def)

lemma flush_result_pbi:
  "pbi_space (flush_result d k m) q =
     (if q \<in> dirty_window (buffers d k) m then PMBD_TOTAL_PB_NUM d + 3 else pbi_space d q)"
  by (simp add: flush_result_def upd_buffer_def flush_spec_def)

lemma flush_result_mem:
  "mem_space (flush_result d k m) a =
     (if a div pb_size d \<in> dirty_window (buffers d k) m
      then buffer_space (buffers d k) (pb_size d * pbi_space d (a div pb_size d) + a mod pb_size d)
      else mem_space d a)"
  by (simp add: flush_result_def upd_buffer_def flush_spec_def)

lemma window_slot_add:
  "0 < num_blocks b \<Longrightarrow>
   ((pos_dirty b + m) mod num_blocks b + i) mod num_blocks b = window_slot b (m + i)"
  by (simp add: window_slot_def mod_add_left_eq add.assoc)

lemma flush_result_segment:
  assumes "0 < num_blocks (buffers d k)" "m \<le> num_dirty (buffers d k)"
  shows "in_dirty_segment (buffers (flush_result d k m) k) j \<longleftrightarrow>
         (\<exists>i. m \<le> i \<and> i < num_dirty (buffers d k) \<and> j = window_slot (buffers d k) i)"
proof
  assume "in_dirty_segment (buffers (flush_result d k m) k) j"
  then obtain i where "i < num_dirty (buffers d k) - m" "j = window_slot (buffers d k) (m + i)"
    using window_slot_add [OF assms(1)] by (auto simp: in_dirty_segment_def flush_result_ctrl)
  then show "\<exists>i. m \<le> i \<and> i < num_dirty (buffers d k) \<and> j = window_slot (buffers d k) i"
    by (intro exI [of _ "m + i"]) simp
next
  assume "\<exists>i. m \<le> i \<and> i < num_dirty (buffers d k) \<and> j = window_slot (buffers d k) i"
  then obtain i where i: "m \<le> i" "i < num_dirty (buffers d k)" "j = window_slot (buffers d k) i"
    by blast
  have "i - m < num_dirty (buffers d k) - m" using i(1,2) by simp
  moreover have "j = window_slot (buffers d k) (m + (i - m))" using i(1,3) by simp
  ultimately show "in_dirty_segment (buffers (flush_result d k m) k) j"
    unfolding in_dirty_segment_def flush_result_ctrl flush_result_buffer_fields
    using window_slot_add [OF assms(1), of m "i - m"]
    by (intro exI [of _ "i - m"]) simp
qed

lemma window_pbi_image:
  assumes wf: "buffer_wf d k" and m: "m \<le> num_dirty (buffers d k)"
  shows "pbi_space d ` dirty_window (buffers d k) m = window_slot (buffers d k) ` {..<m}"
proof -
  have "pbi_space d (pbn (bbi_space (buffers d k) (window_slot (buffers d k) i))) =
        window_slot (buffers d k) i" if "i < m" for i
    using buffer_wf_window(4) [OF wf, of i] that m by simp
  then show ?thesis
    unfolding dirty_window_def image_image by (intro image_cong) auto
qed

lemma window_slot_mem:
  assumes wf: "buffer_wf d k" and m: "m \<le> num_dirty (buffers d k)" and i: "i < num_dirty (buffers d k)"
  shows "window_slot (buffers d k) i \<in> pbi_space d ` dirty_window (buffers d k) m \<longleftrightarrow> i < m"
proof -
  have "i = i'" if "i' < m" "window_slot (buffers d k) i = window_slot (buffers d k) i'" for i'
  proof -
    have "i < num_blocks (buffers d k)" "i' < num_blocks (buffers d k)"
      using that(1) m i buffer_wf_fields(4) [OF wf] by linarith+
    then show ?thesis using that(2) by (metis window_slot_inj)
  qed
  then show ?thesis
    unfolding window_pbi_image [OF wf m] by auto
qed

lemma window_pbn_mem:
  assumes wf: "buffer_wf d k" and m: "m \<le> num_dirty (buffers d k)" and i: "i < num_dirty (buffers d k)"
  shows "pbn (bbi_space (buffers d k) (window_slot (buffers d k) i)) \<in> dirty_window (buffers d k) m
         \<longleftrightarrow> i < m"
proof -
  have "i = i'" if "i' < m"
    "pbn (bbi_space (buffers d k) (window_slot (buffers d k) i)) =
     pbn (bbi_space (buffers d k) (window_slot (buffers d k) i'))" for i'
    using window_pbn_inj [OF wf i _ that(2)] that(1) m by simp
  then show ?thesis unfolding dirty_window_def by auto
qed
subsection \<open>A flush preserves the invariant of each buffer\<close>

lemma dirty_window_elem:
  assumes wf: "buffer_wf d k" and m: "m \<le> num_dirty (buffers d k)"
    and p: "p \<in> dirty_window (buffers d k) m"
  shows "PBN_TO_PMBD_BUFFER_ID d p = k" "p < PMBD_TOTAL_PB_NUM d"
    "pbi_space d p < num_blocks (buffers d k)"
proof -
  from p obtain i where i: "i < m" and pi: "p = pbn (bbi_space (buffers d k) (window_slot (buffers d k) i))"
    by (auto simp: dirty_window_def)
  have il: "i < num_dirty (buffers d k)" using i m by simp
  show "PBN_TO_PMBD_BUFFER_ID d p = k" "p < PMBD_TOTAL_PB_NUM d"
    "pbi_space d p < num_blocks (buffers d k)"
    using buffer_wf_window [OF wf il] pi by simp_all
qed

lemma dev_wf_buffer: "dev_wf d \<Longrightarrow> k < num_buffers d \<Longrightarrow> buffer_wf d k"
  by (simp add: dev_wf_def)

lemma buffer_wf_segment:
  assumes "buffer_wf d k" "in_dirty_segment (buffers d k) j"
  shows "dirty (bbi_space (buffers d k) j)" "pbn (bbi_space (buffers d k) j) < PMBD_TOTAL_PB_NUM d"
    "PBN_TO_PMBD_BUFFER_ID d (pbn (bbi_space (buffers d k) j)) = k"
    "pbi_space d (pbn (bbi_space (buffers d k) j)) = j"
  using assms by (simp_all add: buffer_wf_def Let_def)

lemma buffer_wf_clean:
  assumes "buffer_wf d k" "j < num_blocks (buffers d k)" "\<not> in_dirty_segment (buffers d k) j"
  shows "pbn (bbi_space (buffers d k) j) = PMBD_TOTAL_PB_NUM d + 2"
  using assms by (simp add: buffer_wf_def Let_def)

lemma buffer_wfI:
  assumes "0 < num_blocks (buffers d k)" "num_blocks (buffers d k) \<le> PMBD_TOTAL_PB_NUM d + 3"
    "0 < batch_size (buffers d k)" "num_dirty (buffers d k) \<le> num_blocks (buffers d k)"
    "pos_dirty (buffers d k) < num_blocks (buffers d k)"
    "pos_clean (buffers d k) = (pos_dirty (buffers d k) + num_dirty (buffers d k)) mod num_blocks (buffers d k)"
    "\<And>j. in_dirty_segment (buffers d k) j \<Longrightarrow>
       dirty (bbi_space (buffers d k) j) \<and> pbn (bbi_space (buffers d k) j) < PMBD_TOTAL_PB_NUM d \<and>
       PBN_TO_PMBD_BUFFER_ID d (pbn (bbi_space (buffers d k) j)) = k \<and>
       pbi_space d (pbn (bbi_space (buffers d k) j)) = j"
    "\<And>j. j < num_blocks (buffers d k) \<Longrightarrow> \<not> in_dirty_segment (buffers d k) j \<Longrightarrow>
       pbn (bbi_space (buffers d k) j) = PMBD_TOTAL_PB_NUM d + 2"
  shows "buffer_wf d k"
  using assms unfolding buffer_wf_def Let_def by blast

lemma flush_result_segment_other:
  "k' \<noteq> k \<Longrightarrow> in_dirty_segment (buffers (flush_result d k m) k') j = in_dirty_segment (buffers d k') j"
  by (simp add: in_dirty_segment_def flush_result_ctrl)

lemma flush_result_buffer_wf_other:
  assumes wf: "buffer_wf d k" and wf': "buffer_wf d k'" and m: "m \<le> num_dirty (buffers d k)"
    and ne: "k' \<noteq> k"
  shows "buffer_wf (flush_result d k m) k'"
proof (rule buffer_wfI)
  note f = buffer_wf_fields [OF wf']
  show "0 < num_blocks (buffers (flush_result d k m) k')" using f by simp
  show "num_blocks (buffers (flush_result d k m) k') \<le> PMBD_TOTAL_PB_NUM (flush_result d k m) + 3"
    using f by simp
  show "0 < batch_size (buffers (flush_result d k m) k')" using f by simp
  show "num_dirty (buffers (flush_result d k m) k') \<le> num_blocks (buffers (flush_result d k m) k')"
    using f ne by (simp add: flush_result_ctrl)
  show "pos_dirty (buffers (flush_result d k m) k') < num_blocks (buffers (flush_result d k m) k')"
    using f ne by (simp add: flush_result_ctrl)
  show "pos_clean (buffers (flush_result d k m) k') =
        (pos_dirty (buffers (flush_result d k m) k') + num_dirty (buffers (flush_result d k m) k'))
          mod num_blocks (buffers (flush_result d k m) k')"
    using f ne by (simp add: flush_result_ctrl window_slot_def)
next
  fix j assume "in_dirty_segment (buffers (flush_result d k m) k') j"
  then have seg: "in_dirty_segment (buffers d k') j" using flush_result_segment_other [OF ne] by blast
  note s = buffer_wf_segment [OF wf' seg]
  have "pbn (bbi_space (buffers d k') j) \<notin> dirty_window (buffers d k) m"
  proof
    assume "pbn (bbi_space (buffers d k') j) \<in> dirty_window (buffers d k) m"
    from dirty_window_elem(1) [OF wf m this] s(3) ne show False by simp
  qed
  then show "dirty (bbi_space (buffers (flush_result d k m) k') j) \<and>
       pbn (bbi_space (buffers (flush_result d k m) k') j) < PMBD_TOTAL_PB_NUM (flush_result d k m) \<and>
       PBN_TO_PMBD_BUFFER_ID (flush_result d k m) (pbn (bbi_space (buffers (flush_result d k m) k') j)) = k' \<and>
       pbi_space (flush_result d k m) (pbn (bbi_space (buffers (flush_result d k m) k') j)) = j"
    using s ne by (simp add: flush_result_bbi flush_result_pbi)
next
  fix j assume j: "j < num_blocks (buffers (flush_result d k m) k')"
    and ns: "\<not> in_dirty_segment (buffers (flush_result d k m) k') j"
  have "\<not> in_dirty_segment (buffers d k') j" using ns flush_result_segment_other [OF ne] by blast
  then have "pbn (bbi_space (buffers d k') j) = PMBD_TOTAL_PB_NUM d + 2"
    using buffer_wf_clean [OF wf', of j] j by simp
  then show "pbn (bbi_space (buffers (flush_result d k m) k') j) = PMBD_TOTAL_PB_NUM (flush_result d k m) + 2"
    using ne by (simp add: flush_result_bbi)
qed

lemma flush_result_buffer_wf_same:
  assumes wf: "buffer_wf d k" and m: "m \<le> num_dirty (buffers d k)"
  shows "buffer_wf (flush_result d k m) k"
proof (rule buffer_wfI)
  note f = buffer_wf_fields [OF wf]
  show "0 < num_blocks (buffers (flush_result d k m) k)" using f by simp
  show "num_blocks (buffers (flush_result d k m) k) \<le> PMBD_TOTAL_PB_NUM (flush_result d k m) + 3"
    using f by simp
  show "0 < batch_size (buffers (flush_result d k m) k)" using f by simp
  show "num_dirty (buffers (flush_result d k m) k) \<le> num_blocks (buffers (flush_result d k m) k)"
    using f by (simp add: flush_result_ctrl)
  show "pos_dirty (buffers (flush_result d k m) k) < num_blocks (buffers (flush_result d k m) k)"
    using f by (simp add: flush_result_ctrl)
  have "((pos_dirty (buffers d k) + m) mod num_blocks (buffers d k) + (num_dirty (buffers d k) - m))
          mod num_blocks (buffers d k) = window_slot (buffers d k) (m + (num_dirty (buffers d k) - m))"
    by (rule window_slot_add [OF f(1)])
  then show "pos_clean (buffers (flush_result d k m) k) =
        (pos_dirty (buffers (flush_result d k m) k) + num_dirty (buffers (flush_result d k m) k))
          mod num_blocks (buffers (flush_result d k m) k)"
    using f(6) m by (simp add: flush_result_ctrl)
next
  fix j assume "in_dirty_segment (buffers (flush_result d k m) k) j"
  then obtain i where i: "m \<le> i" "i < num_dirty (buffers d k)" "j = window_slot (buffers d k) i"
    using flush_result_segment [OF buffer_wf_fields(1) [OF wf] m] by blast
  note w = buffer_wf_window [OF wf i(2)]
  have a: "j \<notin> pbi_space d ` dirty_window (buffers d k) m"
    using window_slot_mem [OF wf m i(2)] i(1,3) by simp
  have b: "pbn (bbi_space (buffers d k) j) \<notin> dirty_window (buffers d k) m"
    using window_pbn_mem [OF wf m i(2)] i(1,3) by simp
  show "dirty (bbi_space (buffers (flush_result d k m) k) j) \<and>
       pbn (bbi_space (buffers (flush_result d k m) k) j) < PMBD_TOTAL_PB_NUM (flush_result d k m) \<and>
       PBN_TO_PMBD_BUFFER_ID (flush_result d k m) (pbn (bbi_space (buffers (flush_result d k m) k) j)) = k \<and>
       pbi_space (flush_result d k m) (pbn (bbi_space (buffers (flush_result d k m) k) j)) = j"
    using a b w i(3) by (simp add: flush_result_bbi flush_result_pbi)
next
  fix j assume j: "j < num_blocks (buffers (flush_result d k m) k)"
    and ns: "\<not> in_dirty_segment (buffers (flush_result d k m) k) j"
  show "pbn (bbi_space (buffers (flush_result d k m) k) j) = PMBD_TOTAL_PB_NUM (flush_result d k m) + 2"
  proof (cases "in_dirty_segment (buffers d k) j")
    case True
    then obtain i where i: "i < num_dirty (buffers d k)" "j = window_slot (buffers d k) i"
      by (auto simp: in_dirty_segment_window)
    have "i < m"
      using ns flush_result_segment [OF buffer_wf_fields(1) [OF wf] m, of j] i by auto
    then have "j \<in> pbi_space d ` dirty_window (buffers d k) m"
      using window_slot_mem [OF wf m i(1)] i(2) by simp
    then show ?thesis by (simp add: flush_result_bbi)
  next
    case False
    then show ?thesis using buffer_wf_clean [OF wf, of j] j by (simp add: flush_result_bbi)
  qed
qed
subsection \<open>A flush preserves the invariant of the device and what a read finds\<close>

lemma dev_wf_geom:
  assumes "dev_wf d"
  shows "pb_size d = 4096" "sector_size d = 512" "8 dvd num_sectors d"
    "0 < buffer_stride d" "0 < num_buffers d"
  using assms by (simp_all add: dev_wf_def)

lemma dev_wf_link:
  assumes "dev_wf d" "p < PMBD_TOTAL_PB_NUM d" "PMBD_BLOCK_IS_BUFFERED d p"
  shows "in_dirty_segment (buffers d (PBN_TO_PMBD_BUFFER_ID d p)) (pbi_space d p)"
    "pbn (bbi_space (buffers d (PBN_TO_PMBD_BUFFER_ID d p)) (pbi_space d p)) = p"
  using assms by (simp_all add: dev_wf_def)

lemma dev_wfI:
  assumes "pb_size d = 4096" "sector_size d = 512" "8 dvd num_sectors d"
    "0 < buffer_stride d" "0 < num_buffers d"
    "\<And>k. k < num_buffers d \<Longrightarrow> buffer_wf d k"
    "\<And>p. p < PMBD_TOTAL_PB_NUM d \<Longrightarrow> PMBD_BLOCK_IS_BUFFERED d p \<Longrightarrow>
        in_dirty_segment (buffers d (PBN_TO_PMBD_BUFFER_ID d p)) (pbi_space d p) \<and>
        pbn (bbi_space (buffers d (PBN_TO_PMBD_BUFFER_ID d p)) (pbi_space d p)) = p"
  shows "dev_wf d"
  using assms unfolding dev_wf_def by blast

lemma owner_lt: "0 < num_buffers d \<Longrightarrow> PBN_TO_PMBD_BUFFER_ID d p < num_buffers d"
  by (simp add: PBN_TO_PMBD_BUFFER_ID_def)

lemma flush_result_buffered:
  assumes wf: "buffer_wf d k" and m: "m \<le> num_dirty (buffers d k)"
  shows "PMBD_BLOCK_IS_BUFFERED (flush_result d k m) p \<longleftrightarrow>
         PMBD_BLOCK_IS_BUFFERED d p \<and> p \<notin> dirty_window (buffers d k) m"
proof (cases "p \<in> dirty_window (buffers d k) m")
  case True
  note e = dirty_window_elem [OF wf m True]
  have "\<not> PMBD_TOTAL_PB_NUM d + 3 < num_blocks (buffers d k)"
    using buffer_wf_fields(2) [OF wf] by simp
  then show ?thesis using True e(1) by (simp add: PMBD_BLOCK_IS_BUFFERED_def flush_result_pbi)
next
  case False
  then show ?thesis by (simp add: PMBD_BLOCK_IS_BUFFERED_def flush_result_pbi)
qed

lemma flush_result_wf:
  assumes wf: "dev_wf d" and k: "k < num_buffers d" and m: "m \<le> num_dirty (buffers d k)"
  shows "dev_wf (flush_result d k m)"
proof (rule dev_wfI)
  note g = dev_wf_geom [OF wf]
  note wk = dev_wf_buffer [OF wf k]
  show "pb_size (flush_result d k m) = 4096" "sector_size (flush_result d k m) = 512"
    "8 dvd num_sectors (flush_result d k m)" "0 < buffer_stride (flush_result d k m)"
    "0 < num_buffers (flush_result d k m)"
    using g by simp_all
  show "buffer_wf (flush_result d k m) k'" if "k' < num_buffers (flush_result d k m)" for k'
  proof (cases "k' = k")
    case True
    then show ?thesis using flush_result_buffer_wf_same [OF wk m] by simp
  next
    case False
    have "buffer_wf d k'" using that wf by (simp add: dev_wf_buffer)
    then show ?thesis using flush_result_buffer_wf_other [OF wk _ m False] by simp
  qed
  show "in_dirty_segment (buffers (flush_result d k m) (PBN_TO_PMBD_BUFFER_ID (flush_result d k m) p))
          (pbi_space (flush_result d k m) p) \<and>
        pbn (bbi_space (buffers (flush_result d k m) (PBN_TO_PMBD_BUFFER_ID (flush_result d k m) p))
               (pbi_space (flush_result d k m) p)) = p"
    if p: "p < PMBD_TOTAL_PB_NUM (flush_result d k m)" and b: "PMBD_BLOCK_IS_BUFFERED (flush_result d k m) p"
    for p
  proof -
    define q where "q = PBN_TO_PMBD_BUFFER_ID d p"
    have bd: "PMBD_BLOCK_IS_BUFFERED d p" and nw: "p \<notin> dirty_window (buffers d k) m"
      using b flush_result_buffered [OF wk m] by blast+
    have pt: "p < PMBD_TOTAL_PB_NUM d" using p by simp
    note l = dev_wf_link [OF wf pt bd, folded q_def]
    have pbi: "pbi_space (flush_result d k m) p = pbi_space d p" using nw by (simp add: flush_result_pbi)
    show ?thesis
    proof (cases "q = k")
      case False
      have "in_dirty_segment (buffers (flush_result d k m) q) (pbi_space d p)"
        using flush_result_segment_other [OF False] l(1) by blast
      then show ?thesis using l(2) False by (simp add: pbi q_def [symmetric] flush_result_bbi)
    next
      case True
      from l(1) obtain i where i: "i < num_dirty (buffers d k)" "pbi_space d p = window_slot (buffers d k) i"
        unfolding True by (auto simp: in_dirty_segment_window)
      have pe: "p = pbn (bbi_space (buffers d k) (window_slot (buffers d k) i))"
        using l(2) i(2) True by simp
      have mi: "m \<le> i"
        using window_pbn_mem [OF wk m i(1)] nw pe by simp
      have seg: "in_dirty_segment (buffers (flush_result d k m) k) (pbi_space d p)"
        using flush_result_segment [OF buffer_wf_fields(1) [OF wk] m] mi i by blast
      have "window_slot (buffers d k) i \<notin> pbi_space d ` dirty_window (buffers d k) m"
        using window_slot_mem [OF wk m i(1)] mi by simp
      then have "bbi_space (buffers (flush_result d k m) k) (pbi_space d p) =
                 bbi_space (buffers d k) (pbi_space d p)"
        by (simp add: flush_result_bbi i(2))
      then show ?thesis using seg l(2) True by (simp add: pbi q_def [symmetric])
    qed
  qed
qed

lemma flush_result_view:
  assumes wf: "dev_wf d" and k: "k < num_buffers d" and m: "m \<le> num_dirty (buffers d k)"
  shows "view_byte (flush_result d k m) a = view_byte d a"
proof -
  note wk = dev_wf_buffer [OF wf k]
  define p where "p = a div pb_size d"
  show ?thesis
  proof (cases "p \<in> dirty_window (buffers d k) m")
    case True
    note e = dirty_window_elem [OF wk m True]
    have "PMBD_BLOCK_IS_BUFFERED d p" using e by (simp add: PMBD_BLOCK_IS_BUFFERED_def)
    moreover have "\<not> PMBD_BLOCK_IS_BUFFERED (flush_result d k m) p"
      using True flush_result_buffered [OF wk m] by blast
    ultimately show ?thesis
      using True e(1) by (simp add: view_byte_def Let_def p_def [symmetric] flush_result_mem)
  next
    case False
    then have "PMBD_BLOCK_IS_BUFFERED (flush_result d k m) p = PMBD_BLOCK_IS_BUFFERED d p"
      using flush_result_buffered [OF wk m] by blast
    then show ?thesis
      using False by (simp add: view_byte_def Let_def p_def [symmetric] flush_result_mem flush_result_pbi)
  qed
qed
subsection \<open>The reservation of a slot\<close>

lemma alloc_reserve_fst [simp]: "fst (alloc_reserve d k p) = pos_clean (buffers d k)"
  by (simp add: alloc_reserve_def Let_def)

lemma alloc_reserve_fields [simp]:
  "pb_size (snd (alloc_reserve d k p)) = pb_size d"
  "sector_size (snd (alloc_reserve d k p)) = sector_size d"
  "num_sectors (snd (alloc_reserve d k p)) = num_sectors d"
  "bufmode (snd (alloc_reserve d k p)) = bufmode d"
  "wpmode (snd (alloc_reserve d k p)) = wpmode d"
  "num_buffers (snd (alloc_reserve d k p)) = num_buffers d"
  "buffer_stride (snd (alloc_reserve d k p)) = buffer_stride d"
  "g_pmbd_wr_verify (snd (alloc_reserve d k p)) = g_pmbd_wr_verify d"
  "g_pmbd_subpage_update (snd (alloc_reserve d k p)) = g_pmbd_subpage_update d"
  "use_nts (snd (alloc_reserve d k p)) = use_nts d" "use_ntl (snd (alloc_reserve d k p)) = use_ntl d"
  "mem_space (snd (alloc_reserve d k p)) = mem_space d"
  "PMBD_TOTAL_PB_NUM (snd (alloc_reserve d k p)) = PMBD_TOTAL_PB_NUM d"
  "PBN_TO_PMBD_BUFFER_ID (snd (alloc_reserve d k p)) q = PBN_TO_PMBD_BUFFER_ID d q"
  by (simp_all add: alloc_reserve_def Let_def macro_defs PMBD_TOTAL_PB_NUM_def PMBD_MEM_TOTAL_BYTES_def
        PBN_TO_PMBD_BUFFER_ID_def)

lemma alloc_reserve_buffer_fields [simp]:
  "num_blocks (buffers (snd (alloc_reserve d k p)) k') = num_blocks (buffers d k')"
  "batch_size (buffers (snd (alloc_reserve d k p)) k') = batch_size (buffers d k')"
  "pos_dirty (buffers (snd (alloc_reserve d k p)) k') = pos_dirty (buffers d k')"
  "buffer_space (buffers (snd (alloc_reserve d k p)) k') = buffer_space (buffers d k')"
  by (simp_all add: alloc_reserve_def Let_def macro_defs)

lemma alloc_reserve_ctrl:
  "pos_clean (buffers (snd (alloc_reserve d k p)) k') =
     (if k' = k then PMBD_BUFFER_NEXT_POS (buffers d k) (pos_clean (buffers d k)) else pos_clean (buffers d k'))"
  "num_dirty (buffers (snd (alloc_reserve d k p)) k') =
     (if k' = k then num_dirty (buffers d k) + 1 else num_dirty (buffers d k'))"
  by (simp_all add: alloc_reserve_def Let_def macro_defs PMBD_BUFFER_NEXT_POS_def)

lemma alloc_reserve_bbi:
  "bbi_space (buffers (snd (alloc_reserve d k p)) k') j =
     (if k' = k \<and> j = pos_clean (buffers d k) then \<lparr>pbn = p, dirty = True\<rparr>
      else bbi_space (buffers d k') j)"
  by (simp add: alloc_reserve_def Let_def macro_defs)

lemma alloc_reserve_pbi:
  "pbi_space (snd (alloc_reserve d k p)) q = (if q = p then pos_clean (buffers d k) else pbi_space d q)"
  by (simp add: alloc_reserve_def Let_def macro_defs)

lemma alloc_reserve_segment:
  assumes "pos_clean (buffers d k) = window_slot (buffers d k) (num_dirty (buffers d k))"
  shows "in_dirty_segment (buffers (snd (alloc_reserve d k p)) k) j \<longleftrightarrow>
         in_dirty_segment (buffers d k) j \<or> j = pos_clean (buffers d k)"
  unfolding in_dirty_segment_def alloc_reserve_ctrl alloc_reserve_buffer_fields assms
  by (auto simp: window_slot_def less_Suc_eq)

lemma alloc_reserve_segment_other:
  "k' \<noteq> k \<Longrightarrow> in_dirty_segment (buffers (snd (alloc_reserve d k p)) k') j = in_dirty_segment (buffers d k') j"
  by (simp add: in_dirty_segment_def alloc_reserve_ctrl)

lemma clean_pos_not_in_segment:
  assumes wf: "buffer_wf d k" and nf: "\<not> PMBD_BUFFER_IS_FULL (buffers d k)"
  shows "\<not> in_dirty_segment (buffers d k) (pos_clean (buffers d k))"
proof
  assume "in_dirty_segment (buffers d k) (pos_clean (buffers d k))"
  then obtain i where i: "i < num_dirty (buffers d k)"
    "window_slot (buffers d k) (num_dirty (buffers d k)) = window_slot (buffers d k) i"
    using buffer_wf_fields(6) [OF wf] by (auto simp: in_dirty_segment_window)
  have "num_dirty (buffers d k) < num_blocks (buffers d k)" "i < num_blocks (buffers d k)"
    using nf i(1) by (simp_all add: PMBD_BUFFER_IS_FULL_def)
  then have "num_dirty (buffers d k) = i" using i(2) by (metis window_slot_inj)
  then show False using i(1) by simp
qed

lemma alloc_reserve_buffer_wf_other:
  assumes wf': "buffer_wf d k'" and ne: "k' \<noteq> k" and own: "PBN_TO_PMBD_BUFFER_ID d p = k"
  shows "buffer_wf (snd (alloc_reserve d k p)) k'"
proof (rule buffer_wfI)
  note f = buffer_wf_fields [OF wf']
  show "0 < num_blocks (buffers (snd (alloc_reserve d k p)) k')"
    "num_blocks (buffers (snd (alloc_reserve d k p)) k') \<le> PMBD_TOTAL_PB_NUM (snd (alloc_reserve d k p)) + 3"
    "0 < batch_size (buffers (snd (alloc_reserve d k p)) k')"
    "num_dirty (buffers (snd (alloc_reserve d k p)) k') \<le> num_blocks (buffers (snd (alloc_reserve d k p)) k')"
    "pos_dirty (buffers (snd (alloc_reserve d k p)) k') < num_blocks (buffers (snd (alloc_reserve d k p)) k')"
    "pos_clean (buffers (snd (alloc_reserve d k p)) k') =
       (pos_dirty (buffers (snd (alloc_reserve d k p)) k') + num_dirty (buffers (snd (alloc_reserve d k p)) k'))
         mod num_blocks (buffers (snd (alloc_reserve d k p)) k')"
    using f ne by (simp_all add: alloc_reserve_ctrl window_slot_def)
next
  fix j assume "in_dirty_segment (buffers (snd (alloc_reserve d k p)) k') j"
  then have seg: "in_dirty_segment (buffers d k') j"
    using alloc_reserve_segment_other [OF ne] by blast
  note s = buffer_wf_segment [OF wf' seg]
  have "pbn (bbi_space (buffers d k') j) \<noteq> p" using s(3) own ne by auto
  then show "dirty (bbi_space (buffers (snd (alloc_reserve d k p)) k') j) \<and>
       pbn (bbi_space (buffers (snd (alloc_reserve d k p)) k') j) < PMBD_TOTAL_PB_NUM (snd (alloc_reserve d k p)) \<and>
       PBN_TO_PMBD_BUFFER_ID (snd (alloc_reserve d k p)) (pbn (bbi_space (buffers (snd (alloc_reserve d k p)) k') j)) = k' \<and>
       pbi_space (snd (alloc_reserve d k p)) (pbn (bbi_space (buffers (snd (alloc_reserve d k p)) k') j)) = j"
    using s ne by (simp add: alloc_reserve_bbi alloc_reserve_pbi)
next
  fix j assume j: "j < num_blocks (buffers (snd (alloc_reserve d k p)) k')"
    and ns: "\<not> in_dirty_segment (buffers (snd (alloc_reserve d k p)) k') j"
  have "\<not> in_dirty_segment (buffers d k') j" using ns alloc_reserve_segment_other [OF ne] by blast
  then have "pbn (bbi_space (buffers d k') j) = PMBD_TOTAL_PB_NUM d + 2"
    using buffer_wf_clean [OF wf', of j] j by simp
  then show "pbn (bbi_space (buffers (snd (alloc_reserve d k p)) k') j) =
             PMBD_TOTAL_PB_NUM (snd (alloc_reserve d k p)) + 2"
    using ne by (simp add: alloc_reserve_bbi)
qed

lemma alloc_reserve_buffer_wf_same:
  assumes wf: "buffer_wf d k" and nf: "\<not> PMBD_BUFFER_IS_FULL (buffers d k)"
    and own: "PBN_TO_PMBD_BUFFER_ID d p = k" and p: "p < PMBD_TOTAL_PB_NUM d"
    and nb: "\<not> PMBD_BLOCK_IS_BUFFERED d p"
  shows "buffer_wf (snd (alloc_reserve d k p)) k"
proof (rule buffer_wfI)
  note f = buffer_wf_fields [OF wf]
  have lt: "num_dirty (buffers d k) < num_blocks (buffers d k)"
    using nf by (simp add: PMBD_BUFFER_IS_FULL_def)
  show "0 < num_blocks (buffers (snd (alloc_reserve d k p)) k)"
    "num_blocks (buffers (snd (alloc_reserve d k p)) k) \<le> PMBD_TOTAL_PB_NUM (snd (alloc_reserve d k p)) + 3"
    "0 < batch_size (buffers (snd (alloc_reserve d k p)) k)"
    "num_dirty (buffers (snd (alloc_reserve d k p)) k) \<le> num_blocks (buffers (snd (alloc_reserve d k p)) k)"
    "pos_dirty (buffers (snd (alloc_reserve d k p)) k) < num_blocks (buffers (snd (alloc_reserve d k p)) k)"
    using f lt by (simp_all add: alloc_reserve_ctrl)
  have "PMBD_BUFFER_NEXT_POS (buffers d k) (pos_clean (buffers d k)) =
        window_slot (buffers d k) (Suc (num_dirty (buffers d k)))"
    unfolding f(6) window_slot_def using next_pos_mod [OF f(1)] by simp
  then show "pos_clean (buffers (snd (alloc_reserve d k p)) k) =
       (pos_dirty (buffers (snd (alloc_reserve d k p)) k) + num_dirty (buffers (snd (alloc_reserve d k p)) k))
         mod num_blocks (buffers (snd (alloc_reserve d k p)) k)"
    by (simp add: alloc_reserve_ctrl window_slot_def)
next
  fix j assume "in_dirty_segment (buffers (snd (alloc_reserve d k p)) k) j"
  then consider (old) "in_dirty_segment (buffers d k) j" "j \<noteq> pos_clean (buffers d k)"
    | (new) "j = pos_clean (buffers d k)"
    using alloc_reserve_segment [OF buffer_wf_fields(6) [OF wf]] by blast
  then show "dirty (bbi_space (buffers (snd (alloc_reserve d k p)) k) j) \<and>
       pbn (bbi_space (buffers (snd (alloc_reserve d k p)) k) j) < PMBD_TOTAL_PB_NUM (snd (alloc_reserve d k p)) \<and>
       PBN_TO_PMBD_BUFFER_ID (snd (alloc_reserve d k p)) (pbn (bbi_space (buffers (snd (alloc_reserve d k p)) k) j)) = k \<and>
       pbi_space (snd (alloc_reserve d k p)) (pbn (bbi_space (buffers (snd (alloc_reserve d k p)) k) j)) = j"
  proof cases
    case old
    note s = buffer_wf_segment [OF wf old(1)]
    have jl: "j < num_blocks (buffers d k)"
      using old(1) buffer_wf_fields(1) [OF wf] by (auto simp: in_dirty_segment_def)
    have "pbn (bbi_space (buffers d k) j) \<noteq> p"
    proof
      assume e: "pbn (bbi_space (buffers d k) j) = p"
      then have "pbi_space d p = j" using s(4) by simp
      then show False using nb jl own by (simp add: PMBD_BLOCK_IS_BUFFERED_def)
    qed
    then show ?thesis using s old(2) by (simp add: alloc_reserve_bbi alloc_reserve_pbi)
  next
    case new
    then show ?thesis using p own by (simp add: alloc_reserve_bbi alloc_reserve_pbi)
  qed
next
  fix j assume j: "j < num_blocks (buffers (snd (alloc_reserve d k p)) k)"
    and ns: "\<not> in_dirty_segment (buffers (snd (alloc_reserve d k p)) k) j"
  have "\<not> in_dirty_segment (buffers d k) j" "j \<noteq> pos_clean (buffers d k)"
    using ns alloc_reserve_segment [OF buffer_wf_fields(6) [OF wf]] by blast+
  then show "pbn (bbi_space (buffers (snd (alloc_reserve d k p)) k) j) =
             PMBD_TOTAL_PB_NUM (snd (alloc_reserve d k p)) + 2"
    using buffer_wf_clean [OF wf, of j] j by (simp add: alloc_reserve_bbi)
qed
subsection \<open>The allocator\<close>

lemma same_geometry_refl [simp]: "same_geometry d d"
  by (simp add: same_geometry_def)

lemma same_geometry_trans: "same_geometry d d' \<Longrightarrow> same_geometry d' d'' \<Longrightarrow> same_geometry d d''"
  by (simp add: same_geometry_def)

lemma same_geometry_total: "same_geometry d d' \<Longrightarrow> PMBD_TOTAL_PB_NUM d' = PMBD_TOTAL_PB_NUM d"
  by (simp add: same_geometry_def PMBD_TOTAL_PB_NUM_def PMBD_MEM_TOTAL_BYTES_def)

lemma same_geometry_owner: "same_geometry d d' \<Longrightarrow> PBN_TO_PMBD_BUFFER_ID d' p = PBN_TO_PMBD_BUFFER_ID d p"
  by (simp add: same_geometry_def PBN_TO_PMBD_BUFFER_ID_def)

lemma same_geometry_flush_result [simp]: "same_geometry d (flush_result d k m)"
  by (simp add: same_geometry_def)

lemma same_geometry_alloc_reserve [simp]: "same_geometry d (snd (alloc_reserve d k p))"
  by (simp add: same_geometry_def)

lemma alloc_reserve_buffered:
  assumes wf: "buffer_wf d k" and own: "PBN_TO_PMBD_BUFFER_ID d p = k"
  shows "PMBD_BLOCK_IS_BUFFERED (snd (alloc_reserve d k p)) q \<longleftrightarrow> q = p \<or> PMBD_BLOCK_IS_BUFFERED d q"
proof -
  have "pos_clean (buffers d k) < num_blocks (buffers d k)"
    using buffer_wf_fields(1,6) [OF wf] by (simp add: window_slot_def)
  then show ?thesis using own by (auto simp: PMBD_BLOCK_IS_BUFFERED_def alloc_reserve_pbi)
qed

lemma alloc_reserve_wf:
  assumes wf: "dev_wf d" and p: "p < PMBD_TOTAL_PB_NUM d" and nb: "\<not> PMBD_BLOCK_IS_BUFFERED d p"
    and own: "PBN_TO_PMBD_BUFFER_ID d p = k" and nf: "\<not> PMBD_BUFFER_IS_FULL (buffers d k)"
  shows "dev_wf (snd (alloc_reserve d k p))"
proof (rule dev_wfI)
  note g = dev_wf_geom [OF wf]
  have k: "k < num_buffers d" using owner_lt [OF g(5), of p] own by simp
  note wk = dev_wf_buffer [OF wf k]
  show "pb_size (snd (alloc_reserve d k p)) = 4096" "sector_size (snd (alloc_reserve d k p)) = 512"
    "8 dvd num_sectors (snd (alloc_reserve d k p))" "0 < buffer_stride (snd (alloc_reserve d k p))"
    "0 < num_buffers (snd (alloc_reserve d k p))"
    using g by simp_all
  show "buffer_wf (snd (alloc_reserve d k p)) k'" if "k' < num_buffers (snd (alloc_reserve d k p))" for k'
  proof (cases "k' = k")
    case True
    then show ?thesis using alloc_reserve_buffer_wf_same [OF wk nf own p nb] by simp
  next
    case False
    have "buffer_wf d k'" using that wf by (simp add: dev_wf_buffer)
    then show ?thesis using alloc_reserve_buffer_wf_other [OF _ False own] by simp
  qed
  show "in_dirty_segment (buffers (snd (alloc_reserve d k p)) (PBN_TO_PMBD_BUFFER_ID (snd (alloc_reserve d k p)) q))
          (pbi_space (snd (alloc_reserve d k p)) q) \<and>
        pbn (bbi_space (buffers (snd (alloc_reserve d k p)) (PBN_TO_PMBD_BUFFER_ID (snd (alloc_reserve d k p)) q))
               (pbi_space (snd (alloc_reserve d k p)) q)) = q"
    if q: "q < PMBD_TOTAL_PB_NUM (snd (alloc_reserve d k p))"
      and b: "PMBD_BLOCK_IS_BUFFERED (snd (alloc_reserve d k p)) q"
    for q
  proof (cases "q = p")
    case True
    have "in_dirty_segment (buffers (snd (alloc_reserve d k p)) k) (pos_clean (buffers d k))"
      using alloc_reserve_segment [OF buffer_wf_fields(6) [OF wk]] by blast
    then show ?thesis using True own by (simp add: alloc_reserve_pbi alloc_reserve_bbi)
  next
    case False
    define r where "r = PBN_TO_PMBD_BUFFER_ID d q"
    have bd: "PMBD_BLOCK_IS_BUFFERED d q" using b False alloc_reserve_buffered [OF wk own] by blast
    have qt: "q < PMBD_TOTAL_PB_NUM d" using q by simp
    note l = dev_wf_link [OF wf qt bd, folded r_def]
    show ?thesis
    proof (cases "r = k")
      case ne: False
      have "in_dirty_segment (buffers (snd (alloc_reserve d k p)) r) (pbi_space d q)"
        using alloc_reserve_segment_other [OF ne] l(1) by blast
      then show ?thesis using l(2) ne False by (simp add: r_def [symmetric] alloc_reserve_pbi alloc_reserve_bbi)
    next
      case True
      have seg: "in_dirty_segment (buffers (snd (alloc_reserve d k p)) k) (pbi_space d q)"
        using alloc_reserve_segment [OF buffer_wf_fields(6) [OF wk]] l(1) True by blast
      have "pbi_space d q \<noteq> pos_clean (buffers d k)"
        using clean_pos_not_in_segment [OF wk nf] l(1) True by auto
      then show ?thesis
        using seg l(2) True False by (simp add: r_def [symmetric] alloc_reserve_pbi alloc_reserve_bbi)
    qed
  qed
qed

lemma alloc_reserve_view:
  assumes wf: "dev_wf d" and own: "PBN_TO_PMBD_BUFFER_ID d p = k"
    and a: "a div pb_size d \<noteq> p"
  shows "view_byte (snd (alloc_reserve d k p)) a = view_byte d a"
proof -
  have k: "k < num_buffers d" using owner_lt [OF dev_wf_geom(5) [OF wf], of p] own by simp
  have "PMBD_BLOCK_IS_BUFFERED (snd (alloc_reserve d k p)) (a div pb_size d) =
        PMBD_BLOCK_IS_BUFFERED d (a div pb_size d)"
    using alloc_reserve_buffered [OF dev_wf_buffer [OF wf k] own] a by simp
  then show ?thesis using a by (simp add: view_byte_def Let_def alloc_reserve_pbi)
qed

lemma check_and_flush_allocator_gen:
  assumes wf: "dev_wf d" and k: "k < num_buffers d" and full: "PMBD_BUFFER_IS_FULL (buffers d k)"
  shows "ok_or (store_fail d) (pmbd_buffer_check_and_flush d k (batch_size (buffers d k)) CALLER_ALLOCATOR)
           (min (batch_size (buffers d k)) (num_dirty (buffers d k)),
            flush_result d k (min (batch_size (buffers d k)) (num_dirty (buffers d k))))"
  using full pmbd_buffer_flush_gen [OF dev_wf_buffer [OF wf k]] dev_wf_geom(1) [OF wf]
  by (simp add: pmbd_buffer_check_and_flush_def)

lemma check_and_flush_allocator:
  assumes wf: "dev_wf d" and k: "k < num_buffers d" and full: "PMBD_BUFFER_IS_FULL (buffers d k)"
    and nts: "\<not> use_nts d"
  shows "pmbd_buffer_check_and_flush d k (batch_size (buffers d k)) CALLER_ALLOCATOR =
           Inr (min (batch_size (buffers d k)) (num_dirty (buffers d k)),
                flush_result d k (min (batch_size (buffers d k)) (num_dirty (buffers d k))))"
  using check_and_flush_allocator_gen [OF wf k full] nts by (simp add: ok_or_store_plain)

text \<open>
  The allocator ends: after at most one flush of a batch the buffer is not full. Unless
  a non-temporal store panics in that flush, it reserves the slot at \<open>pos_clean\<close> of a
  well-formed state that shows the same contents.
\<close>

lemma pmbd_buffer_alloc_block_gen:
  assumes wf: "dev_wf d" and p: "p < PMBD_TOTAL_PB_NUM d" and nb: "\<not> PMBD_BLOCK_IS_BUFFERED d p"
    and own: "PBN_TO_PMBD_BUFFER_ID d p = k"
  shows "(\<exists>d1. pmbd_buffer_alloc_block d k p = Some (Inr (alloc_reserve d1 k p)) \<and>
           dev_wf d1 \<and> \<not> PMBD_BLOCK_IS_BUFFERED d1 p \<and> \<not> PMBD_BUFFER_IS_FULL (buffers d1 k) \<and>
           view_byte d1 = view_byte d \<and> same_geometry d d1) \<or>
         (\<exists>e. pmbd_buffer_alloc_block d k p = Some (Inl e) \<and> store_fail d e)"
proof (cases "PMBD_BUFFER_IS_FULL (buffers d k)")
  case False
  then have "pmbd_buffer_alloc_block d k p = Some (Inr (alloc_reserve d k p))"
    by (subst pmbd_buffer_alloc_block.simps) simp
  then show ?thesis using wf nb False same_geometry_refl by blast
next
  case True
  have k: "k < num_buffers d" using owner_lt [OF dev_wf_geom(5) [OF wf], of p] own by simp
  note wk = dev_wf_buffer [OF wf k]
  note f = buffer_wf_fields [OF wk]
  define m where "m = min (batch_size (buffers d k)) (num_dirty (buffers d k))"
  define d1 where "d1 = flush_result d k m"
  have nd: "num_dirty (buffers d k) = num_blocks (buffers d k)"
    using True f(4) by (simp add: PMBD_BUFFER_IS_FULL_def)
  have m0: "0 < m" and mle: "m \<le> num_dirty (buffers d k)" using f(1,3) nd by (simp_all add: m_def)
  have nf: "\<not> PMBD_BUFFER_IS_FULL (buffers d1 k)"
    using m0 mle nd f(1) by (simp add: PMBD_BUFFER_IS_FULL_def d1_def flush_result_ctrl)
  have unf: "pmbd_buffer_alloc_block d k p =
      (case pmbd_buffer_check_and_flush d k (batch_size (buffers d k)) CALLER_ALLOCATOR of
         Inl e \<Rightarrow> Some (Inl e)
       | Inr r \<Rightarrow> pmbd_buffer_alloc_block (snd r) k p)"
    using True by (subst pmbd_buffer_alloc_block.simps) simp
  from check_and_flush_allocator_gen [OF wf k True]
  show ?thesis
    unfolding ok_or_def m_def [symmetric] d1_def [symmetric]
  proof (elim disjE exE conjE)
    assume "pmbd_buffer_check_and_flush d k (batch_size (buffers d k)) CALLER_ALLOCATOR = Inr (m, d1)"
    then have step: "pmbd_buffer_alloc_block d k p = pmbd_buffer_alloc_block d1 k p"
      unfolding unf by simp
    have "pmbd_buffer_alloc_block d1 k p = Some (Inr (alloc_reserve d1 k p))"
      using nf by (subst pmbd_buffer_alloc_block.simps) simp
    moreover have "dev_wf d1" unfolding d1_def by (rule flush_result_wf [OF wf k mle])
    moreover have "\<not> PMBD_BLOCK_IS_BUFFERED d1 p"
      using nb flush_result_buffered [OF wk mle] by (simp add: d1_def)
    moreover have "view_byte d1 = view_byte d"
      using flush_result_view [OF wf k mle] by (auto simp: d1_def fun_eq_iff)
    moreover have "same_geometry d d1" by (simp add: d1_def)
    ultimately show ?thesis using nf step by auto
  next
    fix e
    assume "pmbd_buffer_check_and_flush d k (batch_size (buffers d k)) CALLER_ALLOCATOR = Inl e"
      and "store_fail d e"
    then show ?thesis unfolding unf by simp
  qed
qed

lemma pmbd_buffer_alloc_block_spec:
  assumes wf: "dev_wf d" and p: "p < PMBD_TOTAL_PB_NUM d" and nb: "\<not> PMBD_BLOCK_IS_BUFFERED d p"
    and own: "PBN_TO_PMBD_BUFFER_ID d p = k" and nts: "\<not> use_nts d"
  shows "\<exists>d1. pmbd_buffer_alloc_block d k p = Some (Inr (alloc_reserve d1 k p)) \<and>
           dev_wf d1 \<and> \<not> PMBD_BLOCK_IS_BUFFERED d1 p \<and> \<not> PMBD_BUFFER_IS_FULL (buffers d1 k) \<and>
           view_byte d1 = view_byte d \<and> same_geometry d d1"
  using pmbd_buffer_alloc_block_gen [OF wf p nb own] nts by (simp add: store_fail_def)
subsection \<open>Writes into a slot of the ring\<close>

lemma set_space_fields [simp]:
  "pb_size (set_space k r d) = pb_size d"
  "sector_size (set_space k r d) = sector_size d"
  "num_sectors (set_space k r d) = num_sectors d"
  "bufmode (set_space k r d) = bufmode d"
  "wpmode (set_space k r d) = wpmode d"
  "num_buffers (set_space k r d) = num_buffers d"
  "buffer_stride (set_space k r d) = buffer_stride d"
  "g_pmbd_wr_verify (set_space k r d) = g_pmbd_wr_verify d"
  "g_pmbd_subpage_update (set_space k r d) = g_pmbd_subpage_update d"
  "use_nts (set_space k r d) = use_nts d" "use_ntl (set_space k r d) = use_ntl d"
  "mem_space (set_space k r d) = mem_space d"
  "pbi_space (set_space k r d) = pbi_space d"
  "PMBD_TOTAL_PB_NUM (set_space k r d) = PMBD_TOTAL_PB_NUM d"
  "PBN_TO_PMBD_BUFFER_ID (set_space k r d) q = PBN_TO_PMBD_BUFFER_ID d q"
  by (simp_all add: set_space_def PMBD_TOTAL_PB_NUM_def PMBD_MEM_TOTAL_BYTES_def PBN_TO_PMBD_BUFFER_ID_def)

lemma set_space_buffer_fields [simp]:
  "num_blocks (buffers (set_space k r d) k') = num_blocks (buffers d k')"
  "batch_size (buffers (set_space k r d) k') = batch_size (buffers d k')"
  "pos_dirty (buffers (set_space k r d) k') = pos_dirty (buffers d k')"
  "pos_clean (buffers (set_space k r d) k') = pos_clean (buffers d k')"
  "num_dirty (buffers (set_space k r d) k') = num_dirty (buffers d k')"
  "bbi_space (buffers (set_space k r d) k') = bbi_space (buffers d k')"
  by (simp_all add: set_space_def)

lemma set_space_ring:
  "buffer_space (buffers (set_space k r d) k') = (if k' = k then r else buffer_space (buffers d k'))"
  by (simp add: set_space_def)

lemma set_space_segment [simp]:
  "in_dirty_segment (buffers (set_space k r d) k') j = in_dirty_segment (buffers d k') j"
  by (simp add: in_dirty_segment_def)

lemma set_space_buffered [simp]:
  "PMBD_BLOCK_IS_BUFFERED (set_space k r d) q = PMBD_BLOCK_IS_BUFFERED d q"
  by (simp add: PMBD_BLOCK_IS_BUFFERED_def)

lemma set_space_buffer_wf [simp]: "buffer_wf (set_space k r d) k' = buffer_wf d k'"
  by (simp add: buffer_wf_def Let_def)

lemma set_space_wf [simp]: "dev_wf (set_space k r d) = dev_wf d"
  by (simp add: dev_wf_def)

lemma slot_div: "(4096 * j + a mod 4096) div 4096 = (j::nat)"
  by simp

lemma set_space_view:
  assumes wf: "dev_wf d" and p: "p < PMBD_TOTAL_PB_NUM d" and b: "PMBD_BLOCK_IS_BUFFERED d p"
    and own: "PBN_TO_PMBD_BUFFER_ID d p = k"
    and r: "\<And>x. x div 4096 \<noteq> pbi_space d p \<Longrightarrow> r x = buffer_space (buffers d k) x"
    and a: "a div 4096 < PMBD_TOTAL_PB_NUM d"
  shows "view_byte (set_space k r d) a =
           (if a div 4096 = p then r (4096 * pbi_space d p + a mod 4096) else view_byte d a)"
proof -
  define q where "q = a div 4096"
  note g = dev_wf_geom [OF wf]
  show ?thesis
  proof (cases "PMBD_BLOCK_IS_BUFFERED d q")
    case False
    then have "q \<noteq> p" using b by auto
    then show ?thesis using False g(1) by (simp add: view_byte_def Let_def q_def [symmetric])
  next
    case True
    note lq = dev_wf_link [OF wf a [folded q_def] True]
    note lp = dev_wf_link [OF wf p b]
    show ?thesis
    proof (cases "q = p")
      case qp: True
      then show ?thesis using True own g(1) by (simp add: view_byte_def Let_def q_def [symmetric] set_space_ring)
    next
      case False
      show ?thesis
      proof (cases "PBN_TO_PMBD_BUFFER_ID d q = k")
        case ne: False
        then show ?thesis using True False g(1)
          by (simp add: view_byte_def Let_def q_def [symmetric] set_space_ring)
      next
        case same: True
        have "pbi_space d q \<noteq> pbi_space d p"
        proof
          assume "pbi_space d q = pbi_space d p"
          then have "q = p" using lq(2) lp(2) same own by simp
          then show False using False by simp
        qed
        then have "r (4096 * pbi_space d q + a mod 4096) =
                   buffer_space (buffers d k) (4096 * pbi_space d q + a mod 4096)"
          using r [of "4096 * pbi_space d q + a mod 4096"] by (simp only: slot_div) simp
        then show ?thesis using True False same g(1)
          by (simp add: view_byte_def Let_def q_def [symmetric] set_space_ring)
      qed
    qed
  qed
qed

lemma write_slot_eq:
  assumes "dirty (bbi_space (buffers d k) j)"
  shows "PMBD_BUFFER_SET_BBI_DIRTY k j (upd_buffer k (\<lambda>b. b\<lparr>buffer_space := f (buffer_space b)\<rparr>) d) =
         set_space k (f (buffer_space (buffers d k))) d"
proof -
  have "(bbi_space (buffers d k))(j := (bbi_space (buffers d k) j)\<lparr>dirty := True\<rparr>) = bbi_space (buffers d k)"
    using assms by (simp add: fun_eq_iff)
  then show ?thesis by (simp add: macro_defs set_space_def)
qed

lemma hydrate_eq:
  "upd_buffer k (\<lambda>b. b\<lparr>buffer_space := f (buffer_space b)\<rparr>) d = set_space k (f (buffer_space (buffers d k))) d"
  by (simp add: upd_buffer_def set_space_def)

lemma same_geometry_set_space [simp]: "same_geometry d (set_space k r d)"
  by (simp add: same_geometry_def)
subsection \<open>A write into a buffered block\<close>

lemma in_block:
  assumes "off + sz \<le> (4096::nat)"
  shows "4096 * p + off \<le> a \<and> a < 4096 * p + off + sz \<longleftrightarrow>
         a div 4096 = p \<and> off \<le> a mod 4096 \<and> a mod 4096 < off + sz"
proof -
  have a: "a = 4096 * (a div 4096) + a mod 4096" by simp
  have m: "a mod 4096 < 4096" by simp
  show ?thesis
  proof
    assume h: "4096 * p + off \<le> a \<and> a < 4096 * p + off + sz"
    then have "4096 * p \<le> a \<and> a < 4096 * p + 4096" using assms by linarith
    then have q: "a div 4096 = p" using block_addr [of 4096 p a] by simp
    then have "a = 4096 * p + a mod 4096" using a by simp
    then show "a div 4096 = p \<and> off \<le> a mod 4096 \<and> a mod 4096 < off + sz"
      using h q by linarith
  next
    assume h: "a div 4096 = p \<and> off \<le> a mod 4096 \<and> a mod 4096 < off + sz"
    then have "a = 4096 * p + a mod 4096" using a by simp
    then show "4096 * p + off \<le> a \<and> a < 4096 * p + off + sz" using h by linarith
  qed
qed

lemma write_in_slot:
  assumes wf: "dev_wf d" and p: "p < PMBD_TOTAL_PB_NUM d" and b: "PMBD_BLOCK_IS_BUFFERED d p"
    and own: "PBN_TO_PMBD_BUFFER_ID d p = k" and sz: "off + sz \<le> 4096"
    and a: "a div 4096 < PMBD_TOTAL_PB_NUM d"
  shows "view_byte (set_space k (memcpy (buffer_space (buffers d k)) (4096 * pbi_space d p + off) src from sz) d) a =
         memcpy (view_byte d) (4096 * p + off) src from sz a"
proof -
  define j where "j = pbi_space d p"
  define r where "r = memcpy (buffer_space (buffers d k)) (4096 * j + off) src from sz"
  have out: "r x = buffer_space (buffers d k) x" if "x div 4096 \<noteq> j" for x
  proof -
    have "\<not> (4096 * j + off \<le> x \<and> x < 4096 * j + off + sz)"
      using that in_block [OF sz, of j x] by blast
    then show ?thesis unfolding r_def memcpy_apply by (rule if_not_P)
  qed
  have v: "view_byte (set_space k r d) a =
           (if a div 4096 = p then r (4096 * j + a mod 4096) else view_byte d a)"
    using set_space_view [OF wf p b own _ a, of r] out by (simp add: j_def)
  have ib: "(4096 * j + off \<le> 4096 * j + a mod 4096 \<and> 4096 * j + a mod 4096 < 4096 * j + off + sz)
            \<longleftrightarrow> off \<le> a mod 4096 \<and> a mod 4096 < off + sz"
    by auto
  have "view_byte (set_space k r d) a = memcpy (view_byte d) (4096 * p + off) src from sz a"
  proof (cases "a div 4096 = p")
    case False
    then have "\<not> (4096 * p + off \<le> a \<and> a < 4096 * p + off + sz)"
      using in_block [OF sz, of p a] by blast
    then have m1: "memcpy (view_byte d) (4096 * p + off) src from sz a = view_byte d a"
      unfolding memcpy_apply by (rule if_not_P)
    have m2: "view_byte (set_space k r d) a = view_byte d a"
      unfolding v using False by (rule if_not_P)
    show ?thesis by (simp only: m1 m2)
  next
    case True
    have vd: "view_byte d a = buffer_space (buffers d k) (4096 * j + a mod 4096)"
      using True b own dev_wf_geom(1) [OF wf] by (simp add: view_byte_def Let_def j_def)
    have ap: "a = 4096 * p + a mod 4096" using True by auto
    have vr: "view_byte (set_space k r d) a = r (4096 * j + a mod 4096)"
      unfolding v using True by (rule if_P)
    show ?thesis
    proof (cases "off \<le> a mod 4096 \<and> a mod 4096 < off + sz")
      case in_range: True
      have d1: "a - (4096 * p + off) = a mod 4096 - off" using ap in_range by linarith
      have d2: "4096 * j + a mod 4096 - (4096 * j + off) = a mod 4096 - off" using in_range by linarith
      have c1: "4096 * p + off \<le> a \<and> a < 4096 * p + off + sz"
        using in_block [OF sz, of p a] True in_range by blast
      have c2: "4096 * j + off \<le> 4096 * j + a mod 4096 \<and> 4096 * j + a mod 4096 < 4096 * j + off + sz"
        using ib in_range by blast
      have m1: "memcpy (view_byte d) (4096 * p + off) src from sz a = src (from + (a mod 4096 - off))"
        unfolding memcpy_apply using c1 d1 by (simp only: if_P)
      have m2: "r (4096 * j + a mod 4096) = src (from + (a mod 4096 - off))"
        unfolding r_def memcpy_apply using c2 d2 by (simp only: if_P)
      show ?thesis by (simp only: vr m1 m2)
    next
      case out_range: False
      have c1: "\<not> (4096 * p + off \<le> a \<and> a < 4096 * p + off + sz)"
        using in_block [OF sz, of p a] out_range by blast
      have c2: "\<not> (4096 * j + off \<le> 4096 * j + a mod 4096 \<and> 4096 * j + a mod 4096 < 4096 * j + off + sz)"
        using ib out_range by blast
      have m1: "memcpy (view_byte d) (4096 * p + off) src from sz a = view_byte d a"
        unfolding memcpy_apply using c1 by (rule if_not_P)
      have m2: "r (4096 * j + a mod 4096) = buffer_space (buffers d k) (4096 * j + a mod 4096)"
        unfolding r_def memcpy_apply using c2 by (rule if_not_P)
      show ?thesis by (simp only: vr m1 m2 vd)
    qed
  qed
  then show ?thesis unfolding r_def j_def .
qed

lemma upd_buffer_fields [simp]:
  "pbi_space (upd_buffer k f d) = pbi_space d" "pb_size (upd_buffer k f d) = pb_size d"
  "mem_space (upd_buffer k f d) = mem_space d"
  by (simp_all add: upd_buffer_def)

lemma copy_to_block_buffered:
  assumes wf: "dev_wf d" and p: "p < PMBD_TOTAL_PB_NUM d" and b: "PMBD_BLOCK_IS_BUFFERED d p"
    and own: "PBN_TO_PMBD_BUFFER_ID d p = k"
  shows "copy_to_block d src from p sect_s sz =
         Some (Inr (set_space k (memcpy (buffer_space (buffers d k))
                                   (4096 * pbi_space d p + 512 * sect_s) src from sz) d))"
proof -
  have dirty: "dirty (bbi_space (buffers d k) (pbi_space d p))"
    using dev_wf_link(1) [OF wf p b] buffer_wf_segment(1) [of d k "pbi_space d p"]
      dev_wf_buffer [OF wf, of k] owner_lt [OF dev_wf_geom(5) [OF wf], of p] own by simp
  show ?thesis
    unfolding copy_to_block_def Let_def own pmbd_buffer_lookup_def
    using b write_slot_eq [OF dirty, of "\<lambda>bs. memcpy bs (4096 * pbi_space d p + 512 * sect_s) src from sz"]
      dev_wf_geom(1) [OF wf]
    by (simp add: PMBD_BUFFER_BLOCK_def SECTOR_TO_BYTE_def mult.commute)
qed
subsection \<open>One iteration of the buffered write\<close>

lemma memcpy_in: "to \<le> a \<and> a < to + n \<Longrightarrow> memcpy dst to src from n a = src (from + (a - to))"
  by (simp add: memcpy_apply)

lemma memcpy_out: "\<not> (to \<le> a \<and> a < to + n) \<Longrightarrow> memcpy dst to src from n a = dst a"
  unfolding memcpy_apply by (rule if_not_P)

lemma hydrate_view:
  assumes wf: "dev_wf d" and p: "p < PMBD_TOTAL_PB_NUM d" and b: "PMBD_BLOCK_IS_BUFFERED d p"
    and own: "PBN_TO_PMBD_BUFFER_ID d p = k" and a: "a div 4096 < PMBD_TOTAL_PB_NUM d"
  shows "view_byte (set_space k (memcpy (buffer_space (buffers d k)) (4096 * pbi_space d p)
                                  (mem_space d) (4096 * p) 4096) d) a =
         (if a div 4096 = p then mem_space d a else view_byte d a)"
proof -
  have "view_byte (set_space k (memcpy (buffer_space (buffers d k)) (4096 * pbi_space d p + 0)
                                  (mem_space d) (4096 * p) 4096) d) a =
        memcpy (view_byte d) (4096 * p + 0) (mem_space d) (4096 * p) 4096 a"
    by (rule write_in_slot [OF wf p b own _ a]) simp
  moreover have "memcpy (view_byte d) (4096 * p) (mem_space d) (4096 * p) 4096 a =
                 (if a div 4096 = p then mem_space d a else view_byte d a)"
  proof (cases "a div 4096 = p")
    case True
    then have "4096 * p \<le> a \<and> a < 4096 * p + 4096" using block_addr [of 4096 p a] by simp
    then have "memcpy (view_byte d) (4096 * p) (mem_space d) (4096 * p) 4096 a =
               mem_space d (4096 * p + (a - 4096 * p))" by (rule memcpy_in)
    moreover have "4096 * p + (a - 4096 * p) = a" using True by auto
    ultimately show ?thesis using True by simp
  next
    case False
    then have "\<not> (4096 * p \<le> a \<and> a < 4096 * p + 4096)" using block_addr [of 4096 p a] by simp
    then have "memcpy (view_byte d) (4096 * p) (mem_space d) (4096 * p) 4096 a = view_byte d a"
      by (rule memcpy_out)
    then show ?thesis using False by simp
  qed
  ultimately show ?thesis by simp
qed

lemma load_fail_cong: "use_ntl d' = use_ntl d \<Longrightarrow> load_fail d' = load_fail d"
  by (simp add: fun_eq_iff load_fail_def)

lemma nt_fail_cong: "same_geometry d d' \<Longrightarrow> nt_fail d' = nt_fail d"
  by (simp add: fun_eq_iff nt_fail_def store_fail_def load_fail_def same_geometry_def)

lemma copy_to_block_unbuffered_gen:
  assumes nb: "\<not> PMBD_BLOCK_IS_BUFFERED d p" and own: "PBN_TO_PMBD_BUFFER_ID d p = k"
    and alloc: "pmbd_buffer_alloc_block d k p = Some (Inr (alloc_reserve d1 k p))"
    and pb: "pb_size d1 = 4096" and d0: "d0 = snd (alloc_reserve d1 k p)"
    and pos: "pos = pos_clean (buffers d1 k)"
    and dh: "dh = (if sz < 4096
                   then set_space k (memcpy (buffer_space (buffers d0 k)) (4096 * pos) (mem_space d0) (4096 * p) 4096) d0
                   else d0)"
  shows "copy_to_block d src from p sect_s sz =
           Some (Inr (set_space k (memcpy (buffer_space (buffers dh k)) (4096 * pos + 512 * sect_s) src from sz) dh)) \<or>
         (\<exists>e. copy_to_block d src from p sect_s sz = Some (Inl e) \<and> load_fail d1 e)"
proof -
  have ar: "alloc_reserve d1 k p = (pos, d0)" using d0 pos by (simp add: prod_eq_iff)
  have pbi0: "pbi_space d0 p = pos" by (simp add: d0 pos alloc_reserve_pbi)
  have dirty0: "dirty (bbi_space (buffers d0 k) pos)" by (simp add: d0 pos alloc_reserve_bbi)
  have pbih: "pbi_space dh p = pos" using pbi0 by (simp add: dh)
  have dirtyh: "dirty (bbi_space (buffers dh k) pos)" using dirty0 by (simp add: dh)
  have pbh: "pb_size dh = 4096" and pb0: "pb_size d0 = 4096" using pb by (simp_all add: dh d0)
  define ring where "ring = (if sz < 4096
      then memcpy (buffer_space (buffers d0 k)) (4096 * pos) (mem_space d0) (4096 * p) 4096
      else buffer_space (buffers d0 k))"
  define H where "H = (if sz < pb_size d0 then
                memcpy_from_pmbd d0 (buffer_space (buffers d0 k))
                  (PMBD_BUFFER_BLOCK d0 (pbi_space d0 p)) (PMBD_BLOCK_VADDR d0 p) (pb_size d0)
              else Inr (buffer_space (buffers d0 k)))"
  have lf: "load_fail d0 = load_fail d1" by (rule load_fail_cong) (simp add: d0)
  have hyd: "ok_or (load_fail d1) H ring"
    using memcpy_from_pmbd_cases [of d0 "buffer_space (buffers d0 k)" "4096 * pos" "4096 * p" 4096]
    by (simp add: H_def ring_def pb0 pbi0 PMBD_BUFFER_BLOCK_def PMBD_BLOCK_VADDR_def lf ok_or_def)
  have same: "set_space k (buffer_space (buffers d0 k)) d0 = d0"
    by (simp add: set_space_def)
  have hyd2: "upd_buffer k (\<lambda>b. b\<lparr>buffer_space := ring\<rparr>) d0 = dh"
    using hydrate_eq [of k "\<lambda>bs. ring" d0] same by (simp add: dh ring_def)
  have wr: "PMBD_BUFFER_SET_BBI_DIRTY k pos
              (upd_buffer k (\<lambda>b. b\<lparr>buffer_space := memcpy (buffer_space b) t src from sz\<rparr>) dh) =
            set_space k (memcpy (buffer_space (buffers dh k)) t src from sz) dh" for t
    by (rule write_slot_eq [OF dirtyh, of "\<lambda>bs. memcpy bs t src from sz"])
  have unf: "copy_to_block d src from p sect_s sz =
      (case H of
         Inl e \<Rightarrow> Some (Inl e)
       | Inr ring \<Rightarrow>
           (let d1 = upd_buffer k (\<lambda>b. b\<lparr>buffer_space := ring\<rparr>) d0;
                to = PMBD_BUFFER_BLOCK d1 (pbi_space d1 p) + SECTOR_TO_BYTE sect_s;
                d2 = upd_buffer k (\<lambda>b. b\<lparr>buffer_space := memcpy (buffer_space b) to src from sz\<rparr>) d1
            in Some (Inr (PMBD_BUFFER_SET_BBI_DIRTY k (pbi_space d2 p) d2))))"
    unfolding copy_to_block_def Let_def own pmbd_buffer_lookup_def H_def
    using nb alloc by (simp add: ar)
  from hyd show ?thesis
    unfolding ok_or_def
  proof (elim disjE exE conjE)
    assume "H = Inr ring"
    then have "copy_to_block d src from p sect_s sz =
           Some (Inr (set_space k (memcpy (buffer_space (buffers dh k)) (4096 * pos + 512 * sect_s) src from sz) dh))"
      unfolding unf
      by (simp add: Let_def hyd2 pbih pbh wr PMBD_BUFFER_BLOCK_def SECTOR_TO_BYTE_def mult.commute)
    then show ?thesis ..
  next
    fix e assume "H = Inl e" and "load_fail d1 e"
    then show ?thesis unfolding unf by simp
  qed
qed

lemma copy_to_block_unbuffered:
  assumes nb: "\<not> PMBD_BLOCK_IS_BUFFERED d p" and own: "PBN_TO_PMBD_BUFFER_ID d p = k"
    and alloc: "pmbd_buffer_alloc_block d k p = Some (Inr (alloc_reserve d1 k p))"
    and pb: "pb_size d1 = 4096" and d0: "d0 = snd (alloc_reserve d1 k p)"
    and pos: "pos = pos_clean (buffers d1 k)" and ntl: "\<not> use_ntl d1"
    and dh: "dh = (if sz < 4096
                   then set_space k (memcpy (buffer_space (buffers d0 k)) (4096 * pos) (mem_space d0) (4096 * p) 4096) d0
                   else d0)"
  shows "copy_to_block d src from p sect_s sz =
         Some (Inr (set_space k (memcpy (buffer_space (buffers dh k)) (4096 * pos + 512 * sect_s) src from sz) dh))"
  using copy_to_block_unbuffered_gen [OF nb own alloc pb d0 pos dh, of src "from" sect_s] ntl
  by (simp add: load_fail_def)

text \<open>
  One iteration of the buffered write, for a block of the device and a range inside the
  block: unless a non-temporal copy panics, it returns a well-formed state in which the
  block is buffered and whose contents are the old contents with the range replaced by
  the source. Without the options \<open>nts\<close> and \<open>ntl\<close> it returns.
\<close>

lemma copy_to_block_gen:
  assumes wf: "dev_wf d" and p: "p < PMBD_TOTAL_PB_NUM d" and sz: "512 * sect_s + sz \<le> 4096"
  shows "(\<exists>d'. copy_to_block d src from p sect_s sz = Some (Inr d') \<and> dev_wf d' \<and> same_geometry d d' \<and>
           PMBD_BLOCK_IS_BUFFERED d' p \<and>
           (\<forall>a. a div 4096 < PMBD_TOTAL_PB_NUM d \<longrightarrow>
              view_byte d' a = memcpy (view_byte d) (4096 * p + 512 * sect_s) src from sz a)) \<or>
         (\<exists>e. copy_to_block d src from p sect_s sz = Some (Inl e) \<and> nt_fail d e)"
proof (cases "PMBD_BLOCK_IS_BUFFERED d p")
  case True
  define k where "k = PBN_TO_PMBD_BUFFER_ID d p"
  define d' where "d' = set_space k (memcpy (buffer_space (buffers d k))
                                   (4096 * pbi_space d p + 512 * sect_s) src from sz) d"
  have "copy_to_block d src from p sect_s sz = Some (Inr d')"
    unfolding d'_def by (rule copy_to_block_buffered [OF wf p True]) (simp add: k_def)
  moreover have "dev_wf d'" "same_geometry d d'" "PMBD_BLOCK_IS_BUFFERED d' p"
    using wf True by (simp_all add: d'_def)
  moreover have "view_byte d' a = memcpy (view_byte d) (4096 * p + 512 * sect_s) src from sz a"
    if "a div 4096 < PMBD_TOTAL_PB_NUM d" for a
    unfolding d'_def by (rule write_in_slot [OF wf p True _ sz that]) (simp add: k_def)
  ultimately show ?thesis by blast
next
  case False
  define k where "k = PBN_TO_PMBD_BUFFER_ID d p"
  have own: "PBN_TO_PMBD_BUFFER_ID d p = k" by (simp add: k_def)
  from pmbd_buffer_alloc_block_gen [OF wf p False own]
  show ?thesis
  proof (elim disjE exE conjE)
    fix e assume a: "pmbd_buffer_alloc_block d k p = Some (Inl e)" and "store_fail d e"
    then have "copy_to_block d src from p sect_s sz = Some (Inl e)" "nt_fail d e"
      using False by (simp_all add: copy_to_block_def Let_def own pmbd_buffer_lookup_def nt_fail_def)
    then show ?thesis by blast
  next
    fix d1
    assume alloc: "pmbd_buffer_alloc_block d k p = Some (Inr (alloc_reserve d1 k p))"
      and wf1: "dev_wf d1" and nb1: "\<not> PMBD_BLOCK_IS_BUFFERED d1 p"
      and nf1: "\<not> PMBD_BUFFER_IS_FULL (buffers d1 k)"
      and v1: "view_byte d1 = view_byte d" and g1: "same_geometry d d1"
    define d0 where "d0 = snd (alloc_reserve d1 k p)"
    define pos where "pos = pos_clean (buffers d1 k)"
    define dh where "dh = (if sz < 4096
                     then set_space k (memcpy (buffer_space (buffers d0 k)) (4096 * pos) (mem_space d0) (4096 * p) 4096) d0
                     else d0)"
    define d' where "d' = set_space k (memcpy (buffer_space (buffers dh k)) (4096 * pos + 512 * sect_s) src from sz) dh"
    have t1: "PMBD_TOTAL_PB_NUM d1 = PMBD_TOTAL_PB_NUM d" by (rule same_geometry_total [OF g1])
    have own1: "PBN_TO_PMBD_BUFFER_ID d1 p = k" using same_geometry_owner [OF g1, of p] own by simp
    have p1: "p < PMBD_TOTAL_PB_NUM d1" using p t1 by simp
    have k1: "k < num_buffers d1" using owner_lt [OF dev_wf_geom(5) [OF wf1], of p] own1 by simp
    have lf1: "load_fail d1 e \<Longrightarrow> nt_fail d e" for e
      using g1 by (simp add: nt_fail_def load_fail_def same_geometry_def)
    from copy_to_block_unbuffered_gen [OF False own alloc dev_wf_geom(1) [OF wf1] d0_def pos_def dh_def,
        of src "from" sect_s]
    show ?thesis
    proof (elim disjE exE conjE)
      fix e assume "copy_to_block d src from p sect_s sz = Some (Inl e)" and "load_fail d1 e"
      then show ?thesis using lf1 by blast
    next
      assume "copy_to_block d src from p sect_s sz =
           Some (Inr (set_space k (memcpy (buffer_space (buffers dh k)) (4096 * pos + 512 * sect_s) src from sz) dh))"
      then have res: "copy_to_block d src from p sect_s sz = Some (Inr d')" by (simp add: d'_def)
      have wf0: "dev_wf d0" unfolding d0_def by (rule alloc_reserve_wf [OF wf1 p1 nb1 own1 nf1])
      have g0: "same_geometry d1 d0" by (simp add: d0_def)
      have t0: "PMBD_TOTAL_PB_NUM d0 = PMBD_TOTAL_PB_NUM d" by (simp add: d0_def t1)
      have own0: "PBN_TO_PMBD_BUFFER_ID d0 p = k" by (simp add: d0_def own1)
      have p0: "p < PMBD_TOTAL_PB_NUM d0" using p t0 by simp
      have b0: "PMBD_BLOCK_IS_BUFFERED d0 p"
        using alloc_reserve_buffered [OF dev_wf_buffer [OF wf1 k1] own1, of p] by (simp add: d0_def)
      have pbi0: "pbi_space d0 p = pos" by (simp add: d0_def pos_def alloc_reserve_pbi)
      have wfh: "dev_wf dh" and gh: "same_geometry d0 dh" and bh: "PMBD_BLOCK_IS_BUFFERED dh p"
        and pbih: "pbi_space dh p = pos" and th: "PMBD_TOTAL_PB_NUM dh = PMBD_TOTAL_PB_NUM d"
        and ownh: "PBN_TO_PMBD_BUFFER_ID dh p = k"
        using wf0 b0 pbi0 t0 own0 by (simp_all add: dh_def)
      have ph: "p < PMBD_TOTAL_PB_NUM dh" using p th by simp
      have wf': "dev_wf d'" "same_geometry dh d'" "PMBD_BLOCK_IS_BUFFERED d' p"
        using wfh bh by (simp_all add: d'_def)
      have geo: "same_geometry d d'"
        using same_geometry_trans [OF same_geometry_trans [OF same_geometry_trans [OF g1 g0] gh] wf'(2)] .
      have view: "view_byte d' a = memcpy (view_byte d) (4096 * p + 512 * sect_s) src from sz a"
        if a: "a div 4096 < PMBD_TOTAL_PB_NUM d" for a
      proof -
        have ah: "a div 4096 < PMBD_TOTAL_PB_NUM dh" and a0: "a div 4096 < PMBD_TOTAL_PB_NUM d0"
          using a th t0 by simp_all
        have v': "view_byte d' a = memcpy (view_byte dh) (4096 * p + 512 * sect_s) src from sz a"
          unfolding d'_def using write_in_slot [OF wfh ph bh ownh sz ah, of src "from"] by (simp only: pbih)
        have v0: "view_byte d0 a = view_byte d a" if "a div 4096 \<noteq> p"
          using alloc_reserve_view [OF wf1 own1, of a] that dev_wf_geom(1) [OF wf1] v1 by (simp add: d0_def)
        have m0: "mem_space d0 a = view_byte d a" if "a div 4096 = p"
        proof -
          have "view_byte d1 a = mem_space d1 a"
            using nb1 that dev_wf_geom(1) [OF wf1] by (simp add: view_byte_def Let_def)
          then show ?thesis using v1 by (simp add: d0_def)
        qed
        have vh: "view_byte dh a = view_byte d a" if "sz < 4096 \<or> a div 4096 \<noteq> p"
        proof (cases "sz < 4096")
          case True
          have "view_byte dh a = (if a div 4096 = p then mem_space d0 a else view_byte d0 a)"
            using hydrate_view [OF wf0 p0 b0 own0 a0] True by (simp add: dh_def pbi0)
          then show ?thesis using v0 m0 by simp
        next
          case False
          then show ?thesis using that v0 by (simp add: dh_def)
        qed
        show ?thesis
        proof (cases "4096 * p + 512 * sect_s \<le> a \<and> a < 4096 * p + 512 * sect_s + sz")
          case True
          then show ?thesis unfolding v' by (simp only: memcpy_in)
        next
          case False
          have "sz < 4096 \<or> a div 4096 \<noteq> p"
          proof (rule ccontr)
            assume "\<not> (sz < 4096 \<or> a div 4096 \<noteq> p)"
            then have "sz = 4096" "sect_s = 0" "a div 4096 = p" using sz by simp_all
            then show False using False block_addr [of 4096 p a] by simp
          qed
          then have "view_byte dh a = view_byte d a" by (rule vh)
          then show ?thesis unfolding v' by (simp only: memcpy_out [OF False])
        qed
      qed
      show ?thesis using res wf'(1,3) geo view by blast
    qed
  qed
qed

lemma copy_to_block_spec:
  assumes wf: "dev_wf d" and p: "p < PMBD_TOTAL_PB_NUM d" and sz: "512 * sect_s + sz \<le> 4096"
    and nts: "\<not> use_nts d" and ntl: "\<not> use_ntl d"
  shows "\<exists>d'. copy_to_block d src from p sect_s sz = Some (Inr d') \<and> dev_wf d' \<and> same_geometry d d' \<and>
           PMBD_BLOCK_IS_BUFFERED d' p \<and>
           (\<forall>a. a div 4096 < PMBD_TOTAL_PB_NUM d \<longrightarrow>
              view_byte d' a = memcpy (view_byte d) (4096 * p + 512 * sect_s) src from sz a)"
  using copy_to_block_gen [OF wf p sz, of src "from"] nts ntl
  by (simp add: nt_fail_def store_fail_def load_fail_def)
subsection \<open>Device creation\<close>

lemma pmbd_create_fields:
  "pb_size (pmbd_create c pm0 ring0) = 4096" "sector_size (pmbd_create c pm0 ring0) = 512"
  "num_sectors (pmbd_create c pm0 ring0) = GB_TO_SECTORS (g_pmbd_size c)"
  "bufmode (pmbd_create c pm0 ring0) = (g_pmbd_bufsize c > 0 \<and> g_pmbd_num_buffers c > 0)"
  "num_buffers (pmbd_create c pm0 ring0) = g_pmbd_num_buffers c"
  "buffer_stride (pmbd_create c pm0 ring0) = g_pmbd_buffer_stride c"
  "mem_space (pmbd_create c pm0 ring0) = pm0"
  "pbi_space (pmbd_create c pm0 ring0) p = PMBD_TOTAL_PB_NUM (pmbd_create c pm0 ring0) + 3"
  "buffers (pmbd_create c pm0 ring0) k =
     pmbd_buffer_create c (PMBD_TOTAL_PB_NUM (pmbd_create c pm0 ring0)) (ring0 k)"
  by (simp_all add: pmbd_create_def Let_def PMBD_TOTAL_PB_NUM_def PMBD_MEM_TOTAL_BYTES_def)

lemma pmbd_create_total:
  "PMBD_TOTAL_PB_NUM (pmbd_create c pm0 ring0) = PMBD_TOTAL_PB_NUM (pmbd_create c pm1 ring1)"
  by (simp add: pmbd_create_def Let_def PMBD_TOTAL_PB_NUM_def PMBD_MEM_TOTAL_BYTES_def)

lemma pmbd_buffer_create_fields:
  "num_blocks (pmbd_buffer_create c t r) = num_blocks (pmbd_buffer_create c t' r')"
  "batch_size (pmbd_buffer_create c t r) = g_pmbd_buffer_batch_size c"
  "num_dirty (pmbd_buffer_create c t r) = 0" "pos_dirty (pmbd_buffer_create c t r) = 0"
  "pos_clean (pmbd_buffer_create c t r) = 0"
  "bbi_space (pmbd_buffer_create c t r) j = \<lparr>pbn = t + 2, dirty = False\<rparr>"
  "0 < num_blocks (pmbd_buffer_create c t r)"
  by (simp_all add: pmbd_buffer_create_def MB_TO_BYTES_def PMBD_BUFFER_MIN_BUFSIZE_def)

lemma pmbd_create_wf:
  assumes "conf_ok c"
  shows "dev_wf (pmbd_create c pm0 ring0)" "bufmode (pmbd_create c pm0 ring0)"
proof -
  define d where "d = pmbd_create c pm0 ring0"
  define z where "z = pmbd_create c (\<lambda>a. 0) (\<lambda>k a. 0)"
  have c: "bufmode z" "0 < buffer_stride z" "0 < batch_size (buffers z 0)"
    "num_blocks (buffers z 0) \<le> PMBD_TOTAL_PB_NUM z + 3"
    using assms by (simp_all add: conf_ok_def Let_def z_def)
  have t: "PMBD_TOTAL_PB_NUM d = PMBD_TOTAL_PB_NUM z" unfolding d_def z_def by (rule pmbd_create_total)
  have nbk: "num_blocks (buffers d k) = num_blocks (buffers z 0)" for k
    unfolding d_def z_def pmbd_create_fields by (rule pmbd_buffer_create_fields(1))
  have seg: "\<not> in_dirty_segment (buffers d k) j" for k j
    by (simp add: in_dirty_segment_def d_def pmbd_create_fields pmbd_buffer_create_fields)
  have nb: "\<not> PMBD_BLOCK_IS_BUFFERED d p" for p
    using c(4) nbk t by (simp add: PMBD_BLOCK_IS_BUFFERED_def d_def pmbd_create_fields)
  show bm: "bufmode (pmbd_create c pm0 ring0)" using c(1) by (simp add: z_def pmbd_create_fields)
  have "dev_wf d"
  proof (rule dev_wfI)
    show "pb_size d = 4096" "sector_size d = 512" by (simp_all add: d_def pmbd_create_fields)
    show "8 dvd num_sectors d" by (simp add: d_def pmbd_create_fields GB_TO_SECTORS_def)
    show "0 < buffer_stride d" using c(2) by (simp add: d_def z_def pmbd_create_fields)
    show "0 < num_buffers d" using bm by (simp add: d_def pmbd_create_fields)
    show "buffer_wf d k" for k
    proof (rule buffer_wfI)
      show "0 < num_blocks (buffers d k)"
        by (simp add: d_def pmbd_create_fields pmbd_buffer_create_fields)
      show "num_blocks (buffers d k) \<le> PMBD_TOTAL_PB_NUM d + 3" using c(4) nbk t by simp
      show "0 < batch_size (buffers d k)"
        using c(3) by (simp add: d_def z_def pmbd_create_fields pmbd_buffer_create_fields)
      show "num_dirty (buffers d k) \<le> num_blocks (buffers d k)"
        "pos_dirty (buffers d k) < num_blocks (buffers d k)"
        "pos_clean (buffers d k) = (pos_dirty (buffers d k) + num_dirty (buffers d k)) mod num_blocks (buffers d k)"
        by (simp_all add: d_def pmbd_create_fields pmbd_buffer_create_fields)
      show "dirty (bbi_space (buffers d k) j) \<and> pbn (bbi_space (buffers d k) j) < PMBD_TOTAL_PB_NUM d \<and>
            PBN_TO_PMBD_BUFFER_ID d (pbn (bbi_space (buffers d k) j)) = k \<and>
            pbi_space d (pbn (bbi_space (buffers d k) j)) = j"
        if "in_dirty_segment (buffers d k) j" for j
        using that seg by blast
      show "pbn (bbi_space (buffers d k) j) = PMBD_TOTAL_PB_NUM d + 2" for j
        by (simp add: d_def pmbd_create_fields pmbd_buffer_create_fields)
    qed
    show "in_dirty_segment (buffers d (PBN_TO_PMBD_BUFFER_ID d p)) (pbi_space d p) \<and>
          pbn (bbi_space (buffers d (PBN_TO_PMBD_BUFFER_ID d p)) (pbi_space d p)) = p"
      if "PMBD_BLOCK_IS_BUFFERED d p" for p
      using that nb by blast
  qed
  then show "dev_wf (pmbd_create c pm0 ring0)" by (simp add: d_def)
qed

lemma conf0_ok: "conf_ok conf0"
  by (simp add: conf_ok_def conf0_def pmbd_create_fields pmbd_buffer_create_def PMBD_TOTAL_PB_NUM_def
        PMBD_MEM_TOTAL_BYTES_def GB_TO_SECTORS_def MB_TO_BYTES_def PMBD_BUFFER_MIN_BUFSIZE_def)

lemma dev0_wf: "dev_wf dev0"
  unfolding dev0_def by (rule pmbd_create_wf(1) [OF conf0_ok])

lemma dev0_total: "PMBD_TOTAL_PB_NUM dev0 = 262144"
  by (simp add: dev0_def conf0_def pmbd_create_fields PMBD_TOTAL_PB_NUM_def PMBD_MEM_TOTAL_BYTES_def
        GB_TO_SECTORS_def)

lemma dev0_buffer:
  "num_blocks (buffers dev0 k) = 4096" "num_dirty (buffers dev0 k) = 0" "pos_dirty (buffers dev0 k) = 0"
  "pos_clean (buffers dev0 k) = 0" "batch_size (buffers dev0 k) = 1024"
  by (simp_all add: dev0_def conf0_def pmbd_create_fields pmbd_buffer_create_def MB_TO_BYTES_def
        PMBD_BUFFER_MIN_BUFSIZE_def)

lemma dev0_unbuffered: "\<not> PMBD_BLOCK_IS_BUFFERED dev0 p"
  by (simp add: PMBD_BLOCK_IS_BUFFERED_def dev0_buffer dev0_total)
     (simp add: dev0_def pmbd_create_fields dev0_total [unfolded dev0_def])

lemma dev0_owner: "PBN_TO_PMBD_BUFFER_ID dev0 p = 0"
  by (simp add: PBN_TO_PMBD_BUFFER_ID_def dev0_def conf0_def pmbd_create_fields)

lemma dev1_wf: "dev_wf dev1"
  unfolding dev1_def
  by (rule alloc_reserve_wf [OF dev0_wf _ dev0_unbuffered dev0_owner])
     (simp_all add: dev0_total PMBD_BUFFER_IS_FULL_def dev0_buffer)

lemma dev1_buffer:
  "num_blocks (buffers dev1 0) = 4096" "num_dirty (buffers dev1 0) = 1" "pos_dirty (buffers dev1 0) = 0"
  "pos_clean (buffers dev1 0) = 1" "pb_size dev1 = 4096"
  using dev_wf_geom(1) [OF dev1_wf]
  by (simp_all add: dev1_def alloc_reserve_ctrl dev0_buffer PMBD_BUFFER_NEXT_POS_def)

subsection \<open>A device with non-temporal stores and sub-page update\<close>

lemma conf_nts_ok: "conf_ok conf_nts"
  by (simp add: conf_ok_def conf_nts_def pmbd_create_fields pmbd_buffer_create_def PMBD_TOTAL_PB_NUM_def
        PMBD_MEM_TOTAL_BYTES_def GB_TO_SECTORS_def MB_TO_BYTES_def PMBD_BUFFER_MIN_BUFSIZE_def)

lemma dev_nts_total: "PMBD_TOTAL_PB_NUM dev_nts = 262144"
  by (simp add: dev_nts_def conf_nts_def pmbd_create_fields PMBD_TOTAL_PB_NUM_def PMBD_MEM_TOTAL_BYTES_def
        GB_TO_SECTORS_def)

lemma dev_nts_fields:
  "pb_size dev_nts = 4096" "sector_size dev_nts = 512" "bufmode dev_nts" "wpmode dev_nts = 0"
  "use_nts dev_nts" "\<not> use_ntl dev_nts" "g_pmbd_subpage_update dev_nts" "g_pmbd_wr_verify dev_nts"
  "mem_space dev_nts = (\<lambda>a. 0)" "buffer_stride dev_nts = 1024" "num_buffers dev_nts = 1"
  "pbi_space dev_nts p = 262147" "num_sectors dev_nts = 2097152"
  by (simp_all add: dev_nts_def conf_nts_def pmbd_create_def Let_def GB_TO_SECTORS_def)

lemma dev_nts_buffer:
  "num_blocks (buffers dev_nts k) = 4096" "num_dirty (buffers dev_nts k) = 0" "pos_dirty (buffers dev_nts k) = 0"
  "pos_clean (buffers dev_nts k) = 0" "batch_size (buffers dev_nts k) = 1024"
  "buffer_space (buffers dev_nts k) = (\<lambda>a. 0)"
  by (simp_all add: dev_nts_def conf_nts_def pmbd_create_fields pmbd_buffer_create_def MB_TO_BYTES_def
        PMBD_BUFFER_MIN_BUFSIZE_def)

lemma dev_nts_unbuffered: "\<not> PMBD_BLOCK_IS_BUFFERED dev_nts p"
  by (simp add: PMBD_BLOCK_IS_BUFFERED_def dev_nts_buffer dev_nts_total dev_nts_fields)

lemma dev_nts_owner: "PBN_TO_PMBD_BUFFER_ID dev_nts p = 0"
  by (simp add: PBN_TO_PMBD_BUFFER_ID_def dev_nts_fields)

lemma dev_nts_alloc: "pmbd_buffer_alloc_block dev_nts 0 1 = Some (Inr (alloc_reserve dev_nts 0 1))"
  by (subst pmbd_buffer_alloc_block.simps) (simp add: PMBD_BUFFER_IS_FULL_def dev_nts_buffer)

lemma dev_nts_block: "copy_to_block dev_nts page_b64 0 1 0 4096 = Some (Inr dev_nts1)"
  by (subst copy_to_block_unbuffered [OF dev_nts_unbuffered dev_nts_owner dev_nts_alloc dev_nts_fields(1) refl refl
        dev_nts_fields(6) refl])
     (simp add: dev_nts1_def dev_nts_buffer alloc_reserve_def Let_def macro_defs set_space_def)

lemma dev_nts_write: "copy_to_pmbd dev_nts page_b64 0 8 4096 False = Some (Inr dev_nts1)"
  using dev_nts_block
  by (simp add: copy_to_pmbd_def copy_to_pmbd_buffered_def dev_nts_fields
        SECTOR_TO_PBN_def BYTE_TO_PBN_def PBN_TO_BYTE_def SECTOR_TO_BYTE_def BYTE_TO_SECTOR_def PBN_TO_SECTOR_def
        pmbd_buffer_aligned_request_start_def pmbd_buffer_aligned_request_end_def Let_def)

lemma dev_nts1_fields:
  "pb_size dev_nts1 = 4096" "use_nts dev_nts1" "g_pmbd_subpage_update dev_nts1"
  "mem_space dev_nts1 = (\<lambda>a. 0)" "pbi_space dev_nts1 1 = 0" "wpmode dev_nts1 = 0"
  "PMBD_TOTAL_PB_NUM dev_nts1 = 262144"
  "buffer_space (buffers dev_nts1 0) = memcpy (\<lambda>a. 0) 0 page_b64 0 4096"
  "bbi_space (buffers dev_nts1 0) 0 = \<lparr>pbn = 1, dirty = True\<rparr>"
  "num_blocks (buffers dev_nts1 0) = 4096" "num_dirty (buffers dev_nts1 0) = 1"
  "pos_dirty (buffers dev_nts1 0) = 0" "pos_clean (buffers dev_nts1 0) = 1"
  by (simp_all add: dev_nts1_def set_space_def alloc_reserve_def Let_def macro_defs dev_nts_fields
        dev_nts_buffer PMBD_BUFFER_NEXT_POS_def PMBD_TOTAL_PB_NUM_def PMBD_MEM_TOTAL_BYTES_def)

lemma dev_nts_wf: "dev_wf dev_nts"
  unfolding dev_nts_def by (rule pmbd_create_wf(1) [OF conf_nts_ok])

lemma dev_nts1_wf: "dev_wf dev_nts1"
  unfolding dev_nts1_def set_space_wf
  by (rule alloc_reserve_wf [OF dev_nts_wf _ dev_nts_unbuffered dev_nts_owner])
     (simp_all add: dev_nts_total PMBD_BUFFER_IS_FULL_def dev_nts_buffer)

lemma dev_nts1_scan:
  "flush_scan (buffers dev_nts1 0) 0 1 0 [] = Inr [\<lparr>se_bbn = 0, se_pbn = 1\<rparr>]"
  by (subst flush_scan.simps) (simp add: dev_nts1_fields)

lemma dev_nts1_chunk0: "mem_eq (mem_space dev_nts1) 4096 (buffer_space (buffers dev_nts1 0)) 0 64"
  by (simp add: mem_eq_iff dev_nts1_fields memcpy_apply page_b64_def)

lemma dev_nts1_chunk1: "\<not> mem_eq (mem_space dev_nts1) 4160 (buffer_space (buffers dev_nts1 0)) 64 64"
proof -
  have "mem_space dev_nts1 (4160 + 0) \<noteq> buffer_space (buffers dev_nts1 0) (64 + 0)"
    by (simp add: dev_nts1_fields memcpy_apply page_b64_def)
  then show ?thesis unfolding mem_eq_iff by (metis zero_less_numeral)
qed

lemma dev_nts1_copy:
  "memcpy_to_pmbd dev_nts1 4096 (buffer_space (buffers dev_nts1 0)) 0 4096 = Inl PanicNtStoreNotAligned"
proof -
  have a: "(64::nat) AND 64 \<noteq> 0" by simp
  have "memcpy_to_pmbd_nopmap True True (mem_space dev_nts1) 4160 (buffer_space (buffers dev_nts1 0)) 64 4032 =
        Inl PanicNtStoreNotAligned"
    by (subst memcpy_to_pmbd_nopmap.simps)
       (simp add: dev_nts1_chunk1 MEMCPY_TO_PMBD_def nts_memcpy_def nts_memcpy_64bytes_v2_def a)
  then have "memcpy_to_pmbd_nopmap True True (mem_space dev_nts1) 4096 (buffer_space (buffers dev_nts1 0)) 0 4096 =
        Inl PanicNtStoreNotAligned"
    by (subst memcpy_to_pmbd_nopmap.simps) (simp add: dev_nts1_chunk0)
  then show ?thesis by (simp add: memcpy_to_pmbd_def dev_nts1_fields)
qed

lemma dev_nts1_buffered: "PMBD_BLOCK_IS_BUFFERED dev_nts1 1"
  by (simp add: PMBD_BLOCK_IS_BUFFERED_def PBN_TO_PMBD_BUFFER_ID_def dev_nts1_fields dev_nts1_def
        set_space_def alloc_reserve_def Let_def macro_defs dev_nts_fields dev_nts_buffer)

lemma dev_nts1_range: "pmbd_buffer_flush_range dev_nts1 0 1 1 = Inl PanicNtStoreNotAligned"
proof -
  have l: "[1..<Suc 1] = [1::nat]" by simp
  have d: "dirty (bbi_space (buffers dev_nts1 0) (pbi_space dev_nts1 1))"
    using dev_nts1_fields(5,9) by simp
  have c: "memcpy_to_pmbd dev_nts1 (PMBD_BLOCK_VADDR dev_nts1 1) (buffer_space (buffers dev_nts1 0))
             (PMBD_BUFFER_BLOCK dev_nts1 (pbi_space dev_nts1 1)) (pb_size dev_nts1) = Inl PanicNtStoreNotAligned"
    using dev_nts1_copy dev_nts1_fields(1,5) by (simp add: PMBD_BLOCK_VADDR_def PMBD_BUFFER_BLOCK_def)
  have "flush_range_copy 0 [1] dev_nts1 = Inl PanicNtStoreNotAligned"
    unfolding flush_range_copy.simps Let_def if_P [OF dev_nts1_buffered] if_P [OF d] c by simp
  then show ?thesis unfolding pmbd_buffer_flush_range_def l by simp
qed

lemma dev_nts1_flush: "pmbd_buffer_flush dev_nts1 0 1024 = Inl PanicNtStoreNotAligned"
proof -
  have s: "flush_scan (buffers dev_nts1 0) (PMBD_BUFFER_PRIO_POS (buffers dev_nts1 0) (pos_clean (buffers dev_nts1 0)))
             (if 1024 > num_dirty (buffers dev_nts1 0) then num_dirty (buffers dev_nts1 0) else 1024)
             (pos_dirty (buffers dev_nts1 0)) [] = Inr [\<lparr>se_bbn = 0, se_pbn = 1\<rparr>]"
    using dev_nts1_scan by (simp add: dev_nts1_fields PMBD_BUFFER_PRIO_POS_def)
  have e: "\<not> (PMBD_BUFFER_IS_EMPTY (buffers dev_nts1 0) \<or>
              (if 1024 > num_dirty (buffers dev_nts1 0) then num_dirty (buffers dev_nts1 0) else 1024) = 0)"
    by (simp add: PMBD_BUFFER_IS_EMPTY_def dev_nts1_fields)
  have r: "flush_runs dev_nts1 0 1 1 [] 0 = Inl PanicNtStoreNotAligned"
    using dev_nts1_range by simp
  show ?thesis
    unfolding pmbd_buffer_flush_def Let_def if_not_P [OF e] s
    using r dev_nts1_fields(6,9) by (simp add: PMBD_DEV_USE_WPMODE_PTE_def)
qed

subsection \<open>A write request on the buffered path\<close>

text \<open>
  The macros on a device with blocks of 4096 bytes, and the first and last block and
  in-block sector of a request of \<open>n\<close> sectors.
\<close>

lemma sector_macros:
  assumes "pb_size d = 4096"
  shows "SECTOR_TO_PBN d s = s div 8" "BYTE_TO_PBN d b = b div 4096" "PBN_TO_SECTOR d p = 8 * p"
proof -
  have "s * 512 div 4096 = s div 8" by simp
  then show "SECTOR_TO_PBN d s = s div 8"
    using assms by (simp add: SECTOR_TO_PBN_def BYTE_TO_PBN_def SECTOR_TO_BYTE_def)
  show "BYTE_TO_PBN d b = b div 4096" using assms by (simp add: BYTE_TO_PBN_def)
  have "p * 4096 div 512 = 8 * p" by simp
  then show "PBN_TO_SECTOR d p = 8 * p"
    using assms by (simp add: PBN_TO_SECTOR_def BYTE_TO_SECTOR_def PBN_TO_BYTE_def)
qed

lemma total_pb: "dev_wf d \<Longrightarrow> PMBD_TOTAL_PB_NUM d = num_sectors d div 8"
proof -
  assume wf: "dev_wf d"
  have "num_sectors d * 512 div 4096 = num_sectors d div 8" by simp
  then show ?thesis
    using dev_wf_geom(1,2) [OF wf] by (simp add: PMBD_TOTAL_PB_NUM_def PMBD_MEM_TOTAL_BYTES_def)
qed

lemma request_bounds:
  assumes "pb_size d = 4096" "0 < n"
  shows "SECTOR_TO_PBN d sector = sector div 8"
    "BYTE_TO_PBN d (SECTOR_TO_BYTE sector + 512 * n - 1) = (sector + n - 1) div 8"
    "pmbd_buffer_aligned_request_start d sector (512 * n) = sector mod 8"
    "pmbd_buffer_aligned_request_end d sector (512 * n) = (sector + n - 1) mod 8"
proof -
  note m = sector_macros [OF assms(1)]
  show "SECTOR_TO_PBN d sector = sector div 8" by (rule m(1))
  have "sector * 512 + 512 * n - 1 = 512 * (sector + n - 1) + 511" using assms(2) by simp
  moreover have "(512 * (sector + n - 1) + 511) div 4096 = (sector + n - 1) div 8"
  proof -
    have "(512 * (sector + n - 1) + 511) div 4096 = ((512 * (sector + n - 1) + 511) div 512) div 8"
      by (simp add: div_mult2_eq)
    then show ?thesis by simp
  qed
  ultimately have "(sector * 512 + 512 * n - 1) div 4096 = (sector + n - 1) div 8" by simp
  then show "BYTE_TO_PBN d (SECTOR_TO_BYTE sector + 512 * n - 1) = (sector + n - 1) div 8"
    by (simp add: m(2) SECTOR_TO_BYTE_def)
  have a: "8 * (x div 8) \<le> x" "x - 8 * (x div 8) = x mod 8" for x :: nat
    by (simp_all add: minus_mult_div_eq_mod)
  show "pmbd_buffer_aligned_request_start d sector (512 * n) = sector mod 8"
    by (simp add: pmbd_buffer_aligned_request_start_def Let_def m a)
  have "512 * n div 512 = n" by simp
  then show "pmbd_buffer_aligned_request_end d sector (512 * n) = (sector + n - 1) mod 8"
    by (simp add: pmbd_buffer_aligned_request_end_def Let_def m a BYTE_TO_SECTOR_def)
qed

text \<open>
  The loop of \<open>copy_to_pmbd_buffered\<close> from block \<open>p\<close> on: unless a non-temporal copy
  panics, it returns a well-formed state whose contents are the old contents with the
  rest of the request replaced by the source.
\<close>

lemma copy_to_blocks_gen:
  assumes wf: "dev_wf d" and pe: "pbn_e < PMBD_TOTAL_PB_NUM d"
    and os: "offset_s < 8" and oe: "offset_e < 8" and se: "pbn_s \<le> pbn_e"
    and ord: "pbn_s < pbn_e \<or> offset_s \<le> offset_e"
    and ps: "pbn_s \<le> p" and pl: "p \<le> Suc pbn_e"
  shows "(\<exists>d'. copy_to_blocks d src from pbn_s pbn_e offset_s offset_e [p..<Suc pbn_e] = Some (Inr d') \<and>
            dev_wf d' \<and> same_geometry d d' \<and>
            (\<forall>a. a div 4096 < PMBD_TOTAL_PB_NUM d \<longrightarrow>
               view_byte d' a =
                 memcpy (view_byte d) (4096 * p + 512 * (if p = pbn_s then offset_s else 0)) src from
                   (4096 * pbn_e + 512 * (offset_e + 1) -
                    (4096 * p + 512 * (if p = pbn_s then offset_s else 0))) a)) \<or>
         (\<exists>e. copy_to_blocks d src from pbn_s pbn_e offset_s offset_e [p..<Suc pbn_e] = Some (Inl e) \<and>
              nt_fail d e)"
  using wf pe ps pl
proof (induction "Suc pbn_e - p" arbitrary: p d "from")
  case 0
  then have p: "p = Suc pbn_e" by simp
  have "4096 * pbn_e + 512 * (offset_e + 1) - (4096 * p + 512 * (if p = pbn_s then offset_s else 0)) = 0"
    using oe p by simp
  then show ?case using p "0.prems"(1) by simp
next
  case (Suc k)
  note wf = Suc.prems(1) and pe = Suc.prems(2) and ps = Suc.prems(3)
  have ple: "p \<le> pbn_e" using Suc.hyps(2) by simp
  have pt: "p < PMBD_TOTAL_PB_NUM d" using ple pe by simp
  note g = dev_wf_geom [OF wf]
  define sect_s where "sect_s = (if p = pbn_s then offset_s else 0)"
  define sect_e where "sect_e = (if p = pbn_e then offset_e else 7)"
  define sz where "sz = 512 * (sect_e - sect_s + 1)"
  have sle: "sect_s \<le> sect_e" using ord os oe ps ple by (auto simp: sect_s_def sect_e_def)
  have e8: "sect_e < 8" using oe by (simp add: sect_e_def)
  have szb: "512 * sect_s + sz \<le> 4096" using sle e8 by (simp add: sz_def)
  have szeq: "512 * sect_s + sz = 512 * (sect_e + 1)" using sle by (simp add: sz_def)
  have lst: "[p..<Suc pbn_e] = p # [Suc p..<Suc pbn_e]" using ple by (simp add: upt_conv_Cons)
  have fa: "(if p = pbn_s then offset_s else 0) = sect_s" by (simp add: sect_s_def)
  have fb: "(if p = pbn_e then offset_e else PBN_TO_SECTOR d 1 - 1) = sect_e"
    by (simp add: sect_e_def sector_macros [OF g(1)])
  have fc: "SECTOR_TO_BYTE (sect_e - sect_s + 1) = sz" by (simp add: SECTOR_TO_BYTE_def sz_def)
  have unf: "copy_to_blocks d src from pbn_s pbn_e offset_s offset_e [p..<Suc pbn_e] =
      (case copy_to_block d src from p sect_s sz of
         None \<Rightarrow> None
       | Some (Inl e) \<Rightarrow> Some (Inl e)
       | Some (Inr d') \<Rightarrow> copy_to_blocks d' src (from + sz) pbn_s pbn_e offset_s offset_e [Suc p..<Suc pbn_e])"
    unfolding lst copy_to_blocks.simps Let_def fa fb fc by (rule refl)
  let ?L = "4096 * pbn_e + 512 * (offset_e + 1) - (4096 * p + 512 * sect_s)"
  from copy_to_block_gen [OF wf pt szb, of src "from"]
  show ?case
    unfolding sect_s_def [symmetric]
  proof (elim disjE exE conjE)
    fix e assume "copy_to_block d src from p sect_s sz = Some (Inl e)" and "nt_fail d e"
    then show "(\<exists>d'. copy_to_blocks d src from pbn_s pbn_e offset_s offset_e [p..<Suc pbn_e] = Some (Inr d') \<and>
            dev_wf d' \<and> same_geometry d d' \<and>
            (\<forall>a. a div 4096 < PMBD_TOTAL_PB_NUM d \<longrightarrow>
               view_byte d' a = memcpy (view_byte d) (4096 * p + 512 * sect_s) src from ?L a)) \<or>
         (\<exists>e. copy_to_blocks d src from pbn_s pbn_e offset_s offset_e [p..<Suc pbn_e] = Some (Inl e) \<and>
              nt_fail d e)"
      unfolding unf by simp
  next
    fix d1
    assume c1: "copy_to_block d src from p sect_s sz = Some (Inr d1)" and wf1: "dev_wf d1"
      and g1: "same_geometry d d1"
      and v1: "\<forall>a. a div 4096 < PMBD_TOTAL_PB_NUM d \<longrightarrow>
                 view_byte d1 a = memcpy (view_byte d) (4096 * p + 512 * sect_s) src from sz a"
    have t1: "PMBD_TOTAL_PB_NUM d1 = PMBD_TOTAL_PB_NUM d" by (rule same_geometry_total [OF g1])
    have nf1: "nt_fail d1 = nt_fail d" by (rule nt_fail_cong [OF g1])
    have step: "copy_to_blocks d src from pbn_s pbn_e offset_s offset_e [p..<Suc pbn_e] =
                copy_to_blocks d1 src (from + sz) pbn_s pbn_e offset_s offset_e [Suc p..<Suc pbn_e]"
      unfolding unf c1 by simp
    have k: "k = Suc pbn_e - Suc p" using Suc.hyps(2) by simp
    have np: "Suc p \<noteq> pbn_s" using ps by simp
    let ?L' = "4096 * pbn_e + 512 * (offset_e + 1) - 4096 * Suc p"
    have comb: "memcpy (memcpy (view_byte d) (4096 * p + 512 * sect_s) src from sz) (4096 * Suc p)
                  src (from + sz) ?L' = memcpy (view_byte d) (4096 * p + 512 * sect_s) src from ?L"
    proof (cases "p = pbn_e")
      case True
      then have "?L' = 0" using oe by simp
      moreover have "?L = sz" using True szeq by (simp add: sect_e_def)
      ultimately show ?thesis by simp
    next
      case False
      then have se7: "sect_e = 7" by (simp add: sect_e_def)
      have to: "4096 * Suc p = 4096 * p + 512 * sect_s + sz" using szeq se7 by simp
      have lt: "p < pbn_e" using False ple by simp
      then have "4096 * Suc p \<le> 4096 * pbn_e" by simp
      then have le: "sz \<le> ?L" and L': "?L' = ?L - sz" using to by simp_all
      show ?thesis
        using memcpy_chunks [OF le, of "view_byte d" "4096 * p + 512 * sect_s" src "from"]
        by (simp only: to [symmetric] L' [symmetric])
    qed
    from Suc.hyps(1) [OF k wf1 _ _ _, of "from + sz"] pe t1 ps ple
    have "(\<exists>d'. copy_to_blocks d1 src (from + sz) pbn_s pbn_e offset_s offset_e [Suc p..<Suc pbn_e] = Some (Inr d') \<and>
            dev_wf d' \<and> same_geometry d1 d' \<and>
            (\<forall>a. a div 4096 < PMBD_TOTAL_PB_NUM d1 \<longrightarrow>
               view_byte d' a = memcpy (view_byte d1) (4096 * Suc p) src (from + sz) ?L' a)) \<or>
         (\<exists>e. copy_to_blocks d1 src (from + sz) pbn_s pbn_e offset_s offset_e [Suc p..<Suc pbn_e] = Some (Inl e) \<and>
              nt_fail d1 e)"
      using np by simp
    then show "(\<exists>d'. copy_to_blocks d src from pbn_s pbn_e offset_s offset_e [p..<Suc pbn_e] = Some (Inr d') \<and>
            dev_wf d' \<and> same_geometry d d' \<and>
            (\<forall>a. a div 4096 < PMBD_TOTAL_PB_NUM d \<longrightarrow>
               view_byte d' a = memcpy (view_byte d) (4096 * p + 512 * sect_s) src from ?L a)) \<or>
         (\<exists>e. copy_to_blocks d src from pbn_s pbn_e offset_s offset_e [p..<Suc pbn_e] = Some (Inl e) \<and>
              nt_fail d e)"
    proof (elim disjE exE conjE)
      fix e assume "copy_to_blocks d1 src (from + sz) pbn_s pbn_e offset_s offset_e [Suc p..<Suc pbn_e] = Some (Inl e)"
        and "nt_fail d1 e"
      then show ?thesis unfolding step nf1 by blast
    next
      fix d'
      assume r: "copy_to_blocks d1 src (from + sz) pbn_s pbn_e offset_s offset_e [Suc p..<Suc pbn_e] = Some (Inr d')"
        and wf': "dev_wf d'" and g': "same_geometry d1 d'"
        and v': "\<forall>a. a div 4096 < PMBD_TOTAL_PB_NUM d1 \<longrightarrow>
                   view_byte d' a = memcpy (view_byte d1) (4096 * Suc p) src (from + sz) ?L' a"
      have "view_byte d' a = memcpy (view_byte d) (4096 * p + 512 * sect_s) src from ?L a"
        if a: "a div 4096 < PMBD_TOTAL_PB_NUM d" for a
      proof -
        have "view_byte d' a = memcpy (view_byte d1) (4096 * Suc p) src (from + sz) ?L' a"
          using v' a t1 by simp
        also have "\<dots> = memcpy (memcpy (view_byte d) (4096 * p + 512 * sect_s) src from sz) (4096 * Suc p)
                  src (from + sz) ?L' a"
          using v1 a by (simp add: memcpy_apply)
        also note comb
        finally show ?thesis .
      qed
      then show ?thesis
        unfolding step using r wf' same_geometry_trans [OF g1 g'] by blast
    qed
  qed
qed

lemma block_sector: "4096 * (s div 8) + 512 * (s mod 8) = 512 * (s::nat)"
proof -
  define q r where "q = s div 8" and "r = s mod 8"
  have "s = 8 * q + r" by (simp add: q_def r_def)
  then show ?thesis unfolding q_def [symmetric] r_def [symmetric] by simp
qed

lemma copy_to_pmbd_buffered_gen:
  assumes wf: "dev_wf d" and n: "0 < n" and cap: "sector + n \<le> num_sectors d"
  shows "(\<exists>d'. copy_to_pmbd_buffered d src from sector (512 * n) = Some (Inr d') \<and>
            dev_wf d' \<and> same_geometry d d' \<and>
            (\<forall>a. a div 4096 < PMBD_TOTAL_PB_NUM d \<longrightarrow>
               view_byte d' a = memcpy (view_byte d) (512 * sector) src from (512 * n) a)) \<or>
         (\<exists>e. copy_to_pmbd_buffered d src from sector (512 * n) = Some (Inl e) \<and> nt_fail d e)"
proof -
  note g = dev_wf_geom [OF wf]
  note rb = request_bounds [OF g(1) n, of sector]
  define last where "last = sector + n - 1"
  have fl: "sector \<le> last" using n by (simp add: last_def)
  have se: "sector div 8 \<le> last div 8" using fl by (rule div_le_mono)
  have ord: "sector div 8 < last div 8 \<or> sector mod 8 \<le> last mod 8"
  proof (cases "sector div 8 < last div 8")
    case False
    then have e: "sector div 8 = last div 8" using se by simp
    have "sector - 8 * (sector div 8) \<le> last - 8 * (sector div 8)" using fl by (rule diff_le_mono)
    then have "sector - 8 * (sector div 8) \<le> last - 8 * (last div 8)" by (simp only: e)
    then have "sector mod 8 \<le> last mod 8" by (simp add: minus_mult_div_eq_mod)
    then show ?thesis ..
  qed simp
  have lt: "last < num_sectors d" using cap n by (simp add: last_def)
  obtain m where m: "num_sectors d = 8 * m" using g(3) by (auto simp: dvd_def)
  have "last div 8 < m" using lt m by (simp add: div_less_iff_less_mult mult.commute)
  then have pe: "last div 8 < PMBD_TOTAL_PB_NUM d" using m by (simp add: total_pb [OF wf])
  have s0: "4096 * (sector div 8) + 512 * (sector mod 8) = 512 * sector"
    by (rule block_sector)
  have s1: "4096 * (last div 8) + 512 * (last mod 8 + 1) = 512 * (sector + n)"
  proof -
    have "4096 * (last div 8) + 512 * (last mod 8 + 1) = (4096 * (last div 8) + 512 * (last mod 8)) + 512" by simp
    also have "\<dots> = 512 * last + 512" by (simp only: block_sector)
    also have "\<dots> = 512 * (sector + n)" using n by (simp add: last_def)
    finally show ?thesis .
  qed
  have len: "4096 * (last div 8) + 512 * (last mod 8 + 1) - (4096 * (sector div 8) + 512 * (sector mod 8)) = 512 * n"
    unfolding s0 s1 by simp
  have unf: "copy_to_pmbd_buffered d src from sector (512 * n) =
             copy_to_blocks d src from (sector div 8) (last div 8) (sector mod 8) (last mod 8)
               [sector div 8..<Suc (last div 8)]"
    unfolding copy_to_pmbd_buffered_def Let_def rb last_def by (rule refl)
  have "(\<exists>d'. copy_to_blocks d src from (sector div 8) (last div 8) (sector mod 8) (last mod 8)
                 [sector div 8..<Suc (last div 8)] = Some (Inr d') \<and>
            dev_wf d' \<and> same_geometry d d' \<and>
            (\<forall>a. a div 4096 < PMBD_TOTAL_PB_NUM d \<longrightarrow>
               view_byte d' a =
                 memcpy (view_byte d)
                   (4096 * (sector div 8) + 512 * (if sector div 8 = sector div 8 then sector mod 8 else 0))
                   src from
                   (4096 * (last div 8) + 512 * (last mod 8 + 1) -
                    (4096 * (sector div 8) + 512 * (if sector div 8 = sector div 8 then sector mod 8 else 0))) a)) \<or>
         (\<exists>e. copy_to_blocks d src from (sector div 8) (last div 8) (sector mod 8) (last mod 8)
                 [sector div 8..<Suc (last div 8)] = Some (Inl e) \<and> nt_fail d e)"
    using se by (intro copy_to_blocks_gen [OF wf pe _ _ se ord le_refl]) simp_all
  then show ?thesis unfolding unf if_P [OF refl] s0 len [unfolded s0] .
qed

text \<open>
  The unbuffered write: unless a non-temporal store panics, the range of the PM window
  holds the source; the verification that follows finds no difference.
\<close>

lemma copy_to_pmbd_unbuffered_gen:
  "ok_or (store_fail d) (copy_to_pmbd_unbuffered d src from sector bytes do_fua)
     (d\<lparr>mem_space := memcpy (mem_space d) (sector * sector_size d) src from bytes\<rparr>)"
proof -
  have v: "mem_eq (memcpy m to src from bytes) to src from bytes" for m to
    by (simp add: mem_eq_iff memcpy_apply)
  from memcpy_to_pmbd_cases [of d "sector * sector_size d" src "from" bytes]
  show ?thesis
    by (auto simp: ok_or_def copy_to_pmbd_unbuffered_def Let_def pmbd_verify_wr_pages_def v)
qed
section \<open>Flush accounting\<close>

text \<open>
  The accounting of \<open>pmbd_buffer_flush\<close> on a device that copies into PM with
  \<open>memcpy\<close> (option \<open>nts\<close> off). In a state where buffer \<open>k\<close> satisfies the buffer
  invariant, \<open>pmbd_buffer_flush\<close> with any budget returns: the count is exactly the
  minimum of the budget and of \<open>num_dirty\<close> at entry, \<open>pos_dirty\<close> has advanced by that
  count modulo the number of slots, \<open>num_dirty\<close> has decreased by it, \<open>pos_clean\<close>, the
  number of slots and the batch size are unchanged, and the buffer invariant holds again
  (so \<open>pos_clean\<close> is \<open>pos_dirty + num_dirty\<close> modulo the number of slots). With an empty
  buffer or a budget of 0 the count is 0 and the state is unchanged.
\<close>

lemma pmbd_buffer_flush_accounting:
  assumes "buffer_wf d k" and "0 < pb_size d" and "\<not> use_nts d"
  shows "\<exists>d'. pmbd_buffer_flush d k budget = Inr (min budget (num_dirty (buffers d k)), d') \<and>
           pos_dirty (buffers d' k) =
             (pos_dirty (buffers d k) + min budget (num_dirty (buffers d k))) mod num_blocks (buffers d k) \<and>
           num_dirty (buffers d' k) = num_dirty (buffers d k) - min budget (num_dirty (buffers d k)) \<and>
           pos_clean (buffers d' k) = pos_clean (buffers d k) \<and>
           num_blocks (buffers d' k) = num_blocks (buffers d k) \<and>
           batch_size (buffers d' k) = batch_size (buffers d k) \<and>
           buffer_wf d' k \<and>
           (num_dirty (buffers d k) = 0 \<or> budget = 0 \<longrightarrow> pmbd_buffer_flush d k budget = Inr (0, d))"
proof -
  define m where "m = min budget (num_dirty (buffers d k))"
  have r: "pmbd_buffer_flush d k budget = Inr (m, flush_result d k m)"
    unfolding m_def by (rule pmbd_buffer_flush_spec [OF assms])
  have mle: "m \<le> num_dirty (buffers d k)" by (simp add: m_def)
  have wf': "buffer_wf (flush_result d k m) k" by (rule flush_result_buffer_wf_same [OF assms(1) mle])
  have z: "flush_result d k 0 = d" by (rule flush_result_zero [OF buffer_wf_fields(5) [OF assms(1)]])
  have e: "num_dirty (buffers d k) = 0 \<or> budget = 0 \<longrightarrow> pmbd_buffer_flush d k budget = Inr (0, d)"
  proof
    assume "num_dirty (buffers d k) = 0 \<or> budget = 0"
    then have "m = 0" by (auto simp: m_def)
    then show "pmbd_buffer_flush d k budget = Inr (0, d)" using r z by simp
  qed
  show ?thesis
    unfolding m_def [symmetric]
    using r wf' e by (intro exI [of _ "flush_result d k m"]) (simp add: flush_result_ctrl z)
qed

lemma dev1_options: "\<not> use_nts dev1" "\<not> use_ntl dev1" "\<not> g_pmbd_subpage_update dev1"
  by (simp_all add: dev1_def dev0_def conf0_def pmbd_create_def alloc_reserve_def Let_def macro_defs)

lemma pmbd_buffer_flush_dev1:
  "\<exists>d'. pmbd_buffer_flush dev1 0 1024 = Inr (1, d') \<and> pos_dirty (buffers d' 0) = 1 \<and>
        num_dirty (buffers d' 0) = 0 \<and> pos_clean (buffers d' 0) = 1 \<and> buffer_wf d' 0"
proof -
  have "buffer_wf dev1 0" using dev_wf_buffer [OF dev1_wf, of 0] dev_wf_geom(5) [OF dev1_wf] by simp
  from pmbd_buffer_flush_accounting [OF this _ dev1_options(1), of 1024] obtain d' where
    "pmbd_buffer_flush dev1 0 1024 = Inr (1, d')" "pos_dirty (buffers d' 0) = 1"
    "num_dirty (buffers d' 0) = 0" "pos_clean (buffers d' 0) = 1" "buffer_wf d' 0"
    by (auto simp: dev1_buffer)
  then show ?thesis by blast
qed

text \<open>
  Claim C6 (flush accounting: \<open>pmbd_buffer_flush\<close> returns the minimum of the budget and
  of \<open>num_dirty\<close> for every buffer state), on the device with the options \<open>ntsY\<close> and
  \<open>subupdateY\<close>. A write of one page to sector 8 leaves block 1 in slot 0 of buffer 0,
  dirty, so \<open>num_dirty\<close> is 1 and a flush with budget 1024 should return 1. The flush
  copies the slot to PM in chunks of 64 bytes and skips the first chunk, which is equal
  in PM; the second chunk differs and goes to \<open>nts_memcpy_64bytes_v2\<close> with source
  offset 64 and destination offset 4160, and the test \<open>& 64UL\<close> of that function
  takes both for unaligned: the flush panics and returns no count.
\<close>

theorem flush_panics_with_nts_and_subpage_update:
  "copy_to_pmbd dev_nts page_b64 0 8 4096 False = Some (Inr dev_nts1) \<and>
   num_dirty (buffers dev_nts1 0) = 1 \<and>
   pmbd_buffer_flush dev_nts1 0 1024 = Inl PanicNtStoreNotAligned"
  by (simp add: dev_nts_write dev_nts1_fields dev_nts1_flush)

end
